(* ===== verification/Toll_Prelude.thy ===== *)
theory Toll_Prelude
  imports Complex_Main "HOL-Library.Word" "HOL-Library.Multiset"
begin

unbundle bit_operations_syntax

text \<open>
  Shared vocabulary of the development: the Go types the services exchange, the collections of
  simplification rules that carry the component proofs, and the generic facts on lists, maps,
  words and folds that more than one component uses.
\<close>

section \<open>Rule collections\<close>

named_theorems float_eval
  \<open>equations that evaluate binary64 operations on closed arguments\<close>

named_theorems go_eval
  \<open>equations that evaluate the modelled Go functions on closed arguments\<close>

section \<open>Go types\<close>

text \<open>
  On every 64-bit platform Go's \<open>int\<close> is \<open>int64\<close>. Signed and unsigned integers of a width are
  the same words; a definition reads a signed one with \<open>sint\<close>. A Go \<open>string\<close> is a byte sequence,
  and so is a HOL \<open>string\<close> (a list of 8-bit characters).
\<close>

type_synonym go_int = "64 word"
type_synonym int64 = "64 word"
type_synonym int32 = "32 word"
type_synonym uint64 = "64 word"

text \<open>\<open>int32(x)\<close> and \<open>int(y)\<close>: Go truncates on narrowing and sign-extends on widening.\<close>

definition to_int32 :: "go_int \<Rightarrow> int32" where
  "to_int32 x = ucast x"

definition of_int32 :: "int32 \<Rightarrow> go_int" where
  "of_int32 y = scast y"

lemma of_int32_sint: "sint (of_int32 y) = sint y"
  using sint_range_size [of y]
  by (simp add: of_int32_def signed_scast_eq signed_take_bit_int_eq_self word_size)

lemma of_int32_to_int32:
  assumes "- (2 ^ 31) \<le> sint x" and "sint x < 2 ^ 31"
  shows "of_int32 (to_int32 x) = x"
proof (rule signed_word_eqI)
  have "sint (to_int32 x) = signed_take_bit 31 (sint x)"
    by (simp add: to_int32_def signed_ucast_eq) (simp add: sint_uint)
  also have "\<dots> = sint x"
    using assms by (simp add: signed_take_bit_int_eq_self)
  finally show "sint (of_int32 (to_int32 x)) = sint x"
    by (simp add: of_int32_sint)
qed

end
