(* ===== verification/Float64.thy ===== *)
theory Float64
  imports Toll_Prelude
begin

text \<open>
  Go's \<open>float64\<close>: IEEE 754 binary64 with round-to-nearest, ties-to-even. A value is its bit pattern,
  so every value of the type is a value of the language. The operations the services use
  (\<open>+\<close>, \<open>-\<close>, \<open>*\<close>, \<open>/\<close>, \<open>math.Sqrt\<close>, \<open>math.Pow(x, 2)\<close>, comparisons, conversions) are executable: each
  computes the exact result as an integer times a power of two and rounds it once.
  The lemmas show that this rounding is the nearest one (\<open>round_mag_nearest\<close>), that it is monotone
  and exact on representable values, and what that gives for the operations: sign, order,
  commutativity, exactness, absence of NaN.
\<close>

section \<open>Magnitudes and rounding\<close>

text \<open>
  The low 63 bits of a binary64 value are its magnitude. Reading them as a number \<open>n\<close>, the value is
  \<open>sig_of n * 2 powi exp_of n\<close>, the order of magnitudes is the order of values, and \<open>inf_mag\<close> is
  the pattern of infinity.
\<close>

definition inf_mag :: nat where
  "inf_mag = 2047 * 2 ^ 52"

definition sig_of :: "nat \<Rightarrow> nat" where
  "sig_of n = (if n < 2 ^ 52 then n else 2 ^ 52 + n mod 2 ^ 52)"

definition exp_of :: "nat \<Rightarrow> int" where
  "exp_of n = (if n < 2 ^ 52 then - 1074 else int (n div 2 ^ 52) - 1075)"

definition mval :: "nat \<Rightarrow> real" where
  "mval n = real (sig_of n) * 2 powi exp_of n"

fun nbits :: "nat \<Rightarrow> nat" where
  "nbits n = (if n = 0 then 0 else Suc (nbits (n div 2)))"

declare nbits.simps [simp del]

text \<open>Division rounded to the nearest integer, ties to the even one.\<close>

definition rdiv :: "nat \<Rightarrow> nat \<Rightarrow> nat" where
  "rdiv m d = (let q = m div d; r = m mod d in
     if d < 2 * r \<or> (2 * r = d \<and> odd q) then Suc q else q)"

text \<open>
  \<open>round_mag m e\<close> rounds the exact value \<open>m * 2 powi e\<close>: \<open>round_shift\<close> is the number of low bits to
  drop so that 53 bits are left, or that the exponent is the least one, \<open>round_sig\<close> the rounded
  significand. A carry out of the significand increments the exponent field by itself, and a value
  past the largest finite one becomes infinity.
\<close>

definition round_shift :: "nat \<Rightarrow> int \<Rightarrow> int" where
  "round_shift m e = max (int (nbits m) - 53) (- 1074 - e)"

definition round_sig :: "nat \<Rightarrow> int \<Rightarrow> nat" where
  "round_sig m e = (let k = round_shift m e in rdiv (m * 2 ^ nat (- k)) (2 ^ nat k))"

definition round_mag :: "nat \<Rightarrow> int \<Rightarrow> nat" where
  "round_mag m e =
     (if m = 0 then 0
      else min inf_mag (nat (e + round_shift m e + 1074) * 2 ^ 52 + round_sig m e))"

text \<open>Evaluation unfolds a recursion on numerals only, so that it ends under binders too.\<close>

lemma nbits_eval [float_eval]:
  "nbits 0 = 0" "nbits 1 = 1" "nbits (Suc 0) = 1"
  "nbits (numeral w) = Suc (nbits (numeral w div 2))"
  by (subst nbits.simps; simp add: nbits.simps [of 0])+

lemmas round_eval [float_eval] =
  inf_mag_def sig_of_def exp_of_def rdiv_def round_shift_def round_sig_def
  round_mag_def Let_def

subsection \<open>Bit lengths and rounded division\<close>

lemma nbits_pos: "0 < n \<Longrightarrow> 0 < nbits n"
  by (subst nbits.simps) simp

lemma nbits_bounds: "0 < n \<Longrightarrow> 2 ^ (nbits n - 1) \<le> n \<and> n < 2 ^ nbits n"
proof (induction n rule: nbits.induct)
  case (1 n)
  show ?case
  proof (cases "n div 2 = 0")
    case True
    with 1 show ?thesis by (simp add: nbits.simps [of n] nbits.simps [of 0])
  next
    case False
    with 1 have *: "2 ^ (nbits (n div 2) - 1) \<le> n div 2" "n div 2 < 2 ^ nbits (n div 2)" by auto
    obtain k where k: "nbits (n div 2) = Suc k"
      using False nbits_pos [of "n div 2"] gr0_conv_Suc by auto
    from 1(2) have "nbits n = Suc (Suc k)" by (simp add: nbits.simps [of n] k)
    moreover from * k have "2 * 2 ^ k \<le> n" and "n < 4 * 2 ^ k"
      by (simp_all add: less_eq_div_iff_mult_less_eq div_less_iff_less_mult)
    ultimately show ?thesis by simp
  qed
qed

lemma rdiv_lower: "0 < d \<Longrightarrow> j * d \<le> m \<Longrightarrow> j \<le> rdiv m d"
  by (auto simp: rdiv_def Let_def less_eq_div_iff_mult_less_eq le_Suc_eq)

lemma rdiv_upper: assumes "0 < d" "m \<le> j * d" shows "rdiv m d \<le> j"
proof (cases "m = j * d")
  case True
  then show ?thesis using assms by (simp add: rdiv_def Let_def)
next
  case False
  with assms have "m div d < j" by (simp add: div_less_iff_less_mult)
  then show ?thesis by (simp add: rdiv_def Let_def)
qed

lemma rdiv_half: assumes "0 < d" shows "\<bar>real (rdiv m d) - real m / real d\<bar> \<le> 1 / 2"
proof -
  have "real m = real (m div d * d + m mod d)" by (simp only: div_mult_mod_eq)
  then have "real m = real (m div d) * real d + real (m mod d)"
    by (simp only: of_nat_add of_nat_mult)
  then have m: "real m / real d = real (m div d) + real (m mod d) / real d"
    using assms by (simp only: add_divide_distrib) simp
  have r: "real (m mod d) < real d" using assms by simp
  show ?thesis
  proof (cases "d < 2 * (m mod d) \<or> (2 * (m mod d) = d \<and> odd (m div d))")
    case True
    then have "rdiv m d = Suc (m div d)" by (simp add: rdiv_def Let_def)
    moreover from True have "real d \<le> 2 * real (m mod d)" by linarith
    ultimately show ?thesis using assms m r by (simp add: field_simps abs_le_iff)
  next
    case False
    then have "rdiv m d = m div d" by (simp add: rdiv_def Let_def)
    moreover from False have "2 * real (m mod d) \<le> real d" by linarith
    ultimately show ?thesis using assms m by (simp add: field_simps)
  qed
qed

lemma rdiv_mono: assumes "0 < d" "0 < d'" "a * d' \<le> b * d" shows "rdiv a d \<le> rdiv b d'"
proof -
  define q q' r r' where "q = a div d" and "q' = b div d'" and "r = a mod d" and "r' = b mod d'"
  have a: "a = q * d + r" and b: "b = q' * d' + r'" and r: "r < d" and r': "r' < d'"
    using assms by (simp_all add: q_def q'_def r_def r'_def)
  have "(q * d') * d \<le> a * d'" by (simp add: a algebra_simps)
  with assms(3) have "(q * d') * d \<le> b * d" by (rule order_trans [rotated])
  then have "q * d' \<le> b" using assms(1) by (simp only: mult_le_cancel2)
  then have qq: "q \<le> q'" using assms(2) by (simp add: q'_def less_eq_div_iff_mult_less_eq)
  have up: "d' < 2 * r' \<or> (2 * r' = d' \<and> odd q')"
    if eq: "q = q'" and u: "d < 2 * r \<or> (2 * r = d \<and> odd q)"
  proof -
    from assms(3) eq have rr: "r * d' \<le> r' * d" by (simp add: a b algebra_simps)
    consider "d < 2 * r" | "2 * r = d" "odd q" using u by blast
    then show ?thesis
    proof cases
      case 1
      then have "d * d' < 2 * r * d'" using assms(2) by simp
      also have "\<dots> \<le> 2 * r' * d" using rr by simp
      finally show ?thesis by simp
    next
      case 2
      then have "d' * d \<le> 2 * r' * d" using rr by (simp add: mult.commute flip: 2(1))
      then have "d' \<le> 2 * r'" using assms(1) by simp
      with 2 eq show ?thesis by auto
    qed
  qed
  have "rdiv a d \<le> q + 1" "q' \<le> rdiv b d'"
    by (simp_all add: rdiv_def Let_def q_def q'_def)
  moreover have "rdiv a d \<le> rdiv b d'" if "q = q'"
    using up [OF that] that by (auto simp: rdiv_def Let_def q_def q'_def r_def r'_def)
  ultimately show ?thesis using qq by linarith
qed

subsection \<open>The value of a magnitude\<close>

lemma powi_split: "(2::real) powi (a + b) = 2 powi a * 2 powi b"
  by (simp add: power_int_add)

lemma powi_shift: "(2::real) powi (- k) = 2 ^ nat (- k) / 2 ^ nat k"
proof (cases "0 \<le> k")
  case True
  then show ?thesis by (simp add: power_int_minus inverse_eq_divide) (simp add: power_int_def)
next
  case False
  then show ?thesis by (simp add: power_int_def)
qed

lemma real_pow2: "real (2 ^ k) = 2 ^ k"
  by simp

lemma exp_of_ge: "- 1074 \<le> exp_of n"
proof (cases "n < 2 ^ 52")
  case False
  then have "1 \<le> n div 2 ^ 52" by (simp add: less_eq_div_iff_mult_less_eq)
  then show ?thesis by (simp add: exp_of_def)
qed (simp add: exp_of_def)

lemma sig_of_less: "sig_of n < 2 ^ 53"
  by (auto simp: sig_of_def)

lemma sig_of_ge: "- 1074 < exp_of n \<Longrightarrow> 2 ^ 52 \<le> sig_of n"
  by (auto simp: sig_of_def exp_of_def split: if_splits)

lemma mag_decomp: "int n = (exp_of n + 1074) * 2 ^ 52 + int (sig_of n)"
proof -
  have "int n = int (n div 2 ^ 52 * 2 ^ 52 + n mod 2 ^ 52)" by (simp only: div_mult_mod_eq)
  then have *: "int n = int (n div 2 ^ 52) * 2 ^ 52 + int (n mod 2 ^ 52)"
    by (simp only: of_nat_add of_nat_mult of_nat_power of_nat_numeral)
  show ?thesis
  proof (cases "n < 2 ^ 52")
    case True
    then show ?thesis by (simp add: exp_of_def sig_of_def)
  next
    case False
    then have "exp_of n + 1074 = int (n div 2 ^ 52) - 1" "int (sig_of n) = 2 ^ 52 + int (n mod 2 ^ 52)"
      by (simp_all add: exp_of_def sig_of_def)
    with * show ?thesis by (simp only: left_diff_distrib)
  qed
qed

lemma mval_lt: "mval n < 2 ^ 53 * 2 powi exp_of n"
proof -
  have "real (sig_of n) < real (2 ^ 53)" using sig_of_less [of n] by (simp only: of_nat_less_iff)
  then show ?thesis unfolding mval_def real_pow2 by (intro mult_strict_right_mono) auto
qed

lemma mval_ge: assumes "- 1074 < exp_of n" shows "2 ^ 52 * 2 powi exp_of n \<le> mval n"
proof -
  have "real (2 ^ 52) \<le> real (sig_of n)" using sig_of_ge [OF assms] by (simp only: of_nat_le_iff)
  then show ?thesis unfolding mval_def real_pow2 by (intro mult_right_mono) auto
qed

lemma pow_step: assumes "a < b" shows "2 ^ 53 * 2 powi a \<le> (2::real) ^ 52 * 2 powi b"
proof -
  have "(2::real) * 2 powi a = 2 powi (a + 1)" by (simp add: powi_split)
  also have "\<dots> \<le> 2 powi b" using assms by (intro power_int_increasing) auto
  finally show ?thesis by simp
qed

lemma exp_of_mono: "n \<le> n' \<Longrightarrow> exp_of n \<le> exp_of n'"
  using exp_of_ge [of n'] by (auto simp: exp_of_def div_le_mono split: if_splits)

lemma mval_strict_mono: assumes "n < n'" shows "mval n < mval n'"
proof (cases "exp_of n = exp_of n'")
  case True
  then have "(exp_of n + 1074) * 2 ^ 52 = (exp_of n' + 1074) * 2 ^ 52" by simp
  with mag_decomp [of n] mag_decomp [of n'] assms have "sig_of n < sig_of n'" by linarith
  with True show ?thesis by (simp add: mval_def)
next
  case False
  with exp_of_mono [of n n'] assms have less: "exp_of n < exp_of n'" by simp
  with exp_of_ge [of n] have "- 1074 < exp_of n'" by simp
  from mval_lt [of n] pow_step [OF less] mval_ge [OF this] show ?thesis by linarith
qed

lemma mval_less_iff: "mval n < mval n' \<longleftrightarrow> n < n'"
  by (metis linorder_neq_iff mval_strict_mono order_less_asym)

lemma mval_le_iff: "mval n \<le> mval n' \<longleftrightarrow> n \<le> n'"
  by (simp add: mval_less_iff flip: not_less)

lemma mval_eq_iff: "mval n = mval n' \<longleftrightarrow> n = n'"
  by (metis mval_le_iff order_antisym order_refl)

lemma mval_nonneg: "0 \<le> mval n"
  by (simp add: mval_def)

lemma mval_0 [simp]: "mval 0 = 0"
  by (simp add: mval_def sig_of_def)

text \<open>Every significand of at most 53 bits, at an exponent that fits it, is a magnitude.\<close>

lemma mval_compose:
  assumes "- 1074 \<le> e" "q \<le> 2 ^ 53" "2 ^ 52 \<le> q \<or> e = - 1074"
    and n: "int n = (e + 1074) * 2 ^ 52 + int q"
  shows "mval n = real q * 2 powi e"
proof -
  obtain E where e: "e = int E - 1074" using assms(1) by (metis add_diff_cancel_right' diff_ge_0_iff_ge diff_minus_eq_add nonneg_int_cases)
  have "int n = int (E * 2 ^ 52 + q)" using n by (simp add: e)
  then have nE: "n = E * 2 ^ 52 + q" by (simp only: of_nat_eq_iff)
  consider "q < 2 ^ 52" | "2 ^ 52 \<le> q" "q < 2 ^ 53" | "q = 2 ^ 53" using assms(2) by linarith
  then show ?thesis
  proof cases
    case 1
    with assms(3) nE e have "e = - 1074" "n = q" by auto
    with 1 show ?thesis by (simp add: mval_def sig_of_def exp_of_def)
  next
    case 2
    define r where "r = q - 2 ^ 52"
    from 2 have r: "q = 2 ^ 52 + r" "r < 2 ^ 52" by (simp_all add: r_def)
    then have "n = r + Suc E * 2 ^ 52" using nE by simp
    with r have "n div 2 ^ 52 = Suc E" "n mod 2 ^ 52 = r" "2 ^ 52 \<le> n"
      by (simp_all only: div_mult_self3 mod_mult_self3 mod_mult_self1 div_mult_self1 div_less mod_less) simp_all
    with r show ?thesis by (simp add: mval_def sig_of_def exp_of_def e)
  next
    case 3
    with nE have "n = (E + 2) * 2 ^ 52" by simp
    then have "n div 2 ^ 52 = E + 2" "n mod 2 ^ 52 = 0" "2 ^ 52 \<le> n" by simp_all
    then have "mval n = 2 ^ 52 * 2 powi (e + 1)" by (simp add: mval_def sig_of_def exp_of_def e)
    with 3 show ?thesis by (simp add: powi_split)
  qed
qed

subsection \<open>Rounding is monotone, exact and nearest\<close>

lemma round_sig_lower:
  assumes "real j \<le> real m * 2 powi (- round_shift m e)" shows "j \<le> round_sig m e"
proof -
  define a b where "a = nat (- round_shift m e)" and "b = nat (round_shift m e)"
  have "real j * 2 ^ b \<le> real m * 2 ^ a"
    using assms unfolding powi_shift a_def b_def by (simp add: field_simps)
  then have "real (j * 2 ^ b) \<le> real (m * 2 ^ a)" by simp
  then have "j * 2 ^ b \<le> m * 2 ^ a" by (simp only: of_nat_le_iff)
  then show ?thesis by (simp add: round_sig_def Let_def rdiv_lower a_def b_def)
qed

lemma round_sig_upper:
  assumes "real m * 2 powi (- round_shift m e) \<le> real j" shows "round_sig m e \<le> j"
proof -
  define a b where "a = nat (- round_shift m e)" and "b = nat (round_shift m e)"
  have "real m * 2 ^ a \<le> real j * 2 ^ b"
    using assms unfolding powi_shift a_def b_def by (simp add: field_simps)
  then have "real (m * 2 ^ a) \<le> real (j * 2 ^ b)" by simp
  then have "m * 2 ^ a \<le> j * 2 ^ b" by (simp only: of_nat_le_iff)
  then show ?thesis by (simp add: round_sig_def Let_def rdiv_upper a_def b_def)
qed

lemma round_sig_half: "\<bar>real (round_sig m e) - real m * 2 powi (- round_shift m e)\<bar> \<le> 1 / 2"
  using rdiv_half [of "2 ^ nat (round_shift m e)" "m * 2 ^ nat (- round_shift m e)"]
  by (simp add: round_sig_def Let_def powi_shift)

lemma round_sig_mono:
  assumes "real m * 2 powi (- round_shift m e) \<le> real m' * 2 powi (- round_shift m' e')"
  shows "round_sig m e \<le> round_sig m' e'"
proof -
  define a b where "a = nat (- round_shift m e)" and "b = nat (round_shift m e)"
  define a' b' where "a' = nat (- round_shift m' e')" and "b' = nat (round_shift m' e')"
  have "real m * 2 ^ a * 2 ^ b' \<le> real m' * 2 ^ a' * 2 ^ b"
    using assms unfolding powi_shift a_def b_def a'_def b'_def by (simp add: field_simps)
  then have "real (m * 2 ^ a * 2 ^ b') \<le> real (m' * 2 ^ a' * 2 ^ b)" by simp
  then have "m * 2 ^ a * 2 ^ b' \<le> m' * 2 ^ a' * 2 ^ b" by (simp only: of_nat_le_iff)
  then show ?thesis
    unfolding round_sig_def Let_def a_def b_def a'_def b'_def by (intro rdiv_mono) auto
qed

lemma scaled_less: assumes "0 < m" shows "real m * 2 powi (- round_shift m e) < 2 ^ 53"
proof -
  have "real m < real (2 ^ nbits m)" using nbits_bounds [OF assms] by (simp only: of_nat_less_iff)
  also have "\<dots> = 2 powi int (nbits m)" by simp
  also have "\<dots> \<le> 2 powi (53 + round_shift m e)"
    by (rule power_int_increasing) (auto simp: round_shift_def)
  also have "\<dots> = 2 ^ 53 * 2 powi round_shift m e" by (simp add: powi_split)
  finally show ?thesis by (simp add: power_int_minus field_simps)
qed

lemma scaled_ge:
  assumes "0 < m" "- 1074 < e + round_shift m e"
  shows "2 ^ 52 \<le> real m * 2 powi (- round_shift m e)"
proof -
  have k: "round_shift m e = int (nbits m) - 53"
    using assms(2) by (auto simp: round_shift_def max_def split: if_splits)
  have "2 ^ 52 * 2 powi round_shift m e = (2::real) powi (52 + round_shift m e)"
    by (simp add: powi_split)
  also have "52 + round_shift m e = int (nbits m - 1)" using k nbits_pos [OF assms(1)] by simp
  also have "2 powi int (nbits m - 1) = real (2 ^ (nbits m - 1))" by simp
  also have "\<dots> \<le> real m" using nbits_bounds [OF assms(1)] by (simp only: of_nat_le_iff)
  finally show ?thesis by (simp add: power_int_minus field_simps)
qed

lemma round_exp_ge: "- 1074 \<le> e + round_shift m e"
  by (simp add: round_shift_def)

lemma round_sig_le: "0 < m \<Longrightarrow> round_sig m e \<le> 2 ^ 53"
  by (rule round_sig_upper) (use scaled_less [of m e] in simp)

lemma round_sig_ge: "0 < m \<Longrightarrow> - 1074 < e + round_shift m e \<Longrightarrow> 2 ^ 52 \<le> round_sig m e"
  by (rule round_sig_lower) (use scaled_ge [of m e] in simp)

lemma dyadic_scale: "real m * 2 powi e = real m * 2 powi (- k) * 2 powi (e + k)"
  by (simp add: powi_split power_int_minus field_simps)

text \<open>The rounded magnitude before a value past the largest finite one is turned into infinity.\<close>

definition round_raw :: "nat \<Rightarrow> int \<Rightarrow> nat" where
  "round_raw m e = nat (e + round_shift m e + 1074) * 2 ^ 52 + round_sig m e"

lemma int_round_raw:
  "int (round_raw m e) = (e + round_shift m e + 1074) * 2 ^ 52 + int (round_sig m e)"
  using round_exp_ge [of e m] by (simp add: round_raw_def)

lemma round_mag_raw: "0 < m \<Longrightarrow> round_mag m e = min inf_mag (round_raw m e)"
  by (simp add: round_mag_def round_raw_def)

lemma mval_round_raw:
  assumes "0 < m"
  shows "mval (round_raw m e) = real (round_sig m e) * 2 powi (e + round_shift m e)"
proof (rule mval_compose)
  show "2 ^ 52 \<le> round_sig m e \<or> e + round_shift m e = - 1074"
    using round_sig_ge [OF assms] round_exp_ge [of e m] by force
qed (use assms in \<open>simp_all only: round_exp_ge round_sig_le int_round_raw\<close>)

lemma round_mag_le_inf: "round_mag m e \<le> inf_mag"
  by (simp add: round_mag_def)

lemma round_mag_0 [simp]: "round_mag 0 e = 0"
  by (simp add: round_mag_def)

text \<open>
  In the following, \<open>real m * 2 powi e\<close> is the exact value being rounded and
  \<open>2 powi (e + round_shift m e)\<close> the distance between the magnitudes around it.
\<close>

lemma round_raw_half:
  assumes "0 < m"
  shows "\<bar>mval (round_raw m e) - real m * 2 powi e\<bar> \<le> 2 powi (e + round_shift m e) / 2"
proof -
  let ?u = "2 powi (e + round_shift m e) :: real"
  let ?d = "real (round_sig m e) - real m * 2 powi (- round_shift m e)"
  have "mval (round_raw m e) - real m * 2 powi e = ?d * ?u"
    unfolding mval_round_raw [OF assms] left_diff_distrib
    by (simp only: dyadic_scale [of m e "round_shift m e"])
  then have "\<bar>mval (round_raw m e) - real m * 2 powi e\<bar> = \<bar>?d\<bar> * ?u"
    by (simp add: abs_mult)
  also have "\<dots> \<le> 1 / 2 * ?u"
    using round_sig_half [of m e] by (intro mult_right_mono) auto
  finally show ?thesis by simp
qed

lemma round_raw_Suc:
  assumes "0 < m" "round_sig m e < 2 ^ 53"
  shows "mval (Suc (round_raw m e)) = mval (round_raw m e) + 2 powi (e + round_shift m e)"
proof -
  have "mval (Suc (round_raw m e)) = real (Suc (round_sig m e)) * 2 powi (e + round_shift m e)"
  proof (rule mval_compose)
    show "2 ^ 52 \<le> Suc (round_sig m e) \<or> e + round_shift m e = - 1074"
      using round_sig_ge [OF assms(1), of e] round_exp_ge [of e m] by force
  qed (use assms int_round_raw [of m e] in \<open>simp_all add: round_exp_ge\<close>)
  then show ?thesis by (simp add: mval_round_raw [OF assms(1)] algebra_simps)
qed

lemma round_raw_pred:
  assumes "0 < m" "0 < round_sig m e" "2 ^ 52 < round_sig m e \<or> e + round_shift m e = - 1074"
  shows "mval (round_raw m e - 1) = mval (round_raw m e) - 2 powi (e + round_shift m e)"
proof -
  have "mval (round_raw m e - 1) = real (round_sig m e - 1) * 2 powi (e + round_shift m e)"
  proof (rule mval_compose)
    show "round_sig m e - 1 \<le> 2 ^ 53" using round_sig_le [OF assms(1), of e] by simp
    have "1 \<le> round_raw m e" using assms(2) by (simp add: round_raw_def)
    then show "int (round_raw m e - 1) =
        (e + round_shift m e + 1074) * 2 ^ 52 + int (round_sig m e - 1)"
      using int_round_raw [of m e] assms(2) by simp
  qed (use assms in \<open>auto simp: round_exp_ge\<close>)
  then show ?thesis
    using assms(2) by (simp add: mval_round_raw [OF assms(1)] algebra_simps)
qed

lemma round_raw_above: assumes "0 < m" shows "real m * 2 powi e < mval (Suc (round_raw m e))"
proof (cases "round_sig m e < 2 ^ 53")
  case True
  have "(0::real) < 2 powi (e + round_shift m e)" by simp
  with round_raw_Suc [OF assms True] round_raw_half [OF assms, of e] show ?thesis by linarith
next
  case False
  with round_sig_le [OF assms, of e] have "round_sig m e = 2 ^ 53" by simp
  then have "mval (round_raw m e) = 2 ^ 53 * 2 powi (e + round_shift m e)"
    by (simp add: mval_round_raw [OF assms])
  moreover have "real m * 2 powi e < 2 ^ 53 * 2 powi (e + round_shift m e)"
    unfolding dyadic_scale [of m e "round_shift m e"]
    using scaled_less [OF assms, of e] by (intro mult_strict_right_mono) auto
  moreover have "mval (round_raw m e) < mval (Suc (round_raw m e))" by (simp add: mval_less_iff)
  ultimately show ?thesis by linarith
qed

lemma round_raw_normal_ge:
  assumes "0 < m" "- 1074 < e + round_shift m e"
  shows "2 ^ 52 * 2 powi (e + round_shift m e) \<le> real m * 2 powi e"
  unfolding dyadic_scale [of m e "round_shift m e"]
  using scaled_ge [OF assms] by (intro mult_right_mono) auto

lemma round_raw_below:
  assumes "0 < m" "0 < round_raw m e" shows "mval (round_raw m e - 1) < real m * 2 powi e"
proof (cases "2 ^ 52 < round_sig m e \<or> e + round_shift m e = - 1074")
  case True
  have "0 < round_sig m e" using True assms(2) by (auto simp: round_raw_def)
  from round_raw_pred [OF assms(1) this True] round_raw_half [OF assms(1), of e]
  show ?thesis using zero_less_power_int [of "2::real" "e + round_shift m e"] by linarith
next
  case False
  with round_exp_ge [of e m] have e: "- 1074 < e + round_shift m e" by force
  with False round_sig_ge [OF assms(1) e] have "round_sig m e = 2 ^ 52" by simp
  then have "mval (round_raw m e) \<le> real m * 2 powi e"
    using round_raw_normal_ge [OF assms(1) e] by (simp add: mval_round_raw [OF assms(1)])
  moreover have "mval (round_raw m e - 1) < mval (round_raw m e)"
    using assms(2) by (simp add: mval_less_iff)
  ultimately show ?thesis by linarith
qed

lemma round_mag_lower:
  assumes "mval n \<le> real m * 2 powi e" "n \<le> inf_mag" shows "n \<le> round_mag m e"
proof (cases "m = 0")
  case True
  with assms(1) have "mval n \<le> mval 0" by simp
  then show ?thesis by (simp only: mval_le_iff)
next
  case False
  then have "mval n < mval (Suc (round_raw m e))"
    using assms(1) round_raw_above [of m e] by simp
  with False assms(2) show ?thesis by (simp add: mval_less_iff round_mag_raw)
qed

lemma round_mag_upper: assumes "real m * 2 powi e \<le> mval n" shows "round_mag m e \<le> n"
proof (cases "m = 0 \<or> round_raw m e = 0")
  case True
  then show ?thesis by (cases "m = 0") (simp_all add: round_mag_raw)
next
  case False
  then have "mval (round_raw m e - 1) < mval n"
    using assms round_raw_below [of m e] by simp
  with False have "round_raw m e \<le> n" by (simp add: mval_less_iff)
  with False show ?thesis by (simp add: round_mag_raw min.coboundedI2)
qed

lemma round_mag_exact: "real m * 2 powi e = mval n \<Longrightarrow> n \<le> inf_mag \<Longrightarrow> round_mag m e = n"
  by (intro order_antisym round_mag_lower round_mag_upper) auto

lemma round_mag_mono:
  assumes "real m * 2 powi e \<le> real m' * 2 powi e'" shows "round_mag m e \<le> round_mag m' e'"
proof (cases "m = 0")
  case False
  then have m: "0 < m" by simp
  then have "0 < real m * 2 powi e" by simp
  with assms have "0 < real m' * 2 powi e'" by linarith
  then have m': "0 < m'" by (simp add: zero_less_mult_iff)
  define k k' where "k = round_shift m e" and "k' = round_shift m' e'"
  have ge: "- 1074 \<le> e + k" "- 1074 \<le> e' + k'" by (simp_all add: k_def k'_def round_exp_ge)
  have "int (round_raw m e) \<le> int (round_raw m' e')"
  proof (cases "e + k" "e' + k'" rule: linorder_cases)
    case less
    then have "2 ^ 52 \<le> round_sig m' e'"
      using round_sig_ge [OF m', of e'] ge by (simp add: k'_def)
    with less round_sig_le [OF m, of e] show ?thesis by (simp add: int_round_raw k_def k'_def)
  next
    case equal
    have "real m * 2 powi (- k) * 2 powi (e + k) \<le> real m' * 2 powi (- k') * 2 powi (e' + k')"
      using assms by (simp only: dyadic_scale [of m e k] dyadic_scale [of m' e' k'])
    with equal have "real m * 2 powi (- k) \<le> real m' * 2 powi (- k')" by simp
    then have "round_sig m e \<le> round_sig m' e'"
      unfolding k_def k'_def by (rule round_sig_mono)
    with equal show ?thesis by (simp add: int_round_raw k_def k'_def)
  next
    case greater
    with ge have "2 ^ 52 * 2 powi (e + k) \<le> real m * 2 powi e"
      using round_raw_normal_ge [OF m, of e] by (simp add: k_def)
    moreover have "real m' * 2 powi e' < 2 ^ 53 * 2 powi (e' + k')"
      unfolding dyadic_scale [of m' e' k']
      using scaled_less [OF m', of e'] by (intro mult_strict_right_mono) (auto simp: k'_def)
    ultimately show ?thesis using pow_step [OF greater] assms by linarith
  qed
  then show ?thesis using m m' by (simp add: round_mag_raw min.coboundedI2)
qed simp

text \<open>No magnitude is nearer to the exact value than the rounded one.\<close>

lemma round_mag_nearest:
  assumes "round_mag m e < inf_mag"
  shows "\<bar>mval (round_mag m e) - real m * 2 powi e\<bar> \<le> \<bar>mval n - real m * 2 powi e\<bar>"
proof (cases "m = 0")
  case False
  then have m: "0 < m" by simp
  let ?R = "round_raw m e" and ?X = "real m * 2 powi e" and ?u = "2 powi (e + round_shift m e) :: real"
  have R: "round_mag m e = ?R" using assms m by (simp add: round_mag_raw)
  note half = round_raw_half [OF m, of e]
  consider "mval ?R \<le> ?X" "n \<le> ?R" | "mval ?R \<le> ?X" "Suc ?R \<le> n"
    | "?X < mval ?R" "?R \<le> n" | "?X < mval ?R" "n \<le> ?R - 1" "0 < ?R" by linarith
  then have "\<bar>mval ?R - ?X\<bar> \<le> \<bar>mval n - ?X\<bar>"
  proof cases
    case 1
    then show ?thesis using mval_le_iff [of n ?R] by simp
  next
    case 2
    have "real (round_sig m e) * ?u < 2 ^ 53 * ?u"
      using 2(1) scaled_less [OF m, of e] dyadic_scale [of m e "round_shift m e"]
      by (simp add: mval_round_raw [OF m])
    then have "round_sig m e < 2 ^ 53" by simp
    from round_raw_Suc [OF m this] 2 half show ?thesis using mval_le_iff [of "Suc ?R" n] by simp
  next
    case 3
    then show ?thesis using mval_le_iff [of ?R n] by simp
  next
    case 4
    have "2 ^ 52 < round_sig m e \<or> e + round_shift m e = - 1074"
    proof (rule ccontr)
      assume "\<not> ?thesis"
      with round_exp_ge [of e m] have e: "- 1074 < e + round_shift m e" "round_sig m e \<le> 2 ^ 52"
        by force+
      then have "mval ?R \<le> 2 ^ 52 * ?u"
        unfolding mval_round_raw [OF m] by (intro mult_right_mono) (simp_all flip: real_pow2)
      with round_raw_normal_ge [OF m e(1)] 4(1) show False by linarith
    qed
    moreover have "0 < round_sig m e" using calculation 4(3) by (auto simp: round_raw_def)
    ultimately have "mval (?R - 1) = mval ?R - ?u" by (intro round_raw_pred m)
    with 4 half show ?thesis using mval_le_iff [of n "?R - 1"] by simp
  qed
  then show ?thesis by (simp add: R)
qed (simp add: mval_nonneg)

section \<open>The type and its operations\<close>

datatype float64 = F64 (bits: "64 word")

definition neg :: "float64 \<Rightarrow> bool" where
  "neg x \<longleftrightarrow> 2 ^ 63 \<le> unat (bits x)"

definition mag :: "float64 \<Rightarrow> nat" where
  "mag x = unat (bits x) mod 2 ^ 63"

definition mkf :: "bool \<Rightarrow> nat \<Rightarrow> float64" where
  "mkf s n = F64 (word_of_nat ((if s then 2 ^ 63 else 0) + n))"

definition isNaN :: "float64 \<Rightarrow> bool" where
  "isNaN x \<longleftrightarrow> inf_mag < mag x"

definition isInf :: "float64 \<Rightarrow> bool" where
  "isInf x \<longleftrightarrow> mag x = inf_mag"

definition isFinite :: "float64 \<Rightarrow> bool" where
  "isFinite x \<longleftrightarrow> mag x < inf_mag"

definition fzero :: float64 where
  "fzero = F64 0"

definition NaN :: float64 where
  "NaN = F64 0x7FF8000000000001"

definition Inf :: float64 where
  "Inf = F64 0x7FF0000000000000"

definition fneg :: "float64 \<Rightarrow> float64" where
  "fneg x = mkf (\<not> neg x) (mag x)"

text \<open>
  Comparisons: bit patterns of one sign are ordered as their magnitudes, both zeros are equal, and
  every comparison with a NaN is false.
\<close>

definition fkey :: "float64 \<Rightarrow> int" where
  "fkey x = (if neg x then - int (mag x) else int (mag x))"

definition flt :: "float64 \<Rightarrow> float64 \<Rightarrow> bool" where
  "flt x y \<longleftrightarrow> \<not> isNaN x \<and> \<not> isNaN y \<and> fkey x < fkey y"

definition fle :: "float64 \<Rightarrow> float64 \<Rightarrow> bool" where
  "fle x y \<longleftrightarrow> \<not> isNaN x \<and> \<not> isNaN y \<and> fkey x \<le> fkey y"

definition feq :: "float64 \<Rightarrow> float64 \<Rightarrow> bool" where
  "feq x y \<longleftrightarrow> \<not> isNaN x \<and> \<not> isNaN y \<and> fkey x = fkey y"

text \<open>The signed significand of a finite value at an exponent no greater than its own.\<close>

definition sig_at :: "int \<Rightarrow> float64 \<Rightarrow> int" where
  "sig_at e x =
     (let s = int (sig_of (mag x)) * 2 ^ nat (exp_of (mag x) - e) in if neg x then - s else s)"

definition fadd :: "float64 \<Rightarrow> float64 \<Rightarrow> float64" where
  "fadd x y =
     (if isNaN x \<or> isNaN y then NaN
      else if isInf x then (if isInf y \<and> neg x \<noteq> neg y then NaN else x)
      else if isInf y then y
      else let e = min (exp_of (mag x)) (exp_of (mag y)); s = sig_at e x + sig_at e y
           in if s = 0 then mkf (neg x \<and> neg y) 0
              else mkf (s < 0) (round_mag (nat \<bar>s\<bar>) e))"

definition fsub :: "float64 \<Rightarrow> float64 \<Rightarrow> float64" where
  "fsub x y = fadd x (fneg y)"

definition fmul :: "float64 \<Rightarrow> float64 \<Rightarrow> float64" where
  "fmul x y =
     (let s = (neg x \<noteq> neg y)
      in if isNaN x \<or> isNaN y then NaN
         else if isInf x \<or> isInf y
         then (if mag x = 0 \<or> mag y = 0 then NaN else mkf s inf_mag)
         else mkf s (round_mag (sig_of (mag x) * sig_of (mag y)) (exp_of (mag x) + exp_of (mag y))))"

text \<open>
  A quotient and a square root are in general not dyadic. Both compute at least 55 leading bits and
  append one bit that says whether anything was cut off, which rounds as the exact value does.
\<close>

definition sticky :: "nat \<Rightarrow> bool \<Rightarrow> nat" where
  "sticky q b = 2 * q + (if b then 1 else 0)"

definition round_quot :: "nat \<Rightarrow> nat \<Rightarrow> int \<Rightarrow> nat" where
  "round_quot a b e =
     (let k = 55 + nbits b; p = a * 2 ^ k
      in round_mag (sticky (p div b) (p mod b \<noteq> 0)) (e - int k - 1))"

definition fdiv :: "float64 \<Rightarrow> float64 \<Rightarrow> float64" where
  "fdiv x y =
     (let s = (neg x \<noteq> neg y)
      in if isNaN x \<or> isNaN y then NaN
         else if isInf x then (if isInf y then NaN else mkf s inf_mag)
         else if isInf y then mkf s 0
         else if mag y = 0 then (if mag x = 0 then NaN else mkf s inf_mag)
         else mkf s (round_quot (sig_of (mag x)) (sig_of (mag y)) (exp_of (mag x) - exp_of (mag y))))"

fun isqrt :: "nat \<Rightarrow> nat" where
  "isqrt n = (if n = 0 then 0
     else let r = 2 * isqrt (n div 4) in if (r + 1) * (r + 1) \<le> n then r + 1 else r)"

declare isqrt.simps [simp del]

definition fsqrt :: "float64 \<Rightarrow> float64" where
  "fsqrt x =
     (if isNaN x then NaN
      else if mag x = 0 then x
      else if neg x then NaN
      else if isInf x then x
      else let m = sig_of (mag x); e = exp_of (mag x);
               m' = (if even e then m else 2 * m); e' = (if even e then e else e - 1);
               n = m' * 2 ^ 108; r = isqrt n
           in mkf False (round_mag (sticky r (r * r \<noteq> n)) (e' div 2 - 55)))"

text \<open>
  \<open>math.Pow(x, 2)\<close>: Go squares the normalised fraction, which rounds to 53 bits whatever the
  exponent, and then scales the result with \<open>Ldexp\<close>, which rounds again where it is subnormal.
\<close>

definition fpow2 :: "float64 \<Rightarrow> float64" where
  "fpow2 x =
     (if isNaN x then NaN
      else if mag x = 0 then fzero
      else if isInf x then Inf
      else let p = sig_of (mag x) * sig_of (mag x); k = nbits p - 53
           in mkf False (round_mag (rdiv p (2 ^ k) * 2 ^ k) (2 * exp_of (mag x))))"

text \<open>\<open>float64(i)\<close> for a signed and for an unsigned integer.\<close>

definition float_of_int :: "int \<Rightarrow> float64" where
  "float_of_int i = mkf (i < 0) (round_mag (nat \<bar>i\<bar>) 0)"

definition fl :: "float64 \<Rightarrow> real" where
  "fl x = (if neg x then - mval (mag x) else mval (mag x))"

lemmas float_op_eval [float_eval] =
  neg_def mag_def mkf_def isNaN_def isInf_def isFinite_def fzero_def NaN_def Inf_def fneg_def
  fkey_def flt_def fle_def feq_def sig_at_def fsub_def fmul_def sticky_def round_quot_def fdiv_def
  fsqrt_def fpow2_def float_of_int_def

lemma isqrt_eval [float_eval]:
  "isqrt 0 = 0" "isqrt 1 = 1" "isqrt (Suc 0) = 1"
  "isqrt (numeral w) = (let r = 2 * isqrt (numeral w div 4)
     in if (r + 1) * (r + 1) \<le> numeral w then r + 1 else r)"
  by (subst isqrt.simps; simp add: isqrt.simps [of 0] Let_def)+

subsection \<open>Signs, magnitudes and classes\<close>

lemma inf_mag_less: "inf_mag < 2 ^ 63"
  by (simp add: inf_mag_def)

lemmas inf_mag_less_numeral [simp] = inf_mag_less [simplified]

lemma inf_mag_pos: "0 < inf_mag"
  by (simp add: inf_mag_def)

lemma mag_less: "mag x < 2 ^ 63"
  by (simp add: mag_def)

lemmas mag_less_numeral [simp] = mag_less [simplified]

lemma unat_mkf: "n < 2 ^ 63 \<Longrightarrow> unat (bits (mkf s n)) = (if s then 2 ^ 63 else 0) + n"
  unfolding mkf_def float64.sel unat_of_nat by simp

lemma neg_mkf [simp]: "n < 2 ^ 63 \<Longrightarrow> neg (mkf s n) \<longleftrightarrow> s"
  by (auto simp: neg_def unat_mkf)

lemma mag_mkf [simp]: "n < 2 ^ 63 \<Longrightarrow> mag (mkf s n) = n"
  by (simp add: mag_def unat_mkf)

lemma bits_split: "unat (bits x) = (if neg x then 2 ^ 63 else 0) + mag x"
proof -
  have "unat (bits x) < 2 ^ 64" using unsigned_less [where w = "bits x" and ?'a = nat] by simp
  then show ?thesis by (auto simp: neg_def mag_def mod_if)
qed

lemma float_eqI: "neg x = neg y \<Longrightarrow> mag x = mag y \<Longrightarrow> x = y"
  using bits_split [of x] bits_split [of y] by (intro float64.expand) (simp add: word_unat_eq_iff)

lemma mkf_neg_mag [simp]: "mkf (neg x) (mag x) = x"
  by (rule float_eqI) simp_all

lemma round_mag_less: "round_mag m e < 2 ^ 63"
  using round_mag_le_inf [of m e] inf_mag_less by linarith

lemmas round_mag_less_numeral [simp] = round_mag_less [simplified]

lemma round_mag_not_nan [simp]: "\<not> inf_mag < round_mag m e"
  using round_mag_le_inf [of m e] by simp

lemma neg_fneg [simp]: "neg (fneg x) \<longleftrightarrow> \<not> neg x"
  and mag_fneg [simp]: "mag (fneg x) = mag x"
  by (simp_all add: fneg_def)

lemma isNaN_NaN [simp]: "isNaN NaN"
  and isInf_Inf [simp]: "isInf Inf"
  and mag_fzero [simp]: "mag fzero = 0"
  and neg_fzero [simp]: "\<not> neg fzero"
  by (simp_all add: float_eval)

lemma float_class: "isNaN x \<or> isInf x \<or> isFinite x"
  by (auto simp: isNaN_def isInf_def isFinite_def)

lemma isFinite_not: "isFinite x \<Longrightarrow> \<not> isNaN x \<and> \<not> isInf x"
  by (simp add: isNaN_def isInf_def isFinite_def)

lemma isFinite_fneg [simp]: "isFinite (fneg x) = isFinite x"
  and isNaN_fneg [simp]: "isNaN (fneg x) = isNaN x"
  and isInf_fneg [simp]: "isInf (fneg x) = isInf x"
  by (simp_all add: isFinite_def isNaN_def isInf_def)

lemma fl_fneg [simp]: "fl (fneg x) = - fl x"
  by (simp add: fl_def)

lemma fl_fzero [simp]: "fl fzero = 0"
  by (simp add: fl_def)

text \<open>The order on patterns is the order on values.\<close>

lemma fkey_less_iff: "fkey x < fkey y \<longleftrightarrow> fl x < fl y"
proof -
  have m: "- mval a < - mval b \<longleftrightarrow> b < a" "mval a < mval b \<longleftrightarrow> a < b"
    "- mval a < mval b \<longleftrightarrow> 0 < a \<or> 0 < b" "\<not> mval a < - mval b" for a b
    using mval_less_iff [of 0 a] mval_less_iff [of 0 b] mval_nonneg [of a] mval_nonneg [of b]
    by (auto simp: mval_less_iff)
  show ?thesis by (auto simp: fkey_def fl_def m)
qed

lemma flt_iff: "isFinite x \<Longrightarrow> isFinite y \<Longrightarrow> flt x y \<longleftrightarrow> fl x < fl y"
  by (simp add: flt_def isFinite_not fkey_less_iff)

lemma fle_iff: "isFinite x \<Longrightarrow> isFinite y \<Longrightarrow> fle x y \<longleftrightarrow> fl x \<le> fl y"
  by (simp add: fle_def isFinite_not fkey_less_iff flip: not_less)

lemma fle_trans: "fle x y \<Longrightarrow> fle y z \<Longrightarrow> fle x z"
  by (auto simp: fle_def)

lemma fle_refl: "\<not> isNaN x \<Longrightarrow> fle x x"
  by (simp add: fle_def)

subsection \<open>Addition and subtraction\<close>

lemma sig_at_fl:
  assumes "e \<le> exp_of (mag x)" shows "real_of_int (sig_at e x) * 2 powi e = fl x"
proof -
  have "(2::real) powi exp_of (mag x) = 2 ^ nat (exp_of (mag x) - e) * 2 powi e"
    using assms powi_split [of "exp_of (mag x) - e" e] by (simp add: power_int_def)
  then show ?thesis by (simp add: sig_at_def Let_def fl_def mval_def)
qed

lemma sig_at_fneg: "sig_at e (fneg x) = - sig_at e x"
  by (simp add: sig_at_def Let_def)

text \<open>The finite case of an addition, in terms of the exact sum.\<close>

lemma fadd_finite:
  assumes "isFinite x" "isFinite y"
  obtains m e s where "real m * 2 powi e = \<bar>fl x + fl y\<bar>"
    "fadd x y = mkf s (round_mag m e)" "m \<noteq> 0 \<Longrightarrow> s \<longleftrightarrow> fl x + fl y < 0"
proof -
  let ?e = "min (exp_of (mag x)) (exp_of (mag y))"
  define t where "t = sig_at ?e x + sig_at ?e y"
  have t: "real_of_int t * 2 powi ?e = fl x + fl y"
    unfolding t_def by (simp add: distrib_right sig_at_fl)
  have "real (nat \<bar>t\<bar>) * 2 powi ?e = \<bar>fl x + fl y\<bar>"
    unfolding t [symmetric] by (simp add: abs_mult)
  moreover have "fadd x y = mkf (if t = 0 then neg x \<and> neg y else t < 0) (round_mag (nat \<bar>t\<bar>) ?e)"
    using isFinite_not [OF assms(1)] isFinite_not [OF assms(2)]
    by (simp add: fadd_def Let_def t_def)
  moreover have "t < 0 \<longleftrightarrow> fl x + fl y < 0"
    unfolding t [symmetric] using zero_less_power_int [of "2::real" ?e]
    by (simp add: mult_less_0_iff order_less_not_sym)
  ultimately show ?thesis using that [of "nat \<bar>t\<bar>" ?e] by auto
qed

lemma fadd_not_nan: "isFinite x \<Longrightarrow> isFinite y \<Longrightarrow> \<not> isNaN (fadd x y)"
  by (erule (1) fadd_finite) (simp add: isNaN_def)

lemma fadd_commute: "fadd x y = fadd y x"
proof -
  have "x = y" if "isInf x" "isInf y" "neg x = neg y"
    using that by (intro float_eqI) (auto simp: isInf_def)
  then show ?thesis
    by (auto simp: fadd_def Let_def min.commute add.commute [of "sig_at _ x"] conj_commute)
qed

text \<open>Whenever the exact sum is representable, the sum is exact.\<close>

lemma fadd_exact:
  assumes "isFinite x" "isFinite y" "isFinite z" "fl x + fl y = fl z"
  shows "isFinite (fadd x y) \<and> fl (fadd x y) = fl z"
proof -
  obtain m e s where m: "real m * 2 powi e = \<bar>fl x + fl y\<bar>" and f: "fadd x y = mkf s (round_mag m e)"
    and s: "m \<noteq> 0 \<Longrightarrow> s \<longleftrightarrow> fl x + fl y < 0" using fadd_finite [OF assms(1,2)] by blast
  have z: "\<bar>fl z\<bar> = mval (mag z)" using mval_nonneg [of "mag z"] by (simp add: fl_def)
  then have r: "round_mag m e = mag z"
    using assms(3,4) m by (intro round_mag_exact) (simp_all add: isFinite_def)
  have "fl (fadd x y) = (if s then - mval (mag z) else mval (mag z))"
    by (simp add: f r fl_def)
  also have "\<dots> = fl z"
  proof (cases "m = 0")
    case True
    with m assms(4) z have "fl z = 0" "mval (mag z) = 0" by auto
    then show ?thesis by simp
  next
    case False
    then have "s \<longleftrightarrow> fl z < 0" using s assms(4) by simp
    then show ?thesis using z by auto
  qed
  finally show ?thesis using assms(3) by (simp add: f r isFinite_def)
qed

text \<open>Adding a zero changes nothing but the other zero.\<close>

lemma fl_eqD: assumes "fl x = fl y" "mag x \<noteq> 0" shows "x = y"
proof -
  have "0 < mval (mag x)" using assms(2) mval_less_iff [of 0] by simp
  then have "neg x = neg y \<and> mag x = mag y"
    using assms(1) mval_nonneg [of "mag y"] by (auto simp: fl_def mval_eq_iff split: if_splits)
  then show ?thesis by (simp add: float_eqI)
qed

lemma fadd_zero:
  assumes "mag x = 0" "mag y \<noteq> 0" "\<not> isNaN y" shows "fadd x y = y"
proof (cases "isFinite y")
  case True
  have x: "isFinite x" "fl x = 0" using assms(1) inf_mag_pos by (simp_all add: isFinite_def fl_def)
  then have "fl (fadd x y) = fl y" using fadd_exact [OF x(1) True True] by simp
  then show ?thesis using fl_eqD [of y "fadd x y"] assms(2) by simp
next
  case False
  then have "isInf y" using float_class assms(3) by blast
  then show ?thesis using assms inf_mag_pos by (simp add: fadd_def isNaN_def isInf_def)
qed

lemma fadd_eval [float_eval]:
  "fadd x y =
     (if mag x = 0 \<and> mag y \<noteq> 0 \<and> \<not> isNaN y then y
      else if mag y = 0 \<and> mag x \<noteq> 0 \<and> \<not> isNaN x then x
      else if isNaN x \<or> isNaN y then NaN
      else if isInf x then (if isInf y \<and> neg x \<noteq> neg y then NaN else x)
      else if isInf y then y
      else let e = min (exp_of (mag x)) (exp_of (mag y)); s = sig_at e x + sig_at e y
           in if s = 0 then mkf (neg x \<and> neg y) 0
              else mkf (s < 0) (round_mag (nat \<bar>s\<bar>) e))"
proof -
  consider "mag x = 0 \<and> mag y \<noteq> 0 \<and> \<not> isNaN y" | "mag y = 0 \<and> mag x \<noteq> 0 \<and> \<not> isNaN x"
    | "\<not> (mag x = 0 \<and> mag y \<noteq> 0 \<and> \<not> isNaN y)" "\<not> (mag y = 0 \<and> mag x \<noteq> 0 \<and> \<not> isNaN x)"
    by blast
  then show ?thesis
  proof cases
    case 1
    then show ?thesis using fadd_zero [of x y] by simp
  next
    case 2
    then show ?thesis using fadd_zero [of y x] fadd_commute [of x y] by simp
  next
    case 3
    then show ?thesis unfolding fadd_def [of x y] by (simp only: if_False)
  qed
qed

lemma mag_fsub_swap: "mag (fsub x y) = mag (fsub y x)"
proof (cases "isFinite x \<and> isFinite y")
  case True
  let ?e = "min (exp_of (mag x)) (exp_of (mag y))"
  define t where "t = sig_at ?e x - sig_at ?e y"
  have "mag (fsub x y) = round_mag (nat \<bar>t\<bar>) ?e"
    using True by (simp add: fsub_def fadd_def Let_def t_def isFinite_not sig_at_fneg)
  moreover have "mag (fsub y x) = round_mag (nat \<bar>- t\<bar>) ?e"
    using True by (simp add: fsub_def fadd_def Let_def t_def isFinite_not sig_at_fneg min.commute)
  ultimately show ?thesis by simp
next
  case False
  then show ?thesis using float_class [of x] float_class [of y]
    by (auto simp: fsub_def fadd_def Let_def isInf_def isFinite_def isNaN_def)
qed

lemma fsub_self: "isFinite x \<Longrightarrow> fsub x x = fzero"
  by (rule float_eqI) (simp_all add: fsub_def fadd_def Let_def isFinite_not sig_at_fneg)

subsection \<open>Non-negative values\<close>

text \<open>
  The values that pass a \<open>v < 0 || math.IsNaN(v)\<close> guard: the ordered values that are not below
  zero (negative zero among them).
\<close>

definition fnonneg :: "float64 \<Rightarrow> bool" where
  "fnonneg x \<longleftrightarrow> \<not> isNaN x \<and> \<not> flt x fzero"

lemma fnonneg_iff: "fnonneg x \<longleftrightarrow> \<not> isNaN x \<and> (neg x \<longrightarrow> mag x = 0)"
  by (auto simp: fnonneg_def flt_def fkey_def isNaN_def)

lemma fnonneg_mkf [simp]: "n \<le> inf_mag \<Longrightarrow> fnonneg (mkf False n)"
  using order_le_less_trans [OF _ inf_mag_less, of n] by (simp add: fnonneg_iff isNaN_def)

lemma fnonneg_fl: "fnonneg x \<Longrightarrow> fl x = mval (mag x)"
  by (auto simp: fnonneg_iff fl_def)

lemma fnonneg_fkey: "fnonneg x \<Longrightarrow> fkey x = int (mag x)"
  by (auto simp: fnonneg_iff fkey_def)

lemma fnonneg_fzero [simp]: "fnonneg fzero"
  by (simp add: fnonneg_iff isNaN_def)

lemma fadd_nonneg_mag:
  assumes "fnonneg x" "fnonneg y" "isFinite x" "isFinite y"
  obtains m e where "real m * 2 powi e = mval (mag x) + mval (mag y)"
    "mag (fadd x y) = round_mag m e" "fnonneg (fadd x y)"
proof -
  obtain m e s where m: "real m * 2 powi e = \<bar>fl x + fl y\<bar>" and f: "fadd x y = mkf s (round_mag m e)"
    and s: "m \<noteq> 0 \<Longrightarrow> s \<longleftrightarrow> fl x + fl y < 0" using fadd_finite [OF assms(3,4)] by blast
  have nn: "\<not> fl x + fl y < 0" "\<bar>fl x + fl y\<bar> = mval (mag x) + mval (mag y)"
    using assms(1,2) mval_nonneg [of "mag x"] mval_nonneg [of "mag y"] by (simp_all add: fnonneg_fl)
  then have "m \<noteq> 0 \<Longrightarrow> \<not> s" using s by simp
  then have "fnonneg (fadd x y)"
    by (cases "m = 0") (simp_all add: f fnonneg_iff isNaN_def)
  then show ?thesis using that m f nn(2) by simp
qed

lemma fadd_nonneg: assumes "fnonneg x" "fnonneg y" shows "fnonneg (fadd x y)"
proof (cases "isFinite x \<and> isFinite y")
  case True
  then show ?thesis using fadd_nonneg_mag assms by blast
next
  case False
  then have "isInf x \<or> isInf y" using assms float_class by (auto simp: fnonneg_iff)
  moreover have "\<not> neg z" if "isInf z" "fnonneg z" for z
    using that inf_mag_pos by (auto simp: fnonneg_iff isInf_def)
  ultimately show ?thesis using assms by (auto simp: fadd_def fnonneg_iff)
qed

text \<open>Adding a non-negative value never decreases a non-negative one, whatever is rounded.\<close>

lemma fadd_increasing: assumes "fnonneg x" "fnonneg y" shows "fle x (fadd x y)"
proof (cases "isFinite x \<and> isFinite y")
  case True
  then obtain m e where m: "real m * 2 powi e = mval (mag x) + mval (mag y)"
    and r: "mag (fadd x y) = round_mag m e" and nn: "fnonneg (fadd x y)"
    using fadd_nonneg_mag assms by blast
  have "mag x \<le> round_mag m e"
    using m mval_nonneg [of "mag y"] True by (intro round_mag_lower) (simp_all add: isFinite_def)
  then show ?thesis using assms nn by (simp add: fle_def fnonneg_fkey r) (simp add: fnonneg_iff)
next
  case False
  have nx: "\<not> isNaN x" "\<not> isNaN y" using assms by (simp_all add: fnonneg_iff)
  have nn: "fnonneg (fadd x y)" by (rule fadd_nonneg [OF assms])
  have "mag (fadd x y) = inf_mag"
    using False nx nn float_class [of x] float_class [of y]
    by (auto simp: fadd_def isInf_def fnonneg_iff split: if_splits)
  moreover have "mag x \<le> inf_mag" using nx by (simp add: isNaN_def)
  ultimately show ?thesis using assms nn by (simp add: fle_def fnonneg_fkey) (simp add: fnonneg_iff)
qed

lemma fadd_mono:
  assumes "fle x x'" "fnonneg x" "fnonneg x'" "fnonneg y" "isFinite x" "isFinite x'" "isFinite y"
  shows "fle (fadd x y) (fadd x' y)"
proof -
  obtain m e where 1: "real m * 2 powi e = mval (mag x) + mval (mag y)"
    "mag (fadd x y) = round_mag m e" "fnonneg (fadd x y)" using fadd_nonneg_mag assms by blast
  obtain m' e' where 2: "real m' * 2 powi e' = mval (mag x') + mval (mag y)"
    "mag (fadd x' y) = round_mag m' e'" "fnonneg (fadd x' y)" using fadd_nonneg_mag assms by blast
  have "mval (mag x) \<le> mval (mag x')"
    using assms(1-3) by (simp add: fle_def fnonneg_fkey mval_le_iff)
  with 1 2 have "round_mag m e \<le> round_mag m' e'" by (intro round_mag_mono) simp
  with 1 2 show ?thesis by (simp add: fle_def fnonneg_fkey) (simp add: fnonneg_iff)
qed

subsection \<open>Correct rounding of sums and products\<close>

lemma nearest_signed:
  assumes "round_mag m e < inf_mag" "real m * 2 powi e = \<bar>t\<bar>" "m \<noteq> 0 \<Longrightarrow> s \<longleftrightarrow> t < 0"
  shows "\<bar>fl (mkf s (round_mag m e)) - t\<bar> \<le> \<bar>fl z - t\<bar>"
proof -
  let ?r = "round_mag m e"
  have "\<bar>fl (mkf s ?r) - t\<bar> = \<bar>mval ?r - \<bar>t\<bar>\<bar>"
  proof (cases "m = 0")
    case False
    then show ?thesis using assms(3) by (auto simp: fl_def)
  qed (use assms(2) in \<open>simp add: fl_def\<close>)
  also have "\<dots> \<le> \<bar>mval (mag z) - \<bar>t\<bar>\<bar>"
    using round_mag_nearest [OF assms(1), of "mag z"] assms(2) by simp
  also have "mval (mag z) = \<bar>fl z\<bar>" using mval_nonneg [of "mag z"] by (simp add: fl_def)
  also have "\<bar>\<bar>fl z\<bar> - \<bar>t\<bar>\<bar> \<le> \<bar>fl z - t\<bar>" by (rule abs_triangle_ineq3)
  finally show ?thesis .
qed

lemma fadd_nearest:
  assumes "isFinite x" "isFinite y" "isFinite (fadd x y)"
  shows "\<bar>fl (fadd x y) - (fl x + fl y)\<bar> \<le> \<bar>fl z - (fl x + fl y)\<bar>"
proof -
  obtain m e s where "real m * 2 powi e = \<bar>fl x + fl y\<bar>" and f: "fadd x y = mkf s (round_mag m e)"
    and "m \<noteq> 0 \<Longrightarrow> s \<longleftrightarrow> fl x + fl y < 0" using fadd_finite [OF assms(1,2)] by blast
  then show ?thesis
    using assms(3) by (simp only: f) (intro nearest_signed, simp_all add: isFinite_def)
qed

lemma fmul_finite:
  assumes "isFinite x" "isFinite y"
  obtains m e where "real m * 2 powi e = \<bar>fl x * fl y\<bar>"
    "real m * 2 powi e = mval (mag x) * mval (mag y)"
    "fmul x y = mkf (neg x \<noteq> neg y) (round_mag m e)"
proof -
  let ?m = "sig_of (mag x) * sig_of (mag y)" and ?e = "exp_of (mag x) + exp_of (mag y)"
  have m: "real ?m * 2 powi ?e = mval (mag x) * mval (mag y)"
    by (simp add: mval_def powi_split mult.assoc mult.left_commute)
  moreover have "\<dots> = \<bar>fl x * fl y\<bar>"
    using mval_nonneg by (simp add: fl_def abs_mult)
  moreover have "fmul x y = mkf (neg x \<noteq> neg y) (round_mag ?m ?e)"
    using assms by (simp add: fmul_def Let_def isFinite_not)
  ultimately show ?thesis using that [of ?m ?e] by simp
qed

lemma fmul_nearest:
  assumes "isFinite x" "isFinite y" "isFinite (fmul x y)"
  shows "\<bar>fl (fmul x y) - fl x * fl y\<bar> \<le> \<bar>fl z - fl x * fl y\<bar>"
proof -
  obtain m e where m: "real m * 2 powi e = \<bar>fl x * fl y\<bar>"
    "real m * 2 powi e = mval (mag x) * mval (mag y)"
    and f: "fmul x y = mkf (neg x \<noteq> neg y) (round_mag m e)" using fmul_finite [OF assms(1,2)] by blast
  have "(neg x \<noteq> neg y) \<longleftrightarrow> fl x * fl y < 0" if "m \<noteq> 0"
  proof -
    have "0 < mval (mag x) * mval (mag y)" using m(2) that by (simp flip: m(2))
    then show ?thesis by (auto simp: fl_def)
  qed
  with m show ?thesis
    using assms(3) by (simp only: f) (intro nearest_signed, simp_all add: isFinite_def)
qed

lemma fmul_nonneg:
  assumes "fnonneg x" "fnonneg c" "isFinite c" "mag c \<noteq> 0"
  shows "fnonneg (fmul x c)"
proof (cases "isFinite x")
  case True
  then obtain m e where m: "real m * 2 powi e = mval (mag x) * mval (mag c)"
    and f: "fmul x c = mkf (neg x \<noteq> neg c) (round_mag m e)" using fmul_finite assms(3) by blast
  have "m = 0" if "neg x"
    using that m assms(1) by (simp add: fnonneg_iff)
  then show ?thesis using assms by (auto simp: f fnonneg_iff isNaN_def)
next
  case False
  then have "isInf x" using assms(1) float_class by (auto simp: fnonneg_iff)
  then show ?thesis
    using assms inf_mag_pos by (auto simp: fmul_def Let_def fnonneg_iff isInf_def isNaN_def)
qed

text \<open>Scaling by a positive factor preserves the order.\<close>

lemma fmul_mono:
  assumes "fle x y" "fnonneg x" "fnonneg y" "fnonneg c" "isFinite c" "mag c \<noteq> 0"
  shows "fle (fmul x c) (fmul y c)"
proof -
  have nn: "fnonneg (fmul x c)" "fnonneg (fmul y c)" by (intro fmul_nonneg assms)+
  have le: "mag x \<le> mag y" using assms(1-3) by (simp add: fle_def fnonneg_fkey)
  have "mag (fmul x c) \<le> mag (fmul y c)"
  proof (cases "isFinite y")
    case True
    with le have fx: "isFinite x" by (simp add: isFinite_def)
    obtain m e where 1: "real m * 2 powi e = mval (mag x) * mval (mag c)"
      and f1: "fmul x c = mkf (neg x \<noteq> neg c) (round_mag m e)" using fmul_finite fx assms(5) by blast
    obtain m' e' where 2: "real m' * 2 powi e' = mval (mag y) * mval (mag c)"
      and f2: "fmul y c = mkf (neg y \<noteq> neg c) (round_mag m' e')" using fmul_finite True assms(5) by blast
    have "real m * 2 powi e \<le> real m' * 2 powi e'"
      unfolding 1 2 using le by (intro mult_right_mono) (simp_all add: mval_le_iff mval_nonneg)
    then show ?thesis by (simp add: f1 f2 round_mag_mono)
  next
    case False
    then have "isInf y" using assms(3) float_class by (auto simp: fnonneg_iff)
    then have "mag (fmul y c) = inf_mag"
      using assms(4-6) inf_mag_pos
      by (auto simp: fmul_def Let_def fnonneg_iff isInf_def isFinite_def isNaN_def)
    then show ?thesis using nn(1) by (simp add: fnonneg_iff isNaN_def)
  qed
  then show ?thesis using nn by (simp add: fle_def fnonneg_fkey) (simp add: fnonneg_iff)
qed

subsection \<open>Squares and square roots\<close>

lemma isqrt_correct: "isqrt n * isqrt n \<le> n \<and> n < (isqrt n + 1) * (isqrt n + 1)"
proof (induction n rule: isqrt.induct)
  case (1 n)
  show ?case
  proof (cases "n = 0")
    case False
    define r where "r = isqrt (n div 4)"
    from 1 False have "r * r \<le> n div 4" "n div 4 < (r + 1) * (r + 1)" by (simp_all add: r_def)
    then have "4 * (r * r) \<le> n" "n < 4 * ((r + 1) * (r + 1))" by linarith+
    moreover have "isqrt n = (if (2 * r + 1) * (2 * r + 1) \<le> n then 2 * r + 1 else 2 * r)"
      using False by (subst isqrt.simps) (simp add: Let_def r_def)
    ultimately show ?thesis by (auto simp: algebra_simps)
  qed (simp add: isqrt.simps)
qed

lemma fpow2_cong: "mag x = mag y \<Longrightarrow> fpow2 x = fpow2 y"
  by (simp add: fpow2_def isNaN_def isInf_def)

lemma fpow2_nonneg: "\<not> isNaN x \<Longrightarrow> fnonneg (fpow2 x)"
  by (auto simp: fpow2_def Let_def round_mag_le_inf) (simp add: float_eval fnonneg_iff)

lemma fpow2_fzero: "fpow2 fzero = fzero"
  by (simp add: fpow2_def isNaN_def)

lemma fsqrt_nonneg: "fnonneg x \<Longrightarrow> fnonneg (fsqrt x)"
  by (auto simp: fsqrt_def Let_def fnonneg_iff isNaN_def)

lemma fsqrt_fzero: "fsqrt fzero = fzero"
  by (simp add: fsqrt_def isNaN_def)

subsection \<open>Quotients\<close>

text \<open>
  Rounding 55 leading bits and one sticky bit gives what rounding the exact value would give: a
  magnitude below or above the one is below or above the other.
\<close>

lemma mval_scaled_integer:
  fixes n :: nat and e :: int
  obtains j :: nat where "mval n = real j * 2 powi e" | "mval n < 2 ^ 53 * 2 powi e"
proof (cases "e \<le> exp_of n")
  case True
  have "mval n = real (sig_of n * 2 ^ nat (exp_of n - e)) * 2 powi e"
    using True powi_split [of "exp_of n - e" e] by (simp add: mval_def power_int_def)
  then show ?thesis by (rule that(1))
next
  case False
  then have "2 ^ 53 * 2 powi exp_of n \<le> 2 ^ 53 * (2::real) powi e"
    by (intro mult_left_mono power_int_increasing) auto
  with mval_lt [of n] show ?thesis by (intro that(2)) linarith
qed

lemma sticky_value: "real (sticky q b) * 2 powi (e - 1) = (real q + (if b then 1 / 2 else 0)) * 2 powi e"
  using powi_split [of "e - 1" 1] by (simp add: sticky_def)

lemma sticky_lower:
  assumes "real q \<le> x" "x < real q + 1" "2 ^ 53 \<le> q"
    and "mval n \<le> x * 2 powi e" "n \<le> inf_mag"
  shows "n \<le> round_mag (sticky q b) (e - 1)"
proof -
  have "mval n \<le> real q * 2 powi e"
  proof (cases rule: mval_scaled_integer [of n e])
    case (1 j)
    with assms(2,4) have "real j < real (Suc q)" by (simp add: order_le_less_trans)
    then have "j \<le> q" by (simp only: of_nat_less_iff less_Suc_eq_le)
    with 1 show ?thesis by simp
  next
    case 2
    moreover have "2 ^ 53 * 2 powi e \<le> real q * 2 powi e"
      using assms(3) by (intro mult_right_mono) (simp_all flip: real_pow2)
    ultimately show ?thesis by linarith
  qed
  also have "\<dots> \<le> real (sticky q b) * 2 powi (e - 1)"
    unfolding sticky_value by (intro mult_right_mono) auto
  finally show ?thesis using assms(5) by (rule round_mag_lower)
qed

lemma sticky_upper:
  assumes "real q \<le> x" "2 ^ 53 \<le> q" "b \<longleftrightarrow> x \<noteq> real q"
    and "x * 2 powi e \<le> mval n"
  shows "round_mag (sticky q b) (e - 1) \<le> n"
proof -
  have "real (sticky q b) * 2 powi (e - 1) \<le> mval n"
  proof (cases rule: mval_scaled_integer [of n e])
    case (1 j)
    with assms(4) have "x \<le> real j" by simp
    have "real q + (if b then 1 / 2 else 0) \<le> real j"
    proof (cases b)
      case True
      with assms(1,3) \<open>x \<le> real j\<close> have "real q < real j" by linarith
      then have "Suc q \<le> j" by (simp only: of_nat_less_iff Suc_le_eq)
      then have "real (Suc q) \<le> real j" by (simp only: of_nat_le_iff)
      with True show ?thesis by simp
    qed (use assms(1,3) \<open>x \<le> real j\<close> in simp)
    with 1 show ?thesis by (simp add: sticky_value)
  next
    case 2
    have "2 ^ 53 * 2 powi e \<le> x * 2 powi e"
      using assms(1,2) by (intro mult_right_mono) (simp_all flip: real_pow2)
    with 2 assms(4) show ?thesis by linarith
  qed
  then show ?thesis by (rule round_mag_upper)
qed

lemma quot_facts:
  fixes e :: int
  assumes "0 < a" "0 < b"
  defines "p \<equiv> a * 2 ^ (55 + nbits b)"
  shows "real (p div b) \<le> real p / real b" "real p / real b < real (p div b) + 1"
    "2 ^ 53 \<le> p div b" "p mod b \<noteq> 0 \<longleftrightarrow> real p / real b \<noteq> real (p div b)"
    "real p / real b * 2 powi (e - int (55 + nbits b)) = real a / real b * 2 powi e"
proof -
  have "real p = real (p div b * b + p mod b)" by (simp only: div_mult_mod_eq)
  then have pr: "real p / real b = real (p div b) + real (p mod b) / real b"
    using assms(2) by (simp only: of_nat_add of_nat_mult add_divide_distrib) simp
  moreover have "real (p mod b) < real b" using assms(2) by simp
  ultimately show "real (p div b) \<le> real p / real b" "real p / real b < real (p div b) + 1"
    "p mod b \<noteq> 0 \<longleftrightarrow> real p / real b \<noteq> real (p div b)"
    using assms(2) by (simp_all add: field_simps)
  have "2 ^ 53 * b \<le> 2 ^ 55 * 2 ^ nbits b"
    using nbits_bounds [OF assms(2)] by (intro mult_le_mono) simp_all
  also have "\<dots> \<le> p" using assms(1) by (simp add: p_def power_add)
  finally show "2 ^ 53 \<le> p div b" using assms(2) by (simp add: less_eq_div_iff_mult_less_eq)
  have "(2::real) ^ (55 + nbits b) * 2 powi (e - int (55 + nbits b)) = 2 powi e"
    using powi_split [of "int (55 + nbits b)" "e - int (55 + nbits b)"] by (simp add: power_int_def)
  then show "real p / real b * 2 powi (e - int (55 + nbits b)) = real a / real b * 2 powi e"
    by (simp add: p_def mult.assoc)
qed

lemma round_quot_lower:
  assumes "0 < a" "0 < b" "mval n \<le> real a / real b * 2 powi e" "n \<le> inf_mag"
  shows "n \<le> round_quot a b e"
  unfolding round_quot_def Let_def
  by (rule sticky_lower [OF quot_facts(1,2,3) [OF assms(1,2)]])
    (simp_all only: quot_facts(5) [OF assms(1,2)] assms)

lemma round_quot_upper:
  assumes "0 < a" "0 < b" "real a / real b * 2 powi e \<le> mval n"
  shows "round_quot a b e \<le> n"
  unfolding round_quot_def Let_def
  by (rule sticky_upper [OF quot_facts(1,3,4) [OF assms(1,2)]])
    (simp_all only: quot_facts(5) [OF assms(1,2)] assms)

lemma round_quot_0 [simp]: "round_quot 0 b e = 0"
  by (simp add: round_quot_def sticky_def)

lemma round_quot_exact:
  assumes "0 < b" "real a / real b * 2 powi e = mval n" "n \<le> inf_mag" shows "round_quot a b e = n"
proof (cases "a = 0")
  case True
  with assms(2) have "mval n = mval 0" by simp
  then show ?thesis using True by (simp only: mval_eq_iff round_quot_0)
next
  case False
  then show ?thesis
    using assms by (intro order_antisym round_quot_lower round_quot_upper) auto
qed

lemma round_quot_le_inf: "round_quot a b e \<le> inf_mag"
  by (simp add: round_quot_def Let_def round_mag_le_inf)

subsection \<open>Square roots\<close>

lemma isqrt_sqrt: "real (isqrt n) \<le> sqrt (real n)" "sqrt (real n) < real (isqrt n) + 1"
  "isqrt n * isqrt n \<noteq> n \<longleftrightarrow> sqrt (real n) \<noteq> real (isqrt n)"
proof -
  have le: "real (isqrt n * isqrt n) \<le> real n" and less: "real n < real ((isqrt n + 1) * (isqrt n + 1))"
    using isqrt_correct [of n] by (simp_all only: of_nat_le_iff of_nat_less_iff)
  show "real (isqrt n) \<le> sqrt (real n)"
    by (rule real_le_rsqrt) (use le in \<open>simp add: power2_eq_square\<close>)
  show "sqrt (real n) < real (isqrt n) + 1"
    by (rule real_less_lsqrt) (use less in \<open>simp_all add: power2_eq_square algebra_simps\<close>)
  have "sqrt (real n) = real (isqrt n) \<longleftrightarrow> real n = (real (isqrt n))\<^sup>2"
    by (metis of_nat_0_le_iff real_sqrt_pow2 real_sqrt_unique)
  also have "\<dots> \<longleftrightarrow> n = isqrt n * isqrt n"
    by (simp add: power2_eq_square flip: of_nat_mult)
  finally show "isqrt n * isqrt n \<noteq> n \<longleftrightarrow> sqrt (real n) \<noteq> real (isqrt n)" by auto
qed

lemma isqrt_large: assumes "2 ^ 108 \<le> n" shows "2 ^ 53 \<le> isqrt n"
proof (rule ccontr)
  assume "\<not> ?thesis"
  then have "(isqrt n + 1) * (isqrt n + 1) \<le> 2 ^ 54 * 2 ^ 54" by (intro mult_le_mono) simp_all
  with isqrt_correct [of n] assms show False by simp
qed

lemma fsqrt_root:
  assumes "isFinite x" "\<not> neg x" "mag x \<noteq> 0"
  obtains n e where "2 ^ 108 \<le> n" "sqrt (real n) * 2 powi e = sqrt (mval (mag x))"
    "fsqrt x = mkf False (round_mag (sticky (isqrt n) (isqrt n * isqrt n \<noteq> n)) (e - 1))"
proof -
  let ?m = "sig_of (mag x)" and ?e = "exp_of (mag x)"
  define m' where "m' = (if even ?e then ?m else 2 * ?m)"
  define h where "h = (if even ?e then ?e else ?e - 1) div 2"
  define n where "n = m' * 2 ^ 108"
  have e: "?e = 2 * h \<or> (?e = 2 * h + 1 \<and> odd ?e)" by (auto simp: h_def)
  have v: "mval (mag x) = real m' * (2 powi h)\<^sup>2"
    using e unfolding mval_def m'_def
    by (auto simp: powi_split power2_eq_square mult_2 simp flip: mult_2 power_int_add)
  have "sqrt (real n) * 2 powi (h - 54) = sqrt (real m') * (2 ^ 54 * 2 powi (h - 54))"
    using real_sqrt_power [of 2 54] by (simp add: n_def real_sqrt_mult)
  also have "2 ^ 54 * 2 powi (h - 54) = (2::real) powi h"
    using powi_split [of 54 "h - 54"] by simp
  also have "sqrt (real m') * 2 powi h = sqrt (mval (mag x))"
    by (simp add: v real_sqrt_mult)
  finally have r: "sqrt (real n) * 2 powi (h - 54) = sqrt (mval (mag x))" .
  have "0 < ?m" using assms(3) by (auto simp: sig_of_def)
  then have "2 ^ 108 \<le> n" by (simp add: n_def m'_def)
  moreover have "fsqrt x = mkf False (round_mag (sticky (isqrt n) (isqrt n * isqrt n \<noteq> n)) (h - 54 - 1))"
    using assms by (simp add: fsqrt_def isFinite_not Let_def n_def m'_def h_def)
  ultimately show ?thesis using that r by blast
qed

text \<open>A magnitude is below (above) the computed root if it is below (above) the real one.\<close>

lemma fsqrt_bounds:
  assumes "isFinite x" "fnonneg x" "n \<le> inf_mag"
  shows "mval n \<le> sqrt (mval (mag x)) \<Longrightarrow> n \<le> mag (fsqrt x)"
    and "sqrt (mval (mag x)) \<le> mval n \<Longrightarrow> mag (fsqrt x) \<le> n"
proof -
  have "(mval n \<le> sqrt (mval (mag x)) \<longrightarrow> n \<le> mag (fsqrt x)) \<and>
    (sqrt (mval (mag x)) \<le> mval n \<longrightarrow> mag (fsqrt x) \<le> n)"
  proof (cases "mag x = 0")
    case True
    then have "mag (fsqrt x) = 0" using assms(1) by (simp add: fsqrt_def isFinite_not)
    with True show ?thesis using mval_le_iff [of n 0] by auto
  next
    case False
    then have "\<not> neg x" using assms(2) by (simp add: fnonneg_iff)
    from fsqrt_root [OF assms(1) this False] obtain k e where k: "2 ^ 108 \<le> k"
      and r: "sqrt (real k) * 2 powi e = sqrt (mval (mag x))"
      and f: "fsqrt x = mkf False (round_mag (sticky (isqrt k) (isqrt k * isqrt k \<noteq> k)) (e - 1))"
      by blast
    note q = isqrt_sqrt [of k] isqrt_large [OF k]
    show ?thesis
      using sticky_lower [OF q(1,2,4), of n e "isqrt k * isqrt k \<noteq> k"] sticky_upper [OF q(1,4,3), of e n]
        assms(3) by (simp add: f r)
  qed
  then show "mval n \<le> sqrt (mval (mag x)) \<Longrightarrow> n \<le> mag (fsqrt x)"
    and "sqrt (mval (mag x)) \<le> mval n \<Longrightarrow> mag (fsqrt x) \<le> n" by blast+
qed

lemma fsqrt_exact:
  assumes "isFinite x" "fnonneg x" "n \<le> inf_mag" "mval n * mval n = mval (mag x)"
  shows "mag (fsqrt x) = n"
proof -
  have "sqrt (mval (mag x)) = mval n"
    using assms(4) mval_nonneg [of n] by (simp flip: assms(4))
  then show ?thesis using fsqrt_bounds [OF assms(1-3)] by (intro order_antisym) simp_all
qed

text \<open>A root of a finite value is finite.\<close>

lemma fsqrt_finite: assumes "isFinite x" "fnonneg x" shows "isFinite (fsqrt x)"
proof -
  obtain h :: int where h: "h = 512" by simp
  define b where "b = (0x5FF0000000000000 :: nat)"
  have "sig_of b = 2 ^ 52" "exp_of b = h - 52" "b < inf_mag"
    by (simp_all add: b_def sig_of_def exp_of_def inf_mag_def h)
  then have b: "mval b = 2 powi h" "b < inf_mag"
    using powi_split [of 52 "h - 52"] by (simp_all add: mval_def)
  have "sig_of inf_mag = 2 ^ 52" "exp_of inf_mag = h + h - 52"
    by (simp_all add: inf_mag_def sig_of_def exp_of_def h)
  then have "mval inf_mag = 2 powi (h + h)"
    using powi_split [of 52 "h + h - 52"] by (simp add: mval_def)
  then have i: "mval inf_mag = 2 powi h * 2 powi h" by (simp only: powi_split)
  have "mval (mag x) \<le> 2 powi h * 2 powi h"
    using assms(1) mval_le_iff [of "mag x" inf_mag] by (simp add: i isFinite_def)
  then have "sqrt (mval (mag x)) \<le> sqrt (2 powi h * 2 powi h)"
    by (simp only: real_sqrt_le_iff)
  also have "\<dots> = mval b" by (simp add: b)
  finally have "mag (fsqrt x) \<le> b" using fsqrt_bounds(2) [OF assms, of b] b(2) by simp
  then show ?thesis using b(2) by (simp add: isFinite_def)
qed

end
