(* ===== verification/Toll_Types.thy ===== *)
theory Toll_Types
  imports Float64
begin

text \<open>
  The package \<open>types\<close>: the records the services exchange (\<open>types/types.go\<close>), the protocol buffer
  message of the aggregator's only RPC (\<open>types/ptypes.proto\<close>), and the 64-bit FNV-1a fingerprint of
  an event identifier. The lemmas show that the fingerprint is a left-to-right hash of the bytes
  in which every step is a bijection of the state.
\<close>

record OBUData =
  od_EventID :: string
  od_ProducedAtUnixNano :: int64
  od_OBUID :: go_int
  od_Lat :: float64
  od_Lon :: float64
  od_Payload :: string

record Distance =
  d_EventID :: string
  d_ProducedAtUnixNano :: int64
  d_Value :: float64
  d_OBUID :: go_int

record Invoice =
  i_OBUID :: go_int
  i_TotalDist :: float64
  i_Amount :: float64

record EventReconciliation =
  r_Count :: uint64
  r_XOR :: uint64
  r_Sum :: uint64

record AggregateRequest =
  ar_ObuID :: int32
  ar_Value :: float64
  ar_ProducedAtUnixNano :: int64
  ar_EventID :: string

text \<open>
  The error values the aggregator distinguishes: the sentinel that \<open>errors.Is\<close> looks for, the store's
  missing-key error, and the message of any other error.
\<close>

datatype go_error = ErrInvalidDistance | ErrNotFound go_int | ErrOther string

section \<open>The event fingerprint\<close>

definition fnv_offset :: uint64 where
  "fnv_offset = 14695981039346656037"

definition fnv_prime :: uint64 where
  "fnv_prime = 1099511628211"

definition fnv_step :: "uint64 \<Rightarrow> char \<Rightarrow> uint64" where
  "fnv_step h c = (h XOR word_of_nat (of_char c)) * fnv_prime"

definition EventIDFingerprint :: "string \<Rightarrow> uint64" where
  "EventIDFingerprint eventID = foldl fnv_step fnv_offset eventID"

lemmas fnv_eval [go_eval] =
  EventIDFingerprint_def fnv_step_def fnv_offset_def fnv_prime_def

text \<open>The FNV prime is odd, so a step loses nothing of the hash it starts from.\<close>

lemma fnv_prime_inverse: "fnv_prime * 14886173955864302971 = 1"
  by (simp add: fnv_prime_def)

lemma fnv_step_inj: assumes "fnv_step h c = fnv_step h' c" shows "h = h'"
proof -
  let ?b = "word_of_nat (of_char c) :: uint64"
  have "(h XOR ?b) * fnv_prime * 14886173955864302971 = (h' XOR ?b) * fnv_prime * 14886173955864302971"
    using assms by (simp add: fnv_step_def)
  then have "h XOR ?b = h' XOR ?b" by (simp only: mult.assoc fnv_prime_inverse mult_1_right)
  then have "(h XOR ?b) XOR ?b = (h' XOR ?b) XOR ?b" by simp
  then show ?thesis by (simp add: xor.assoc)
qed

lemma EventIDFingerprint_append:
  "EventIDFingerprint (s @ t) = foldl fnv_step (EventIDFingerprint s) t"
  by (simp add: EventIDFingerprint_def)

lemma fnv_step_inj_char: assumes "fnv_step h c = fnv_step h d" shows "c = d"
proof -
  let ?b = "\<lambda>c. word_of_nat (of_char c) :: uint64"
  have "(h XOR ?b c) * fnv_prime * 14886173955864302971 = (h XOR ?b d) * fnv_prime * 14886173955864302971"
    using assms by (simp add: fnv_step_def)
  then have "h XOR ?b c = h XOR ?b d" by (simp only: mult.assoc fnv_prime_inverse mult_1_right)
  then have "h XOR (h XOR ?b c) = h XOR (h XOR ?b d)" by simp
  then have "?b c = ?b d" by (simp flip: xor.assoc)
  moreover have "unat (?b x) = of_char x" for x
    using nat_of_char_less_256 [of x] by (simp add: unat_of_nat del: nat_of_char_less_256)
  ultimately have "(of_char c :: nat) = of_char d" by metis
  then show ?thesis by (simp add: of_char_eq_iff)
qed

lemma foldl_fnv_inj: "foldl fnv_step h t = foldl fnv_step h' t \<longleftrightarrow> h = h'"
  by (induction t arbitrary: h h') (auto dest: fnv_step_inj)

text \<open>
  Identifiers that differ in one byte have different fingerprints: nothing of the hash is lost
  before or after the byte.
\<close>

theorem EventIDFingerprint_one_byte:
  "EventIDFingerprint (s @ c # t) = EventIDFingerprint (s @ d # t) \<longleftrightarrow> c = d"
  using fnv_step_inj_char by (auto simp: EventIDFingerprint_append foldl_fnv_inj)

end
