(* ===== verification/Ledger.thy ===== *)
theory Ledger
  imports Toll_Types
begin

text \<open>
  The abstract specification of what the aggregator keeps: a ledger, the list of the distance
  events that count, in the order in which they were applied. An event with an identifier counts
  once; the balance of an OBU is the running sum of its events; the reconciliation summary is a
  function of the identifiers. Components promise to behave as operations on a ledger; this
  theory holds the facts about ledgers that all of them share.
\<close>

type_synonym ledger = "Distance list"

definition ids :: "ledger \<Rightarrow> string list" where
  "ids L = filter (\<lambda>i. i \<noteq> '''') (map d_EventID L)"

definition fresh :: "ledger \<Rightarrow> Distance \<Rightarrow> bool" where
  "fresh L d \<longleftrightarrow> d_EventID d = '''' \<or> d_EventID d \<notin> set (ids L)"

definition record_event :: "ledger \<Rightarrow> Distance \<Rightarrow> ledger" where
  "record_event L d = (if fresh L d then L @ [d] else L)"

definition values_of :: "ledger \<Rightarrow> go_int \<Rightarrow> float64 list" where
  "values_of L i = map d_Value (filter (\<lambda>d. d_OBUID d = i) L)"

definition balance :: "ledger \<Rightarrow> go_int \<Rightarrow> float64 option" where
  "balance L i = (if values_of L i = [] then None else Some (foldl fadd fzero (values_of L i)))"

definition summary :: "ledger \<Rightarrow> EventReconciliation" where
  "summary L =
     \<lparr>r_Count = of_nat (length (ids L)),
      r_XOR = foldr (XOR) (map EventIDFingerprint (ids L)) 0,
      r_Sum = sum_list (map EventIDFingerprint (ids L))\<rparr>"

lemmas ledger_eval [go_eval] =
  ids_def fresh_def record_event_def values_of_def balance_def summary_def

section \<open>One event at a time\<close>

lemma ids_Nil [simp]: "ids [] = []"
  and ids_append [simp]: "ids (L @ M) = ids L @ ids M"
  by (simp_all add: ids_def)

lemma ids_Cons: "ids (d # L) = (if d_EventID d = '''' then ids L else d_EventID d # ids L)"
  by (simp add: ids_def)

lemma values_of_append [simp]: "values_of (L @ M) i = values_of L i @ values_of M i"
  by (simp add: values_of_def)

lemma balance_Nil [simp]: "balance [] = Map.empty"
  by (simp add: balance_def values_of_def fun_eq_iff)

lemma balance_snoc:
  "balance (L @ [d]) =
     (balance L)(d_OBUID d \<mapsto> fadd (case balance L (d_OBUID d) of None \<Rightarrow> fzero | Some t \<Rightarrow> t) (d_Value d))"
  by (auto simp: balance_def values_of_def fun_eq_iff)

lemma foldr_xor: "foldr (XOR) xs (a XOR b) = foldr (XOR) xs a XOR (b :: 'a :: semiring_bit_operations)"
  by (induction xs) (simp_all add: xor.assoc)

lemma summary_Nil [simp]: "summary [] = \<lparr>r_Count = 0, r_XOR = 0, r_Sum = 0\<rparr>"
  by (simp add: summary_def)

lemma summary_snoc:
  "summary (L @ [d]) =
     (if d_EventID d = '''' then summary L
      else let f = EventIDFingerprint (d_EventID d)
           in \<lparr>r_Count = r_Count (summary L) + 1, r_XOR = r_XOR (summary L) XOR f,
               r_Sum = r_Sum (summary L) + f\<rparr>)"
proof -
  let ?f = "EventIDFingerprint (d_EventID d)" and ?xs = "map EventIDFingerprint (ids L)"
  have "foldr (XOR) ?xs ?f = foldr (XOR) ?xs 0 XOR ?f"
    using foldr_xor [of ?xs 0 ?f] by simp
  then show ?thesis by (simp add: summary_def ids_Cons Let_def)
qed

lemma distinct_record: "distinct (ids L) \<Longrightarrow> distinct (ids (record_event L d))"
  by (auto simp: record_event_def fresh_def ids_Cons)

lemma record_event_dup: "\<not> fresh L d \<Longrightarrow> record_event L d = L"
  by (simp add: record_event_def)

lemma not_fresh_record: "d_EventID d \<noteq> '''' \<Longrightarrow> d_EventID e = d_EventID d \<Longrightarrow> \<not> fresh (record_event L d) e"
  by (auto simp: record_event_def fresh_def ids_Cons)

section \<open>Sequences of events\<close>

text \<open>
  \<open>first_events seen ds\<close> says independently which events of a stream count: those whose
  identifier has not been seen before, and those that have none.
\<close>

fun first_events :: "string set \<Rightarrow> Distance list \<Rightarrow> ledger" where
  "first_events seen [] = []"
| "first_events seen (d # ds) =
     (if d_EventID d = '''' then d # first_events seen ds
      else if d_EventID d \<in> seen then first_events seen ds
      else d # first_events (insert (d_EventID d) seen) ds)"

lemma record_first_events: "foldl record_event L ds = L @ first_events (set (ids L)) ds"
proof (induction ds arbitrary: L)
  case (Cons d ds)
  show ?case
    by (auto simp: Cons.IH record_event_def [of L d] fresh_def ids_Cons)
qed simp

lemma distinct_first_events: "distinct (ids (first_events seen ds)) \<and> set (ids (first_events seen ds)) = set (ids ds) - seen"
  by (induction seen ds rule: first_events.induct) (auto simp: ids_Cons)

lemma set_first_events: "set (first_events seen ds) \<subseteq> set ds"
  by (induction seen ds rule: first_events.induct) auto

lemma first_events_idem: "first_events seen (first_events seen ds) = first_events seen ds"
  by (induction seen ds rule: first_events.induct) auto

text \<open>The summary depends on the identifiers only, not on their order.\<close>

lemma foldr_xor_mset:
  "mset xs = mset ys \<Longrightarrow> foldr (XOR) xs 0 = foldr (XOR) ys (0 :: 'a :: semiring_bit_operations)"
  unfolding foldr_conv_fold
  by (rule arg_cong [where f = "\<lambda>f. f 0"], rule fold_multiset_equiv)
    (simp_all add: fun_eq_iff xor.left_commute)

lemma summary_mset:
  assumes "mset (ids L) = mset (ids M)" shows "summary L = summary M"
proof -
  have "mset (map EventIDFingerprint (ids L)) = mset (map EventIDFingerprint (ids M))"
    using assms by simp
  then have "foldr (XOR) (map EventIDFingerprint (ids L)) 0 = foldr (XOR) (map EventIDFingerprint (ids M)) 0"
    "sum_list (map EventIDFingerprint (ids L)) = sum_list (map EventIDFingerprint (ids M))"
    by (rule foldr_xor_mset) (metis assms sum_mset_sum_list mset_map)
  moreover have "length (ids L) = length (ids M)" using assms by (rule mset_eq_length)
  ultimately show ?thesis by (simp add: summary_def)
qed

lemma summary_set:
  assumes "distinct (ids L)" "distinct (ids M)" "set (ids L) = set (ids M)"
  shows "summary L = summary M"
  using assms by (intro summary_mset) (simp add: set_eq_iff_mset_eq_distinct)

section \<open>Balances of non-negative events\<close>

definition nonneg_ledger :: "ledger \<Rightarrow> bool" where
  "nonneg_ledger L \<longleftrightarrow> (\<forall>d \<in> set L. fnonneg (d_Value d))"

lemma nonneg_ledger_append [simp]: "nonneg_ledger (L @ M) \<longleftrightarrow> nonneg_ledger L \<and> nonneg_ledger M"
  by (auto simp: nonneg_ledger_def)

lemma foldl_fadd_nonneg: "fnonneg a \<Longrightarrow> \<forall>x \<in> set xs. fnonneg x \<Longrightarrow> fnonneg (foldl fadd a xs)"
  by (induction xs arbitrary: a) (simp_all add: fadd_nonneg)

lemma foldl_fadd_increasing: "fnonneg a \<Longrightarrow> \<forall>x \<in> set xs. fnonneg x \<Longrightarrow> fle a (foldl fadd a xs)"
proof (induction xs arbitrary: a)
  case Nil
  then show ?case by (simp add: fle_refl fnonneg_iff)
next
  case (Cons x xs)
  then have "fle a (fadd a x)" "fle (fadd a x) (foldl fadd (fadd a x) xs)"
    by (simp_all add: fadd_increasing fadd_nonneg)
  then show ?case by (auto intro: fle_trans)
qed

lemma values_nonneg: "nonneg_ledger L \<Longrightarrow> x \<in> set (values_of L i) \<Longrightarrow> fnonneg x"
  by (auto simp: nonneg_ledger_def values_of_def)

lemma balance_nonneg: "nonneg_ledger L \<Longrightarrow> balance L i = Some t \<Longrightarrow> fnonneg t"
  by (auto simp: balance_def values_nonneg intro!: foldl_fadd_nonneg split: if_splits)

lemma balance_increasing:
  assumes "nonneg_ledger (L @ M)" "balance L i = Some t"
  shows "\<exists>t'. balance (L @ M) i = Some t' \<and> fle t t'"
proof -
  have t: "t = foldl fadd fzero (values_of L i)" and ne: "values_of L i \<noteq> []"
    using assms(2) by (auto simp: balance_def split: if_splits)
  have "fnonneg t" using assms balance_nonneg by auto
  then have "fle t (foldl fadd t (values_of M i))"
    using assms(1) values_nonneg by (intro foldl_fadd_increasing) auto
  then show ?thesis using ne by (simp add: balance_def t)
qed

end
