(* ===== verification/Store.thy ===== *)
theory Store
  imports Ledger
begin

text \<open>
  The aggregator's store (\<open>aggregator/store.go\<close>) and the interface \<open>Storer\<close> it implements
  (\<open>aggregator/service.go\<close>). Every method of \<open>MemoryStore\<close> holds the mutex from its first to its
  last statement, so concurrent calls take effect one after the other: a run of the store is a
  sequence of calls in some order. The locale \<open>storer\<close> states what the interface promises in terms
  of the ledger, and the interpretation \<open>memory\<close> shows that \<open>MemoryStore\<close> keeps the promise.
\<close>

record 's Storer =
  st_Insert :: "'s \<Rightarrow> Distance \<Rightarrow> (go_error + bool) \<times> 's"
  st_Get :: "'s \<Rightarrow> go_int \<Rightarrow> go_error + float64"
  st_Reconciliation :: "'s \<Rightarrow> EventReconciliation"

section \<open>The memory store\<close>

record MemoryStore =
  ms_data :: "go_int \<rightharpoonup> float64"
  ms_processed :: "string set"
  ms_reconcile :: EventReconciliation

definition NewMemoryStore :: MemoryStore where
  "NewMemoryStore =
     \<lparr>ms_data = Map.empty, ms_processed = {},
      ms_reconcile = \<lparr>r_Count = 0, r_XOR = 0, r_Sum = 0\<rparr>\<rparr>"

definition MemoryStore_Insert :: "MemoryStore \<Rightarrow> Distance \<Rightarrow> (go_error + bool) \<times> MemoryStore" where
  "MemoryStore_Insert m d =
     (if d_EventID d \<noteq> '''' \<and> d_EventID d \<in> ms_processed m then (Inr False, m)
      else
        let m1 = (if d_EventID d \<noteq> '''' then
              let fingerprint = EventIDFingerprint (d_EventID d); r = ms_reconcile m
              in m\<lparr>ms_processed := insert (d_EventID d) (ms_processed m),
                   ms_reconcile := \<lparr>r_Count = r_Count r + 1, r_XOR = r_XOR r XOR fingerprint,
                     r_Sum = r_Sum r + fingerprint\<rparr>\<rparr>
              else m);
            old = (case ms_data m1 (d_OBUID d) of None \<Rightarrow> fzero | Some v \<Rightarrow> v)
        in (Inr True, m1\<lparr>ms_data := (ms_data m1)(d_OBUID d \<mapsto> fadd old (d_Value d))\<rparr>))"

definition MemoryStore_Reconciliation :: "MemoryStore \<Rightarrow> EventReconciliation" where
  "MemoryStore_Reconciliation m = ms_reconcile m"

definition MemoryStore_Get :: "MemoryStore \<Rightarrow> go_int \<Rightarrow> go_error + float64" where
  "MemoryStore_Get m i =
     (case ms_data m i of None \<Rightarrow> Inl (ErrNotFound i) | Some v \<Rightarrow> Inr v)"

definition memoryStorer :: "MemoryStore Storer" where
  "memoryStorer =
     \<lparr>st_Insert = MemoryStore_Insert, st_Get = MemoryStore_Get,
      st_Reconciliation = MemoryStore_Reconciliation\<rparr>"

text \<open>A run of insertions: the answers and the final store.\<close>

fun Insert_all :: "'s Storer \<Rightarrow> 's \<Rightarrow> Distance list \<Rightarrow> (go_error + bool) list \<times> 's" where
  "Insert_all S s [] = ([], s)"
| "Insert_all S s (d # ds) =
     (let (r, s1) = st_Insert S s d; (rs, s2) = Insert_all S s1 ds in (r # rs, s2))"

lemmas store_eval [go_eval] =
  NewMemoryStore_def MemoryStore_Insert_def MemoryStore_Reconciliation_def MemoryStore_Get_def
  memoryStorer_def

section \<open>The interface\<close>

text \<open>\<open>rel L s\<close>: the store \<open>s\<close> has applied exactly the events of the ledger \<open>L\<close>.\<close>

locale storer =
  fixes S :: "'s Storer"
    and rel :: "ledger \<Rightarrow> 's \<Rightarrow> bool"
  assumes insert_fresh:
      "rel L s \<Longrightarrow> fresh L d \<Longrightarrow> \<exists>s'. st_Insert S s d = (Inr True, s') \<and> rel (L @ [d]) s'"
    and insert_dup: "rel L s \<Longrightarrow> \<not> fresh L d \<Longrightarrow> st_Insert S s d = (Inr False, s)"
    and get_balance: "rel L s \<Longrightarrow>
      st_Get S s i = (case balance L i of None \<Rightarrow> Inl (ErrNotFound i) | Some t \<Rightarrow> Inr t)"
    and reconciliation_summary: "rel L s \<Longrightarrow> st_Reconciliation S s = summary L"
begin

lemma insert_record:
  assumes "rel L s"
  shows "\<exists>s'. st_Insert S s d = (Inr (fresh L d), s') \<and> rel (record_event L d) s'"
  using insert_fresh [OF assms, of d] insert_dup [OF assms, of d] assms
  by (cases "fresh L d") (auto simp: record_event_def)

lemma insert_all_record:
  assumes "rel L s"
  shows "rel (foldl record_event L ds) (snd (Insert_all S s ds))"
  using assms
proof (induction ds arbitrary: L s)
  case (Cons d ds)
  obtain s' where "st_Insert S s d = (Inr (fresh L d), s')" "rel (record_event L d) s'"
    using insert_record [OF Cons.prems] by blast
  with Cons.IH show ?case by (simp add: split_beta)
qed simp

lemma insert_all_ledger:
  assumes "rel L s"
  shows "rel (L @ first_events (set (ids L)) ds) (snd (Insert_all S s ds))"
  using insert_all_record [OF assms] by (simp add: record_first_events)

lemma insert_all_answers:
  assumes "rel L s"
  shows "fst (Insert_all S s ds) = map (\<lambda>k. Inr (fresh (foldl record_event L (take k ds)) (ds ! k))) [0..<length ds]"
  using assms
proof (induction ds arbitrary: L s)
  case (Cons d ds)
  obtain s' where "st_Insert S s d = (Inr (fresh L d), s')" "rel (record_event L d) s'"
    using insert_record [OF Cons.prems] by blast
  with Cons.IH [of "record_event L d" s'] show ?case
    by (simp add: split_beta map_upt_Suc del: upt_Suc)
qed simp

text \<open>Once an event has been inserted, inserting it again reports a duplicate and changes nothing.\<close>

lemma insert_again:
  assumes "rel L s" "d_EventID d \<noteq> ''''" "d_EventID e = d_EventID d"
  shows "st_Insert S (snd (st_Insert S s d)) e = (Inr False, snd (st_Insert S s d))"
proof -
  obtain s' where "st_Insert S s d = (Inr (fresh L d), s')" "rel (record_event L d) s'"
    using insert_record [OF assms(1)] by blast
  then show ?thesis
    using insert_dup not_fresh_record [OF assms(2,3)] by simp
qed

end

section \<open>The memory store implements it\<close>

definition store_rel :: "ledger \<Rightarrow> MemoryStore \<Rightarrow> bool" where
  "store_rel L m \<longleftrightarrow>
     ms_data m = balance L \<and> ms_processed m = set (ids L) \<and> ms_reconcile m = summary L"

lemma store_rel_new: "store_rel [] NewMemoryStore"
  by (simp add: store_rel_def NewMemoryStore_def)

lemma store_rel_insert_fresh:
  assumes "store_rel L m" "fresh L d"
  shows "\<exists>m'. MemoryStore_Insert m d = (Inr True, m') \<and> store_rel (L @ [d]) m'"
  using assms
  by (auto simp: MemoryStore_Insert_def store_rel_def fresh_def Let_def balance_snoc summary_snoc
      ids_Cons)

interpretation memory: storer memoryStorer store_rel
proof
  fix L m d i
  assume rel: "store_rel L m"
  show "fresh L d \<Longrightarrow> \<exists>m'. st_Insert memoryStorer m d = (Inr True, m') \<and> store_rel (L @ [d]) m'"
    using store_rel_insert_fresh [OF rel] by (simp add: memoryStorer_def)
  show "\<not> fresh L d \<Longrightarrow> st_Insert memoryStorer m d = (Inr False, m)"
    using rel by (simp add: memoryStorer_def MemoryStore_Insert_def store_rel_def fresh_def)
  show "st_Get memoryStorer m i = (case balance L i of None \<Rightarrow> Inl (ErrNotFound i) | Some t \<Rightarrow> Inr t)"
    using rel by (simp add: memoryStorer_def MemoryStore_Get_def store_rel_def)
  show "st_Reconciliation memoryStorer m = summary L"
    using rel by (simp add: memoryStorer_def MemoryStore_Reconciliation_def store_rel_def)
qed

section \<open>Properties of the store\<close>

text \<open>
  C7: However often events are inserted into a new store, and in whatever order, \<open>Get\<close> returns the
  running sum of the first insertion of every identifier for that OBU (an error if there is none),
  and \<open>Reconciliation\<close> summarises exactly those events.
\<close>

theorem store_exactly_once:
  "MemoryStore_Get (snd (Insert_all memoryStorer NewMemoryStore ds)) i =
     (case balance (first_events {} ds) i of None \<Rightarrow> Inl (ErrNotFound i) | Some t \<Rightarrow> Inr t)
   \<and> MemoryStore_Reconciliation (snd (Insert_all memoryStorer NewMemoryStore ds)) = summary (first_events {} ds)"
proof -
  have "store_rel (first_events {} ds) (snd (Insert_all memoryStorer NewMemoryStore ds))"
    using memory.insert_all_ledger [OF store_rel_new, of ds] by simp
  then show ?thesis
    using memory.get_balance memory.reconciliation_summary by (simp add: memoryStorer_def)
qed

text \<open>
  The reconciliation summary identifies a set of events: two streams with the same set of
  identifiers leave the same summary, whatever the order, the repetitions and the distances.
\<close>

theorem store_reconciliation_order_free:
  assumes "set (ids ds) = set (ids es)"
  shows "MemoryStore_Reconciliation (snd (Insert_all memoryStorer NewMemoryStore ds)) =
    MemoryStore_Reconciliation (snd (Insert_all memoryStorer NewMemoryStore es))"
proof -
  have rec: "MemoryStore_Reconciliation (snd (Insert_all memoryStorer NewMemoryStore xs)) =
      summary (first_events {} xs)" for xs
    using memory.insert_all_ledger [OF store_rel_new, of xs] memory.reconciliation_summary
    by (simp add: memoryStorer_def)
  show ?thesis
    unfolding rec using assms by (intro summary_set) (simp_all add: distinct_first_events)
qed

definition event_a :: Distance where
  "event_a = \<lparr>d_EventID = ''a'', d_ProducedAtUnixNano = 1, d_Value = fzero, d_OBUID = 1\<rparr>"

definition event_b :: Distance where
  "event_b = \<lparr>d_EventID = ''b'', d_ProducedAtUnixNano = 1, d_Value = fzero, d_OBUID = 2\<rparr>"

theorem store_reconciliation_order_free_witness:
  "set (ids [event_a, event_b]) = set (ids [event_b, event_b, event_a])
   \<and> MemoryStore_Reconciliation (snd (Insert_all memoryStorer NewMemoryStore [event_a, event_b])) =
     MemoryStore_Reconciliation (snd (Insert_all memoryStorer NewMemoryStore [event_b, event_b, event_a]))"
proof -
  have "set (ids [event_a, event_b]) = set (ids [event_b, event_b, event_a])"
    by (auto simp: ids_def event_a_def event_b_def)
  then show ?thesis using store_reconciliation_order_free by blast
qed

text \<open>
  Inserting an event again, in any state of the store, reports that it was not applied and
  changes nothing.
\<close>

theorem store_insert_idempotent:
  assumes "d_EventID d \<noteq> ''''" "d_EventID e = d_EventID d"
  shows "MemoryStore_Insert (snd (MemoryStore_Insert m d)) e = (Inr False, snd (MemoryStore_Insert m d))"
  using assms by (simp add: MemoryStore_Insert_def Let_def)

theorem store_insert_idempotent_witness:
  "d_EventID event_a \<noteq> '''' \<and> MemoryStore_Insert (snd (MemoryStore_Insert NewMemoryStore event_a)) event_a =
     (Inr False, snd (MemoryStore_Insert NewMemoryStore event_a))"
  using store_insert_idempotent [of event_a event_a NewMemoryStore] by (simp add: event_a_def)

end
