(* ===== verification/Go_Time.thy ===== *)
theory Go_Time
  imports Float64 "HOL-Library.Signed_Division"
begin

text \<open>
  The part of package \<open>time\<close> the services compute with: a \<open>Duration\<close> is a signed 64-bit number of
  nanoseconds, \<open>t.Sub(u)\<close> saturates instead of wrapping around, and \<open>d.Seconds()\<close> splits whole
  seconds from the rest before it converts. A wall-clock reading is its \<open>UnixNano\<close>.
\<close>

type_synonym duration = int64

definition saturate64 :: "int \<Rightarrow> int64" where
  "saturate64 i = word_of_int (max (- (2 ^ 63)) (min (2 ^ 63 - 1) i))"

definition time_Sub :: "int64 \<Rightarrow> int64 \<Rightarrow> duration" where
  "time_Sub t u = saturate64 (sint t - sint u)"

definition Seconds :: "duration \<Rightarrow> float64" where
  "Seconds d =
     (let sec = sint d sdiv 1000000000; nsec = sint d smod 1000000000
      in fadd (float_of_int sec) (fdiv (float_of_int nsec) (float_of_int 1000000000)))"

lemmas time_eval [go_eval] = saturate64_def time_Sub_def Seconds_def

lemma sint_saturate64: "sint (saturate64 i) = max (- (2 ^ 63)) (min (2 ^ 63 - 1) i)"
  by (simp add: saturate64_def signed_of_int signed_take_bit_int_eq_self)

lemma sint_time_Sub_nonneg: "0 \<le> sint (time_Sub t u) \<longleftrightarrow> sint u \<le> sint t"
  by (auto simp: time_Sub_def sint_saturate64)

lemma float_of_int_nonneg: "0 \<le> i \<Longrightarrow> fnonneg (float_of_int i)"
  by (simp add: float_of_int_def round_mag_le_inf)

lemma fdiv_nonneg:
  assumes "fnonneg x" "fnonneg y" "isFinite x" "isFinite y" "\<not> neg x" "\<not> neg y" "mag y \<noteq> 0"
  shows "fnonneg (fdiv x y)"
  using assms by (simp add: fdiv_def Let_def isFinite_not round_quot_le_inf)

lemma isFinite_float_of_int:
  assumes "\<bar>i\<bar> < 2 ^ 64" shows "isFinite (float_of_int i)"
proof -
  have "mval (0x43F0000000000000) = 2 ^ 64" by (simp add: mval_def sig_of_def exp_of_def power_int_def)
  moreover have "real (nat \<bar>i\<bar>) \<le> 2 ^ 64"
    using assms by (simp add: nat_less_real_le flip: of_int_less_iff)
  ultimately have "round_mag (nat \<bar>i\<bar>) 0 \<le> 0x43F0000000000000"
    by (intro round_mag_upper) simp
  then show ?thesis by (simp add: float_of_int_def isFinite_def inf_mag_def)
qed

text \<open>A non-negative duration is a non-negative number of seconds.\<close>

lemma Seconds_nonneg: assumes "0 \<le> sint d" shows "fnonneg (Seconds d)"
proof -
  define n where "n = sint d smod 1000000000"
  have d: "sint d sdiv 1000000000 = sint d div 1000000000" "n = sint d mod 1000000000"
    using assms by (simp_all add: n_def signed_divide_int_def signed_modulo_int_def sgn_if
        minus_div_mult_eq_mod)
  then have n: "0 \<le> n" "n < 1000000000" by simp_all
  have "fnonneg (fdiv (float_of_int n) (float_of_int 1000000000))"
  proof (rule fdiv_nonneg)
    show "mag (float_of_int 1000000000) \<noteq> 0" by (simp add: float_eval)
  qed (use n in \<open>simp_all add: float_of_int_nonneg isFinite_float_of_int\<close>,
       simp_all add: float_of_int_def)
  then show ?thesis
    using assms d by (simp add: Seconds_def Let_def fadd_nonneg float_of_int_nonneg n_def)
qed

end
