(* ===== verification/Service.thy ===== *)
theory Service
  imports Store Go_Time
begin

text \<open>
  The aggregator's business logic (\<open>aggregator/service.go\<close>) and the middleware around it
  (\<open>aggregator/middleware.go\<close>). A Go interface value is a record of operations on a state; a
  decorator takes such a record and returns another one, so \<open>aggregator_svc\<close> is put together as
  \<open>main\<close> does it. \<open>AggregateDistance\<close> takes the wall-clock reading its metrics use as an argument.
  A Prometheus counter is modelled by the number of \<open>Inc\<close> calls, a histogram by the values it
  observes, or, for the duration of a call, by their number. The locale \<open>aggregator\<close> is the
  contract of the interface \<open>Aggregator\<close>; every decorator preserves it.
\<close>

record 's Aggregator =
  ag_AggregateDistance :: "int64 \<Rightarrow> 's \<Rightarrow> Distance \<Rightarrow> (go_error + bool) \<times> 's"
  ag_CalculateInvoice :: "'s \<Rightarrow> go_int \<Rightarrow> (go_error + Invoice) \<times> 's"
  ag_Reconciliation :: "'s \<Rightarrow> EventReconciliation"

section \<open>The invoice aggregator\<close>

text \<open>The constant \<open>3.15\<close>, as the nearest \<open>float64\<close>.\<close>

definition basePrice :: float64 where
  "basePrice = F64 0x4009333333333333"

definition valid_distance :: "Distance \<Rightarrow> bool" where
  "valid_distance d \<longleftrightarrow>
     \<not> (d_EventID d = '''' \<or> sint (d_ProducedAtUnixNano d) \<le> 0 \<or> sint (d_OBUID d) \<le> 0
        \<or> flt (d_Value d) fzero \<or> isNaN (d_Value d) \<or> isInf (d_Value d))"

definition InvoiceAggregator_AggregateDistance ::
    "'s Storer \<Rightarrow> int64 \<Rightarrow> 's \<Rightarrow> Distance \<Rightarrow> (go_error + bool) \<times> 's" where
  "InvoiceAggregator_AggregateDistance store now s d =
     (if \<not> valid_distance d then (Inl ErrInvalidDistance, s) else st_Insert store s d)"

definition InvoiceAggregator_CalculateInvoice ::
    "'s Storer \<Rightarrow> 's \<Rightarrow> go_int \<Rightarrow> (go_error + Invoice) \<times> 's" where
  "InvoiceAggregator_CalculateInvoice store s i =
     (case st_Get store s i of
        Inl err \<Rightarrow> (Inl err, s)
      | Inr t \<Rightarrow>
          (Inr \<lparr>i_OBUID = i, i_TotalDist = t, i_Amount = fmul t basePrice\<rparr>, s))"

definition InvoiceAggregator_Reconciliation :: "'s Storer \<Rightarrow> 's \<Rightarrow> EventReconciliation" where
  "InvoiceAggregator_Reconciliation store s = st_Reconciliation store s"

definition NewInvoiceAggregator :: "'s Storer \<Rightarrow> 's Aggregator" where
  "NewInvoiceAggregator store =
     \<lparr>ag_AggregateDistance = InvoiceAggregator_AggregateDistance store,
      ag_CalculateInvoice = InvoiceAggregator_CalculateInvoice store,
      ag_Reconciliation = InvoiceAggregator_Reconciliation store\<rparr>"

section \<open>Middleware\<close>

record 's metered =
  me_next :: 's
  me_operationDuration :: nat
  me_pipelineDuration :: "float64 list"
  me_eventsApplied :: nat
  me_duplicateEvents :: nat
  me_storeErrors :: nat

definition MetricsMiddleWare_AggregateDistance ::
    "'s Aggregator \<Rightarrow> int64 \<Rightarrow> 's metered \<Rightarrow> Distance \<Rightarrow> (go_error + bool) \<times> 's metered" where
  "MetricsMiddleWare_AggregateDistance next now m d =
     (let (r, s) = ag_AggregateDistance next now (me_next m) d;
          m1 = m\<lparr>me_next := s, me_operationDuration := me_operationDuration m + 1\<rparr>
      in (r, case r of
            Inl err \<Rightarrow>
              (if err \<noteq> ErrInvalidDistance then m1\<lparr>me_storeErrors := me_storeErrors m1 + 1\<rparr> else m1)
          | Inr applied \<Rightarrow>
              (if applied then
                 let m2 = m1\<lparr>me_eventsApplied := me_eventsApplied m1 + 1\<rparr>
                 in if 0 < sint (d_ProducedAtUnixNano d) then
                      let elapsed = Seconds (time_Sub now (d_ProducedAtUnixNano d))
                      in if fle fzero elapsed
                         then m2\<lparr>me_pipelineDuration := me_pipelineDuration m2 @ [elapsed]\<rparr>
                         else m2
                    else m2
               else m1\<lparr>me_duplicateEvents := me_duplicateEvents m1 + 1\<rparr>)))"

definition MetricsMiddleWare_CalculateInvoice ::
    "'s Aggregator \<Rightarrow> 's metered \<Rightarrow> go_int \<Rightarrow> (go_error + Invoice) \<times> 's metered" where
  "MetricsMiddleWare_CalculateInvoice next m i =
     (let (r, s) = ag_CalculateInvoice next (me_next m) i in (r, m\<lparr>me_next := s\<rparr>))"

definition MetricsMiddleWare_Reconciliation ::
    "'s Aggregator \<Rightarrow> 's metered \<Rightarrow> EventReconciliation" where
  "MetricsMiddleWare_Reconciliation next m = ag_Reconciliation next (me_next m)"

definition NewMetricMiddleware :: "'s Aggregator \<Rightarrow> 's metered Aggregator" where
  "NewMetricMiddleware next =
     \<lparr>ag_AggregateDistance = MetricsMiddleWare_AggregateDistance next,
      ag_CalculateInvoice = MetricsMiddleWare_CalculateInvoice next,
      ag_Reconciliation = MetricsMiddleWare_Reconciliation next\<rparr>"

datatype log_entry = LogAggregate "go_error option" | LogInvoice go_int

record 's logged =
  lo_next :: 's
  lo_entries :: "log_entry list"

definition LogMiddleware_AggregateDistance ::
    "'s Aggregator \<Rightarrow> int64 \<Rightarrow> 's logged \<Rightarrow> Distance \<Rightarrow> (go_error + bool) \<times> 's logged" where
  "LogMiddleware_AggregateDistance next now l d =
     (let (r, s) = ag_AggregateDistance next now (lo_next l) d;
          err = (case r of Inl e \<Rightarrow> Some e | Inr _ \<Rightarrow> None)
      in (r, l\<lparr>lo_next := s, lo_entries := lo_entries l @ [LogAggregate err]\<rparr>))"

definition LogMiddleware_CalculateInvoice ::
    "'s Aggregator \<Rightarrow> 's logged \<Rightarrow> go_int \<Rightarrow> (go_error + Invoice) \<times> 's logged" where
  "LogMiddleware_CalculateInvoice next l i =
     (let (r, s) = ag_CalculateInvoice next (lo_next l) i
      in (r, l\<lparr>lo_next := s, lo_entries := lo_entries l @ [LogInvoice i]\<rparr>))"

definition LogMiddleware_Reconciliation ::
    "'s Aggregator \<Rightarrow> 's logged \<Rightarrow> EventReconciliation" where
  "LogMiddleware_Reconciliation next l = ag_Reconciliation next (lo_next l)"

definition NewLogMiddleware :: "'s Aggregator \<Rightarrow> 's logged Aggregator" where
  "NewLogMiddleware next =
     \<lparr>ag_AggregateDistance = LogMiddleware_AggregateDistance next,
      ag_CalculateInvoice = LogMiddleware_CalculateInvoice next,
      ag_Reconciliation = LogMiddleware_Reconciliation next\<rparr>"

text \<open>The service as \<open>main\<close> builds it, and its state when the process starts.\<close>

type_synonym svc_state = "MemoryStore metered logged"

definition aggregator_svc :: "svc_state Aggregator" where
  "aggregator_svc = NewLogMiddleware (NewMetricMiddleware (NewInvoiceAggregator memoryStorer))"

definition aggregator_start :: svc_state where
  "aggregator_start =
     \<lparr>lo_next = \<lparr>me_next = NewMemoryStore, me_operationDuration = 0, me_pipelineDuration = [],
        me_eventsApplied = 0, me_duplicateEvents = 0, me_storeErrors = 0\<rparr>,
      lo_entries = []\<rparr>"

text \<open>A run of aggregation requests, each with the clock reading of its call.\<close>

fun Aggregate_all ::
    "'s Aggregator \<Rightarrow> 's \<Rightarrow> (int64 \<times> Distance) list \<Rightarrow> (go_error + bool) list \<times> 's" where
  "Aggregate_all A s [] = ([], s)"
| "Aggregate_all A s ((now, d) # rs) =
     (let (r, s1) = ag_AggregateDistance A now s d; (out, s2) = Aggregate_all A s1 rs
      in (r # out, s2))"

lemmas service_eval [go_eval] =
  basePrice_def valid_distance_def InvoiceAggregator_AggregateDistance_def
  InvoiceAggregator_CalculateInvoice_def InvoiceAggregator_Reconciliation_def
  NewInvoiceAggregator_def MetricsMiddleWare_AggregateDistance_def
  MetricsMiddleWare_CalculateInvoice_def MetricsMiddleWare_Reconciliation_def
  NewMetricMiddleware_def LogMiddleware_AggregateDistance_def LogMiddleware_CalculateInvoice_def
  LogMiddleware_Reconciliation_def NewLogMiddleware_def aggregator_svc_def aggregator_start_def

section \<open>The contract of the interface\<close>

definition invoice_of :: "ledger \<Rightarrow> go_int \<Rightarrow> go_error + Invoice" where
  "invoice_of L i =
     (case balance L i of
        None \<Rightarrow> Inl (ErrNotFound i)
      | Some t \<Rightarrow> Inr \<lparr>i_OBUID = i, i_TotalDist = t, i_Amount = fmul t basePrice\<rparr>)"

text \<open>The events of a request sequence that count: the first valid request of every identifier.\<close>

definition counted :: "(int64 \<times> Distance) list \<Rightarrow> ledger" where
  "counted rs = first_events {} (filter valid_distance (map snd rs))"

locale aggregator =
  fixes A :: "'s Aggregator"
    and rel :: "ledger \<Rightarrow> 's \<Rightarrow> bool"
  assumes rejects: "rel L s \<Longrightarrow> \<not> valid_distance d \<Longrightarrow>
      \<exists>s'. ag_AggregateDistance A now s d = (Inl ErrInvalidDistance, s') \<and> rel L s'"
    and applies: "rel L s \<Longrightarrow> valid_distance d \<Longrightarrow>
      \<exists>s'. ag_AggregateDistance A now s d = (Inr (fresh L d), s') \<and> rel (record_event L d) s'"
    and invoices: "rel L s \<Longrightarrow>
      \<exists>s'. ag_CalculateInvoice A s i = (invoice_of L i, s') \<and> rel L s'"
    and reconciles: "rel L s \<Longrightarrow> ag_Reconciliation A s = summary L"
begin

lemma aggregate_all_rel:
  assumes "rel L s"
  shows "rel (foldl record_event L (filter valid_distance (map snd rs))) (snd (Aggregate_all A s rs))"
  using assms
proof (induction rs arbitrary: L s)
  case (Cons r rs)
  obtain now d where r: "r = (now, d)" by (cases r)
  obtain s' where "\<exists>x. ag_AggregateDistance A now s d = (x, s')"
    "rel (if valid_distance d then record_event L d else L) s'"
    using rejects [OF Cons.prems, of d now] applies [OF Cons.prems, of d now]
    by (cases "valid_distance d") auto
  with Cons.IH show ?case by (auto simp: r split_beta)
qed simp

lemma aggregate_all_counted: "rel [] s \<Longrightarrow> rel (counted rs) (snd (Aggregate_all A s rs))"
  using aggregate_all_rel [of "[]" s rs] by (simp add: counted_def record_first_events)

lemma invoice_after:
  "rel [] s \<Longrightarrow> fst (ag_CalculateInvoice A (snd (Aggregate_all A s rs)) i) = invoice_of (counted rs) i"
  using invoices [OF aggregate_all_counted, of s rs i] by auto

lemma reconciliation_after:
  "rel [] s \<Longrightarrow> ag_Reconciliation A (snd (Aggregate_all A s rs)) = summary (counted rs)"
  using reconciles aggregate_all_counted by blast

end

text \<open>
  The invoice aggregator turns every store that keeps the contract of \<open>Storer\<close> into a service that
  keeps the contract of \<open>Aggregator\<close>.
\<close>

sublocale storer \<subseteq> invoicing: aggregator "NewInvoiceAggregator S" rel
proof
  fix L s d now i
  assume rel: "rel L s"
  show "\<not> valid_distance d \<Longrightarrow> \<exists>s'. ag_AggregateDistance (NewInvoiceAggregator S) now s d =
      (Inl ErrInvalidDistance, s') \<and> rel L s'"
    using rel by (simp add: NewInvoiceAggregator_def InvoiceAggregator_AggregateDistance_def)
  show "valid_distance d \<Longrightarrow> \<exists>s'. ag_AggregateDistance (NewInvoiceAggregator S) now s d =
      (Inr (fresh L d), s') \<and> rel (record_event L d) s'"
    using insert_record [OF rel, of d]
    by (simp add: NewInvoiceAggregator_def InvoiceAggregator_AggregateDistance_def)
  show "\<exists>s'. ag_CalculateInvoice (NewInvoiceAggregator S) s i = (invoice_of L i, s') \<and> rel L s'"
    using get_balance [OF rel, of i] rel
    by (simp add: NewInvoiceAggregator_def InvoiceAggregator_CalculateInvoice_def invoice_of_def
        split: option.splits)
  show "ag_Reconciliation (NewInvoiceAggregator S) s = summary L"
    using reconciliation_summary [OF rel]
    by (simp add: NewInvoiceAggregator_def InvoiceAggregator_Reconciliation_def)
qed

text \<open>
  The metrics middleware keeps the contract, and its counters agree with the ledger: as many events
  applied as the ledger has, no store error, and at most one latency sample per applied event.
\<close>

definition metered_rel :: "(ledger \<Rightarrow> 's \<Rightarrow> bool) \<Rightarrow> ledger \<Rightarrow> 's metered \<Rightarrow> bool" where
  "metered_rel rel L m \<longleftrightarrow>
     rel L (me_next m) \<and> me_eventsApplied m = length L \<and> me_storeErrors m = 0
     \<and> me_eventsApplied m + me_duplicateEvents m \<le> me_operationDuration m
     \<and> length (me_pipelineDuration m) \<le> length L
     \<and> (\<forall>x \<in> set (me_pipelineDuration m). fnonneg x)"

definition logged_rel :: "(ledger \<Rightarrow> 's \<Rightarrow> bool) \<Rightarrow> ledger \<Rightarrow> 's logged \<Rightarrow> bool" where
  "logged_rel rel L l \<longleftrightarrow> rel L (lo_next l)"

context aggregator
begin

lemma metered_rejects:
  assumes "metered_rel rel L m" "\<not> valid_distance d"
  shows "\<exists>m'. MetricsMiddleWare_AggregateDistance A now m d = (Inl ErrInvalidDistance, m')
    \<and> metered_rel rel L m'"
  using assms rejects [of L "me_next m" d now]
  by (auto simp: MetricsMiddleWare_AggregateDistance_def metered_rel_def)

lemma metered_applies:
  assumes "metered_rel rel L m" "valid_distance d"
  shows "\<exists>m'. MetricsMiddleWare_AggregateDistance A now m d = (Inr (fresh L d), m')
    \<and> metered_rel rel (record_event L d) m'"
proof -
  obtain s' where "ag_AggregateDistance A now (me_next m) d = (Inr (fresh L d), s')"
    "rel (record_event L d) s'"
    using assms applies [of L "me_next m" d now] by (auto simp: metered_rel_def)
  with assms(1) show ?thesis
    by (auto simp: MetricsMiddleWare_AggregateDistance_def metered_rel_def Let_def record_event_def
        fnonneg_def fle_def flt_def)
qed

lemma metered_aggregator: "aggregator (NewMetricMiddleware A) (metered_rel rel)"
proof
  fix L m d now i
  assume rel: "metered_rel rel L m"
  show "\<not> valid_distance d \<Longrightarrow> \<exists>m'. ag_AggregateDistance (NewMetricMiddleware A) now m d =
      (Inl ErrInvalidDistance, m') \<and> metered_rel rel L m'"
    using metered_rejects [OF rel] by (simp add: NewMetricMiddleware_def)
  show "valid_distance d \<Longrightarrow> \<exists>m'. ag_AggregateDistance (NewMetricMiddleware A) now m d =
      (Inr (fresh L d), m') \<and> metered_rel rel (record_event L d) m'"
    using metered_applies [OF rel] by (simp add: NewMetricMiddleware_def)
  show "\<exists>m'. ag_CalculateInvoice (NewMetricMiddleware A) m i = (invoice_of L i, m')
      \<and> metered_rel rel L m'"
    using rel invoices [of L "me_next m" i]
    by (auto simp: NewMetricMiddleware_def MetricsMiddleWare_CalculateInvoice_def metered_rel_def)
  show "ag_Reconciliation (NewMetricMiddleware A) m = summary L"
    using rel reconciles [of L "me_next m"]
    by (simp add: NewMetricMiddleware_def MetricsMiddleWare_Reconciliation_def metered_rel_def)
qed

lemma logged_aggregator: "aggregator (NewLogMiddleware A) (logged_rel rel)"
proof
  fix L l d now i
  assume rel: "logged_rel rel L l"
  show "\<not> valid_distance d \<Longrightarrow> \<exists>l'. ag_AggregateDistance (NewLogMiddleware A) now l d =
      (Inl ErrInvalidDistance, l') \<and> logged_rel rel L l'"
    using rel rejects [of L "lo_next l" d now]
    by (auto simp: NewLogMiddleware_def LogMiddleware_AggregateDistance_def logged_rel_def)
  show "valid_distance d \<Longrightarrow> \<exists>l'. ag_AggregateDistance (NewLogMiddleware A) now l d =
      (Inr (fresh L d), l') \<and> logged_rel rel (record_event L d) l'"
    using rel applies [of L "lo_next l" d now]
    by (auto simp: NewLogMiddleware_def LogMiddleware_AggregateDistance_def logged_rel_def)
  show "\<exists>l'. ag_CalculateInvoice (NewLogMiddleware A) l i = (invoice_of L i, l')
      \<and> logged_rel rel L l'"
    using rel invoices [of L "lo_next l" i]
    by (auto simp: NewLogMiddleware_def LogMiddleware_CalculateInvoice_def logged_rel_def)
  show "ag_Reconciliation (NewLogMiddleware A) l = summary L"
    using rel reconciles [of L "lo_next l"]
    by (simp add: NewLogMiddleware_def LogMiddleware_Reconciliation_def logged_rel_def)
qed

end

section \<open>The running service\<close>

definition svc_rel :: "ledger \<Rightarrow> svc_state \<Rightarrow> bool" where
  "svc_rel = logged_rel (metered_rel store_rel)"

interpretation svc: aggregator aggregator_svc svc_rel
  unfolding aggregator_svc_def svc_rel_def
  by (rule aggregator.logged_aggregator, rule aggregator.metered_aggregator,
      rule memory.invoicing.aggregator_axioms)

lemma svc_rel_start: "svc_rel [] aggregator_start"
  by (simp add: svc_rel_def logged_rel_def metered_rel_def aggregator_start_def store_rel_new)

section \<open>Runs of the service\<close>

text \<open>What is counted of a longer run, and the invoices before and after it.\<close>

lemma counted_append:
  "\<exists>M. counted (rs @ rs') = counted rs @ M \<and> set M \<subseteq> {d \<in> snd ` set rs'. valid_distance d}
     \<and> set (ids M) \<inter> set (ids (filter valid_distance (map snd rs))) = {}"
proof -
  let ?v = "\<lambda>xs. filter valid_distance (map snd xs)"
  let ?M = "first_events (set (ids (counted rs))) (?v rs')"
  have "counted (rs @ rs') = counted rs @ ?M"
    using record_first_events [of "[]" "?v rs @ ?v rs'"] record_first_events [of "[]" "?v rs"]
      record_first_events [of "counted rs" "?v rs'"] by (simp add: counted_def)
  moreover have "set ?M \<subseteq> {d \<in> snd ` set rs'. valid_distance d}"
    using set_first_events [of _ "?v rs'"] by fastforce
  moreover have "set (ids (counted rs)) = set (ids (?v rs))"
    using distinct_first_events [of "{}" "?v rs"] by (simp add: counted_def)
  then have "set (ids ?M) \<inter> set (ids (?v rs)) = {}"
    using distinct_first_events [of "set (ids (counted rs))" "?v rs'"] by auto
  ultimately show ?thesis by blast
qed

lemma counted_valid: "d \<in> set (counted rs) \<Longrightarrow> valid_distance d"
  using set_first_events [of "{}" "filter valid_distance (map snd rs)"] by (auto simp: counted_def)

lemma valid_distance_nonneg: "valid_distance d \<Longrightarrow> fnonneg (d_Value d) \<and> isFinite (d_Value d)"
  using float_class [of "d_Value d"]
  by (auto simp: valid_distance_def fnonneg_def)

lemma counted_nonneg: "nonneg_ledger (counted rs)"
  using counted_valid valid_distance_nonneg by (auto simp: nonneg_ledger_def)

lemma basePrice_facts: "fnonneg basePrice" "isFinite basePrice" "mag basePrice \<noteq> 0"
  by (simp_all add: basePrice_def fnonneg_iff float_eval)

lemma svc_invoice:
  "fst (ag_CalculateInvoice aggregator_svc (snd (Aggregate_all aggregator_svc aggregator_start rs)) i) =
     invoice_of (counted rs) i"
  using svc.invoice_after [OF svc_rel_start] .

lemma invoice_of_nonneg:
  assumes "nonneg_ledger L" "invoice_of L i = Inr bill"
  shows "i_OBUID bill = i" "balance L i = Some (i_TotalDist bill)" "i_Amount bill = fmul (i_TotalDist bill) basePrice"
    "fnonneg (i_TotalDist bill)" "fnonneg (i_Amount bill)"
  using assms balance_nonneg [of L i] fmul_nonneg [OF _ basePrice_facts]
  by (auto simp: invoice_of_def split: option.splits)

lemma invoice_of_mono:
  assumes "nonneg_ledger (L @ M)" "invoice_of L i = Inr bill"
  shows "\<exists>bill'. invoice_of (L @ M) i = Inr bill' \<and> fle (i_TotalDist bill) (i_TotalDist bill')
    \<and> fle (i_Amount bill) (i_Amount bill')"
proof -
  have b: "balance L i = Some (i_TotalDist bill)" "i_Amount bill = fmul (i_TotalDist bill) basePrice"
    "fnonneg (i_TotalDist bill)"
    using invoice_of_nonneg [of L i bill] assms by auto
  obtain t where t: "balance (L @ M) i = Some t" "fle (i_TotalDist bill) t" "fnonneg t"
    using balance_increasing [OF assms(1) b(1)] balance_nonneg [OF assms(1)] by blast
  have "fle (fmul (i_TotalDist bill) basePrice) (fmul t basePrice)"
    by (rule fmul_mono [OF t(2) b(3) t(3) basePrice_facts])
  then show ?thesis using b t by (auto simp: invoice_of_def)
qed

text \<open>The counters of the metrics middleware over a run.\<close>

definition duplicates :: "(int64 \<times> Distance) list \<Rightarrow> nat" where
  "duplicates rs = length (filter valid_distance (map snd rs)) - length (counted rs)"

lemma length_first_events: "length (first_events seen ds) \<le> length ds"
  by (induction seen ds rule: first_events.induct) auto

lemma metered_step:
  assumes "svc_rel L s"
  shows "let m = lo_next s; m' = lo_next (snd (ag_AggregateDistance aggregator_svc now s d)) in
    me_operationDuration m' = me_operationDuration m + 1 \<and> me_storeErrors m' = me_storeErrors m \<and>
    me_eventsApplied m' = me_eventsApplied m + (if valid_distance d \<and> fresh L d then 1 else 0) \<and>
    me_duplicateEvents m' = me_duplicateEvents m + (if valid_distance d \<and> \<not> fresh L d then 1 else 0)"
proof -
  let ?I = "NewInvoiceAggregator memoryStorer" and ?st = "me_next (lo_next s)"
  have rel: "store_rel L ?st" using assms by (simp add: svc_rel_def logged_rel_def metered_rel_def)
  have "fst (ag_AggregateDistance ?I now ?st d) =
      (if valid_distance d then Inr (fresh L d) else Inl ErrInvalidDistance)"
    using memory.invoicing.rejects [OF rel, of d now] memory.invoicing.applies [OF rel, of d now] by auto
  then show ?thesis
    by (auto simp: aggregator_svc_def NewLogMiddleware_def LogMiddleware_AggregateDistance_def
        NewMetricMiddleware_def MetricsMiddleWare_AggregateDistance_def Let_def split_beta)
qed

lemma metered_run:
  assumes "svc_rel L s"
  shows "let m = lo_next s; m' = lo_next (snd (Aggregate_all aggregator_svc s rs));
      vs = filter valid_distance (map snd rs); k = length (first_events (set (ids L)) vs) in
    me_operationDuration m' = me_operationDuration m + length rs \<and> me_storeErrors m' = me_storeErrors m \<and>
    me_eventsApplied m' = me_eventsApplied m + k \<and>
    me_duplicateEvents m' + k = me_duplicateEvents m + length vs"
  using assms
proof (induction rs arbitrary: L s)
  case (Cons r rs)
  obtain now d where r: "r = (now, d)" by (cases r)
  let ?s = "snd (ag_AggregateDistance aggregator_svc now s d)"
  have "svc_rel (if valid_distance d then record_event L d else L) ?s"
    using svc.rejects [OF Cons.prems, of d now] svc.applies [OF Cons.prems, of d now] by auto
  note IH = Cons.IH [OF this]
  note step = metered_step [OF Cons.prems, of now d]
  consider "\<not> valid_distance d" | "valid_distance d" "fresh L d" | "valid_distance d" "\<not> fresh L d" by blast
  then show ?case
  proof cases
    case 1
    then show ?thesis using IH step by (simp add: r Let_def split_beta)
  next
    case 2
    then have "d_EventID d \<noteq> ''''" "d_EventID d \<notin> set (ids L)" by (auto simp: valid_distance_def fresh_def)
    with 2 show ?thesis using IH step by (simp add: r Let_def split_beta record_event_def ids_Cons)
  next
    case 3
    then have "d_EventID d \<noteq> ''''" "d_EventID d \<in> set (ids L)" by (auto simp: fresh_def)
    with 3 show ?thesis using IH step by (simp add: r Let_def split_beta record_event_def)
  qed
qed simp

section \<open>Properties of the service\<close>

text \<open>
  C8: After any sequence of aggregation requests, with any clock, the invoice of an OBU is the running
  sum of the first valid request of every event identifier times the base price, and an error if
  there is none; the reconciliation summary is that of the same requests.
\<close>

theorem service_invoices_exactly_once:
  "fst (ag_CalculateInvoice aggregator_svc (snd (Aggregate_all aggregator_svc aggregator_start rs)) i) =
     invoice_of (counted rs) i
   \<and> ag_Reconciliation aggregator_svc (snd (Aggregate_all aggregator_svc aggregator_start rs)) = summary (counted rs)"
  using svc_invoice svc.reconciliation_after [OF svc_rel_start] by blast

definition request_a :: "int64 \<times> Distance" where
  "request_a = (1000, event_a\<lparr>d_Value := F64 0x4014000000000000\<rparr>)"

definition request_b :: "int64 \<times> Distance" where
  "request_b = (2000, event_b\<lparr>d_Value := F64 0x4000000000000000\<rparr>)"

lemmas request_eval [go_eval] = event_a_def event_b_def request_a_def request_b_def

text \<open>
  Requests for events that were already accepted, as a retry or a redelivery makes them, change
  no invoice and no reconciliation summary, even if they carry another distance or OBU.
\<close>

theorem service_replay:
  assumes "\<forall>(now, d) \<in> set rs'. valid_distance d \<longrightarrow> d_EventID d \<in> set (ids (filter valid_distance (map snd rs)))"
  shows "fst (ag_CalculateInvoice aggregator_svc (snd (Aggregate_all aggregator_svc aggregator_start (rs @ rs'))) i) =
      fst (ag_CalculateInvoice aggregator_svc (snd (Aggregate_all aggregator_svc aggregator_start rs)) i)
    \<and> ag_Reconciliation aggregator_svc (snd (Aggregate_all aggregator_svc aggregator_start (rs @ rs'))) =
      ag_Reconciliation aggregator_svc (snd (Aggregate_all aggregator_svc aggregator_start rs))"
proof -
  obtain M where M: "counted (rs @ rs') = counted rs @ M" "set M \<subseteq> {d \<in> snd ` set rs'. valid_distance d}"
    "set (ids M) \<inter> set (ids (filter valid_distance (map snd rs))) = {}"
    using counted_append by blast
  have "M = []"
  proof (rule ccontr)
    assume "M \<noteq> []"
    then obtain d where "d \<in> set M" by (cases M) auto
    then have "d_EventID d \<in> set (ids M)" using M(2) by (auto simp: ids_def valid_distance_def)
    then show False using M(2,3) assms \<open>d \<in> set M\<close> by fastforce
  qed
  then show ?thesis
    using svc_invoice svc.reconciliation_after [OF svc_rel_start] M(1) by simp
qed

theorem service_replay_witness:
  "valid_distance (snd request_a) \<and>
   fst (ag_CalculateInvoice aggregator_svc
     (snd (Aggregate_all aggregator_svc aggregator_start ([request_a, request_b] @ [request_a]))) 1) =
   fst (ag_CalculateInvoice aggregator_svc
     (snd (Aggregate_all aggregator_svc aggregator_start [request_a, request_b])) 1)"
proof -
  have "valid_distance (snd request_a)" by (simp add: go_eval float_eval)
  moreover have "\<forall>(now, d) \<in> set [request_a]. valid_distance d \<longrightarrow>
      d_EventID d \<in> set (ids (filter valid_distance (map snd [request_a, request_b])))"
    by (simp add: go_eval float_eval)
  ultimately show ?thesis using service_replay [of "[request_a]" "[request_a, request_b]" 1] by blast
qed

text \<open>
  C31: Invoices never go down: whatever is requested after an OBU has an invoice, it keeps one, and
  neither its total distance nor its amount decreases.
\<close>

theorem service_invoice_monotone:
  assumes "fst (ag_CalculateInvoice aggregator_svc (snd (Aggregate_all aggregator_svc aggregator_start rs)) i) = Inr bill"
  shows "\<exists>bill'. fst (ag_CalculateInvoice aggregator_svc
        (snd (Aggregate_all aggregator_svc aggregator_start (rs @ rs'))) i) = Inr bill'
      \<and> fle (i_TotalDist bill) (i_TotalDist bill') \<and> fle (i_Amount bill) (i_Amount bill')"
proof -
  obtain M where M: "counted (rs @ rs') = counted rs @ M" using counted_append by blast
  show ?thesis
    using invoice_of_mono [of "counted rs" M i bill] counted_nonneg [of "rs @ rs'"] M assms
    unfolding svc_invoice M by simp
qed

theorem service_invoice_monotone_witness:
  "\<exists>bill bill'. fst (ag_CalculateInvoice aggregator_svc (snd (Aggregate_all aggregator_svc aggregator_start [request_a])) 1) = Inr bill
     \<and> i_TotalDist bill = F64 0x4014000000000000
     \<and> fst (ag_CalculateInvoice aggregator_svc
          (snd (Aggregate_all aggregator_svc aggregator_start ([request_a] @ [request_b]))) 1) = Inr bill'
     \<and> fle (i_TotalDist bill) (i_TotalDist bill') \<and> fle (i_Amount bill) (i_Amount bill')"
proof -
  let ?bill = "\<lparr>i_OBUID = 1, i_TotalDist = F64 0x4014000000000000, i_Amount = F64 0x402F800000000000\<rparr>"
  have inv: "fst (ag_CalculateInvoice aggregator_svc (snd (Aggregate_all aggregator_svc aggregator_start [request_a])) 1) = Inr ?bill"
    unfolding svc_invoice by (simp add: counted_def invoice_of_def go_eval float_eval)
  show ?thesis using service_invoice_monotone [OF inv, of "[request_b]"] inv by fastforce
qed

text \<open>
  C32: An invoice is well formed: it names the OBU that was asked for, its total and its amount are
  not NaN and not negative, and the amount is the correctly rounded product of the total and the base
  price whenever the amount is finite.
\<close>

theorem service_invoice_wellformed:
  assumes "fst (ag_CalculateInvoice aggregator_svc (snd (Aggregate_all aggregator_svc aggregator_start rs)) i) = Inr bill"
  shows "i_OBUID bill = i \<and> fnonneg (i_TotalDist bill) \<and> fnonneg (i_Amount bill)
    \<and> (isFinite (i_TotalDist bill) \<longrightarrow> isFinite (i_Amount bill) \<longrightarrow>
        (\<forall>z. \<bar>fl (i_Amount bill) - fl (i_TotalDist bill) * fl basePrice\<bar>
              \<le> \<bar>fl z - fl (i_TotalDist bill) * fl basePrice\<bar>))"
proof -
  note inv = invoice_of_nonneg [OF counted_nonneg assms [unfolded svc_invoice]]
  show ?thesis using inv fmul_nearest [OF _ basePrice_facts(2)] by simp
qed

theorem service_invoice_wellformed_witness:
  "fst (ag_CalculateInvoice aggregator_svc (snd (Aggregate_all aggregator_svc aggregator_start [request_a])) 1) =
     Inr \<lparr>i_OBUID = 1, i_TotalDist = F64 0x4014000000000000, i_Amount = F64 0x402F800000000000\<rparr>
   \<and> fnonneg (F64 0x402F800000000000)"
proof -
  have inv: "fst (ag_CalculateInvoice aggregator_svc (snd (Aggregate_all aggregator_svc aggregator_start [request_a])) 1) =
      Inr \<lparr>i_OBUID = 1, i_TotalDist = F64 0x4014000000000000, i_Amount = F64 0x402F800000000000\<rparr>"
    unfolding svc_invoice by (simp add: counted_def invoice_of_def go_eval float_eval)
  show ?thesis using service_invoice_wellformed [OF inv] inv by simp
qed

text \<open>Requests for other OBUs do not change the invoice of an OBU.\<close>

theorem service_obu_isolation:
  assumes "\<forall>(now, d) \<in> set rs'. d_OBUID d \<noteq> i"
  shows "fst (ag_CalculateInvoice aggregator_svc (snd (Aggregate_all aggregator_svc aggregator_start (rs @ rs'))) i) =
    fst (ag_CalculateInvoice aggregator_svc (snd (Aggregate_all aggregator_svc aggregator_start rs)) i)"
proof -
  obtain M where M: "counted (rs @ rs') = counted rs @ M" "set M \<subseteq> {d \<in> snd ` set rs'. valid_distance d}"
    using counted_append by blast
  have "values_of M i = []" using M(2) assms by (fastforce simp: values_of_def filter_empty_conv)
  then show ?thesis unfolding svc_invoice M(1) by (simp add: invoice_of_def balance_def)
qed

theorem service_obu_isolation_witness:
  "d_OBUID (snd request_b) \<noteq> 1 \<and>
   fst (ag_CalculateInvoice aggregator_svc (snd (Aggregate_all aggregator_svc aggregator_start ([request_a] @ [request_b]))) 1) =
   fst (ag_CalculateInvoice aggregator_svc (snd (Aggregate_all aggregator_svc aggregator_start [request_a])) 1)"
proof -
  have "d_OBUID (snd request_b) \<noteq> 1" "\<forall>(now, d) \<in> set [request_b]. d_OBUID d \<noteq> 1"
    by (simp_all add: go_eval)
  then show ?thesis using service_obu_isolation [of "[request_b]" 1 "[request_a]"] by blast
qed

text \<open>
  A request without an event identifier, with a timestamp or an OBU that is not positive, or with
  a distance that is negative, infinite or NaN is refused with \<open>ErrInvalidDistance\<close> in every state of
  the service, and neither the store nor a counter of events or store errors changes.
\<close>

theorem service_rejects_invalid:
  assumes "d_EventID d = '''' \<or> sint (d_ProducedAtUnixNano d) \<le> 0 \<or> sint (d_OBUID d) \<le> 0
    \<or> \<not> (fnonneg (d_Value d) \<and> isFinite (d_Value d))"
  shows "fst (ag_AggregateDistance aggregator_svc now s d) = Inl ErrInvalidDistance
    \<and> (let m = lo_next s; m' = lo_next (snd (ag_AggregateDistance aggregator_svc now s d))
       in me_next m' = me_next m \<and> me_eventsApplied m' = me_eventsApplied m
          \<and> me_duplicateEvents m' = me_duplicateEvents m \<and> me_storeErrors m' = me_storeErrors m
          \<and> me_pipelineDuration m' = me_pipelineDuration m)"
proof -
  have "\<not> valid_distance d" using assms valid_distance_nonneg by (auto simp: valid_distance_def)
  then show ?thesis
    by (simp add: aggregator_svc_def NewLogMiddleware_def LogMiddleware_AggregateDistance_def
        NewMetricMiddleware_def MetricsMiddleWare_AggregateDistance_def NewInvoiceAggregator_def
        InvoiceAggregator_AggregateDistance_def Let_def)
qed

theorem service_rejects_invalid_witness:
  "\<not> isFinite Inf \<and> fst (ag_AggregateDistance aggregator_svc 0 aggregator_start (event_a\<lparr>d_Value := Inf\<rparr>)) =
     Inl ErrInvalidDistance"
proof -
  have "\<not> isFinite Inf" by (simp add: float_eval)
  then show ?thesis using service_rejects_invalid [of "event_a\<lparr>d_Value := Inf\<rparr>" 0 aggregator_start] by simp
qed

text \<open>
  The metrics of a run add up: every request is timed, every first valid request of an identifier
  counts as applied, every further one as a duplicate, and there are no store errors.
\<close>

theorem service_metrics_account:
  "let m = lo_next (snd (Aggregate_all aggregator_svc aggregator_start rs)) in
     me_operationDuration m = length rs \<and> me_eventsApplied m = length (counted rs)
     \<and> me_duplicateEvents m = duplicates rs \<and> me_storeErrors m = 0"
  using metered_run [OF svc_rel_start, of rs]
  by (auto simp: Let_def duplicates_def counted_def) (simp_all add: aggregator_start_def)

text \<open>
  A latency sample is recorded only for an applied event, at most one for each, and no sample is
  negative or NaN, even if the clock of the aggregator is behind that of the OBU.
\<close>

theorem service_latency_samples:
  "let m = lo_next (snd (Aggregate_all aggregator_svc aggregator_start rs)) in
     length (me_pipelineDuration m) \<le> me_eventsApplied m \<and> list_all fnonneg (me_pipelineDuration m)"
  using svc.aggregate_all_counted [OF svc_rel_start, of rs]
  by (simp add: Let_def svc_rel_def logged_rel_def metered_rel_def list_all_iff)

lemma basePrice_between:
  "fl basePrice \<le> 315 / 100" "315 / 100 - fl basePrice \<le> 1 / 2 ^ 52"
  "315 / 100 - fl basePrice \<le> mval (Suc (mag basePrice)) - 315 / 100"
  by (simp_all add: basePrice_def fl_def mval_def float_eval power_int_def power_one_over)

text \<open>
  The constant \<open>basePrice\<close> is a \<open>float64\<close> nearest to 3.15: no other one is closer, and it is off by
  less than 2^-52.
\<close>

theorem basePrice_nearest:
  "\<bar>fl basePrice - 315 / 100\<bar> \<le> 1 / 2 ^ 52 \<and> \<bar>fl basePrice - 315 / 100\<bar> \<le> \<bar>fl z - 315 / 100\<bar>"
proof -
  note b = basePrice_between
  have base: "fl basePrice = mval (mag basePrice)" using basePrice_facts(1) by (rule fnonneg_fl)
  have z: "fl z \<le> mval (mag z)" using mval_nonneg [of "mag z"] by (simp add: fl_def)
  show ?thesis
  proof (cases "mag z \<le> mag basePrice")
    case True
    then have "fl z \<le> fl basePrice" using base z mval_le_iff [of "mag z" "mag basePrice"] by simp
    then show ?thesis using b(1,2) by linarith
  next
    case False
    then have "mval (Suc (mag basePrice)) \<le> mval (mag z)" by (simp add: mval_le_iff)
    then have "fl z \<le> 0 \<or> mval (Suc (mag basePrice)) \<le> fl z"
      using mval_nonneg [of "mag z"] by (auto simp: fl_def)
    moreover have "(1::real) / 2 ^ 52 \<le> 1" by simp
    ultimately show ?thesis using b by (elim disjE) linarith+
  qed
qed

end
