(* ===== verification/Go_Strings.thy ===== *)
theory Go_Strings
  imports Toll_Prelude
begin

text \<open>
  The string functions of the standard library that the services use: \<open>strconv.Itoa\<close>,
  \<open>strconv.Atoi\<close>, and the UTF-8 coercion that \<open>encoding/json\<close> applies to every string it writes or
  reads. The lemmas show that \<open>Atoi\<close> inverts \<open>Itoa\<close>, that it accepts exactly the decimal spellings of
  the 64-bit range, and that the coercion is idempotent.
\<close>

section \<open>Decimal integers\<close>

definition digit :: "nat \<Rightarrow> char" where
  "digit n = ''0123456789'' ! n"

definition is_digit :: "char \<Rightarrow> bool" where
  "is_digit c \<longleftrightarrow> 48 \<le> (of_char c :: nat) \<and> (of_char c :: nat) \<le> 57"

definition digit_val :: "char \<Rightarrow> nat" where
  "digit_val c = of_char c - 48"

fun show_nat :: "nat \<Rightarrow> string" where
  "show_nat n = (if n < 10 then [digit n] else show_nat (n div 10) @ [digit (n mod 10)])"

declare show_nat.simps [simp del]

definition read_nat :: "string \<Rightarrow> nat" where
  "read_nat s = foldl (\<lambda>n c. 10 * n + digit_val c) 0 s"

definition Itoa :: "go_int \<Rightarrow> string" where
  "Itoa i = (if sint i < 0 then ''-'' @ show_nat (nat (- sint i)) else show_nat (nat (sint i)))"

text \<open>A sign, then at least one digit and nothing else; \<open>None\<close> is an error of either kind.\<close>

definition Atoi :: "string \<Rightarrow> go_int option" where
  "Atoi s =
     (let (minus, ds) = (case s of
            c # cs \<Rightarrow> (if c = CHR ''-'' then (True, cs) else if c = CHR ''+'' then (False, cs) else (False, s))
          | [] \<Rightarrow> (False, []));
          v = (if minus then - int (read_nat ds) else int (read_nat ds))
      in if ds \<noteq> [] \<and> list_all is_digit ds \<and> - (2 ^ 63) \<le> v \<and> v < 2 ^ 63
         then Some (word_of_int v) else None)"

lemma show_nat_eval [go_eval]:
  "show_nat 0 = ''0''" "show_nat (Suc 0) = ''1''" "show_nat 1 = ''1''"
  "show_nat (numeral w) = (if numeral w < (10::nat) then [digit (numeral w)]
     else show_nat (numeral w div 10) @ [digit (numeral w mod 10)])"
  by (subst show_nat.simps; simp add: digit_def)+

lemmas strconv_eval [go_eval] =
  digit_def is_digit_def digit_val_def read_nat_def Itoa_def Atoi_def

lemma of_char_digit: assumes "n < 10" shows "of_char (digit n) = 48 + n"
proof -
  have "n \<in> {0, 1, 2, 3, 4, 5, 6, 7, 8, 9}" using assms by auto
  then show ?thesis by (auto simp: digit_def)
qed

lemma show_nat_digits: "list_all is_digit (show_nat n) \<and> show_nat n \<noteq> []"
proof (induction n rule: show_nat.induct)
  case (1 n)
  then show ?case by (subst (1 2) show_nat.simps) (auto simp: list_all_iff is_digit_def of_char_digit)
qed

lemma read_show_nat: "read_nat (show_nat n) = n"
proof (induction n rule: show_nat.induct)
  case (1 n)
  then show ?case
    by (subst show_nat.simps) (auto simp: read_nat_def digit_val_def of_char_digit)
qed

lemma Atoi_Itoa: "Atoi (Itoa i) = Some i"
proof -
  have range: "- (2 ^ 63) \<le> sint i" "sint i < 2 ^ 63"
    using sint_range_size [of i] by (simp_all add: word_size)
  have no_sign: "c \<noteq> CHR ''-'' \<and> c \<noteq> CHR ''+''" if "is_digit c" for c
    using that by (auto simp: is_digit_def)
  show ?thesis
  proof (cases "sint i < 0")
    case True
    then show ?thesis
      using range show_nat_digits [of "nat (- sint i)"] by (simp add: Itoa_def Atoi_def read_show_nat)
  next
    case False
    obtain c cs where c: "show_nat (nat (sint i)) = c # cs" "is_digit c"
      using show_nat_digits [of "nat (sint i)"] by (cases "show_nat (nat (sint i))") auto
    have "list_all is_digit (c # cs)" "read_nat (c # cs) = nat (sint i)"
      using show_nat_digits [of "nat (sint i)"] read_show_nat [of "nat (sint i)"] by (simp_all flip: c(1))
    with c False range no_sign [of c] show ?thesis by (simp add: Itoa_def Atoi_def)
  qed
qed

lemma Itoa_not_Nil: "Itoa i \<noteq> ''''"
  using Atoi_Itoa [of i] by (auto simp: Atoi_def Let_def)

lemma Itoa_inject: "Itoa i = Itoa j \<longleftrightarrow> i = j"
  by (metis Atoi_Itoa option.inject)

section \<open>UTF-8\<close>

text \<open>
  \<open>rune_len s\<close> is the length of the well-formed UTF-8 encoding at the head of \<open>s\<close>, and 0 if there is
  none. A byte that starts no encoding is replaced by the encoding of U+FFFD.
\<close>

definition byte_in :: "nat \<Rightarrow> nat \<Rightarrow> char \<Rightarrow> bool" where
  "byte_in lo hi c \<longleftrightarrow> lo \<le> (of_char c :: nat) \<and> (of_char c :: nat) \<le> hi"

abbreviation cont :: "char \<Rightarrow> bool" where
  "cont \<equiv> byte_in 0x80 0xBF"

text \<open>The length a first byte announces, and the range of the second byte it allows.\<close>

definition need :: "char \<Rightarrow> nat" where
  "need a =
     (if byte_in 0 0x7F a then 1 else if byte_in 0xC2 0xDF a then 2
      else if byte_in 0xE0 0xEF a then 3 else if byte_in 0xF0 0xF4 a then 4 else 0)"

definition second_ok :: "char \<Rightarrow> char \<Rightarrow> bool" where
  "second_ok a b =
     (if byte_in 0xE0 0xE0 a then byte_in 0xA0 0xBF b
      else if byte_in 0xED 0xED a then byte_in 0x80 0x9F b
      else if byte_in 0xF0 0xF0 a then byte_in 0x90 0xBF b
      else if byte_in 0xF4 0xF4 a then byte_in 0x80 0x8F b
      else cont b)"

definition tail_ok :: "char \<Rightarrow> string \<Rightarrow> bool" where
  "tail_ok a r \<longleftrightarrow> (case r of [] \<Rightarrow> True | b # cs \<Rightarrow> second_ok a b \<and> list_all cont cs)"

fun rune_len :: "string \<Rightarrow> nat" where
  "rune_len [] = 0"
| "rune_len (a # r) =
     (if need a \<le> Suc (length r) \<and> tail_ok a (take (need a - 1) r) then need a else 0)"

definition rune_error :: string where
  "rune_error = [CHR 0xEF, CHR 0xBF, CHR 0xBD]"

function coerce :: "string \<Rightarrow> string" where
  "coerce [] = []"
| "coerce (a # s) =
     (let n = rune_len (a # s)
      in if n = 0 then rune_error @ coerce s else take n (a # s) @ coerce (drop n (a # s)))"
  by pat_completeness auto
termination
  by (relation "measure length") auto

declare coerce.simps(2) [simp del]

definition utf8 :: "string \<Rightarrow> bool" where
  "utf8 s \<longleftrightarrow> coerce s = s"

lemmas utf8_eval [go_eval] =
  byte_in_def need_def second_ok_def tail_ok_def rune_error_def utf8_def coerce.simps(2)

lemma rune_len_le: "rune_len s \<le> length s"
  by (cases s rule: rune_len.cases) auto

lemma rune_len_append: "rune_len s \<noteq> 0 \<Longrightarrow> rune_len (take (rune_len s) s @ t) = rune_len s"
proof (cases s)
  case (Cons a r)
  assume "rune_len s \<noteq> 0"
  then have n: "rune_len s = need a" "need a \<le> Suc (length r)" "tail_ok a (take (need a - 1) r)" "need a \<noteq> 0"
    using Cons by (auto split: if_splits)
  then have "take (need a) s @ t = a # (take (need a - 1) r @ t)" using Cons by (cases "need a") auto
  with n show ?thesis by simp
qed simp

lemma coerce_rune:
  assumes "rune_len s = n" "n \<noteq> 0" shows "coerce (take n s @ t) = take n s @ coerce t"
proof -
  have len: "length (take n s) = n" using rune_len_le [of s] assms(1) by simp
  obtain a r where ar: "take n s @ t = a # r" using len assms(2) by (cases "take n s @ t") auto
  have "rune_len (a # r) = n" using rune_len_append [of s t] assms by (simp flip: ar)
  then have "coerce (a # r) = take n (a # r) @ coerce (drop n (a # r))" using assms(2)
    by (simp add: coerce.simps(2) Let_def del: rune_len.simps)
  then show ?thesis using len by (simp flip: ar)
qed

lemma coerce_rune_error: "coerce (rune_error @ t) = rune_error @ coerce t"
  using coerce_rune [of rune_error 3 t]
  by (simp add: rune_error_def byte_in_def need_def second_ok_def tail_ok_def)

lemma coerce_idem: "coerce (coerce s) = coerce s"
proof (induction s rule: coerce.induct)
  case (2 a s)
  show ?case
  proof (cases "rune_len (a # s) = 0")
    case True
    with 2 show ?thesis by (simp add: coerce.simps(2) Let_def coerce_rune_error del: rune_len.simps)
  next
    case False
    with 2 show ?thesis
      using coerce_rune [OF refl False] by (simp add: coerce.simps(2) Let_def del: rune_len.simps)
  qed
qed simp

lemma utf8_coerce [simp]: "utf8 (coerce s)"
  by (simp add: utf8_def coerce_idem)

lemma utf8_ascii: "list_all (byte_in 0 0x7F) s \<Longrightarrow> utf8 s"
  unfolding utf8_def by (induction s) (simp_all add: coerce.simps(2) Let_def need_def tail_ok_def)

section \<open>Settings\<close>

text \<open>The helper every \<open>main\<close> reads its environment with.\<close>

definition envOr :: "(string \<Rightarrow> string) \<Rightarrow> string \<Rightarrow> string \<Rightarrow> string" where
  "envOr getenv key fallback = (let v = getenv key in if v \<noteq> '''' then v else fallback)"

lemmas envOr_eval [go_eval] = envOr_def

text \<open>What \<open>log.Printf\<close> writes about an error, if there is one, and the server of a process for its metrics.\<close>

definition log_error :: "string \<Rightarrow> string option \<Rightarrow> string list" where
  "log_error what err = (case err of None \<Rightarrow> [] | Some e \<Rightarrow> [what @ '': '' @ e])"

record http_server =
  sv_Addr :: string
  sv_ReadHeaderTimeout :: int64

end
