(* ===== verification/Json.thy ===== *)
theory Json
  imports Toll_Types Go_Strings
begin

text \<open>
  Package \<open>encoding/json\<close> on the types of the services, at the level of JSON documents: a document is
  a tree whose numbers are decimal literals and whose strings are byte strings; the spelling of a
  tree as text is left out. Encoding writes the fields in declaration order, coerces strings to
  UTF-8, writes a \<open>float64\<close> as the shortest decimal that reads back to it, and fails on NaN and
  infinities. Decoding looks keys up exactly, then ignoring case, skips unknown ones, leaves a field
  alone on \<open>null\<close>, lets the last of several equal keys win, and fails on a value of the wrong kind or
  range. The lemmas show the round trips.
\<close>

datatype numlit = IntLit bool nat | DecLit bool nat int

datatype json = JNull | JBool bool | JNum numlit | JStr string | JArr "json list"
  | JObj "(string \<times> json) list"

section \<open>Numbers\<close>

definition round_dec :: "nat \<Rightarrow> int \<Rightarrow> nat" where
  "round_dec c k = (if 0 \<le> k then round_mag (c * 10 ^ nat k) 0 else round_quot c (10 ^ nat (- k)) 0)"

fun lit_int64 :: "numlit \<Rightarrow> int64 option" where
  "lit_int64 (IntLit s c) =
     (let v = (if s then - int c else int c)
      in if - (2 ^ 63) \<le> v \<and> v < 2 ^ 63 then Some (word_of_int v) else None)"
| "lit_int64 (DecLit s c k) = None"

fun lit_float64 :: "numlit \<Rightarrow> float64 option" where
  "lit_float64 (IntLit s c) = (let r = round_dec c 0 in if r = inf_mag then None else Some (mkf s r))"
| "lit_float64 (DecLit s c k) = (let r = round_dec c k in if r = inf_mag then None else Some (mkf s r))"

definition int_lit :: "int64 \<Rightarrow> numlit" where
  "int_lit i = IntLit (sint i < 0) (nat \<bar>sint i\<bar>)"

definition uint_lit :: "uint64 \<Rightarrow> numlit" where
  "uint_lit w = IntLit False (unat w)"

text \<open>
  Every finite magnitude is a decimal \<open>D * 10 ^ K\<close> exactly; \<open>shortest\<close> drops as many final digits of
  \<open>D\<close> as it can while one of the two neighbouring decimals still reads back to the magnitude.
\<close>

definition exact_dec :: "nat \<Rightarrow> nat \<times> int" where
  "exact_dec n =
     (let m = sig_of n; e = exp_of n in if 0 \<le> e then (m * 2 ^ nat e, 0) else (m * 5 ^ nat (- e), e))"

fun shortest :: "nat \<Rightarrow> nat \<Rightarrow> int \<Rightarrow> nat \<Rightarrow> nat \<times> int" where
  "shortest n D K 0 = (D, K)"
| "shortest n D K (Suc j) =
     (let t = 10 ^ Suc j; lo = D div t; k = K + int (Suc j);
          near = (if 2 * (D mod t) < t then lo else lo + 1);
          far = (if 2 * (D mod t) < t then lo + 1 else lo)
      in if round_dec near k = n then (near, k)
         else if round_dec far k = n then (far, k)
         else shortest n D K j)"

definition short_dec :: "nat \<Rightarrow> nat \<times> int" where
  "short_dec n = (let (D, K) = exact_dec n in shortest n D K (length (show_nat D) - 1))"

text \<open>
  The format: plain digits from \<open>1e-6\<close> up to \<open>1e21\<close>, which leaves an integer literal when there is
  no fraction, and an exponent outside that range.
\<close>

definition float_lit :: "float64 \<Rightarrow> numlit option" where
  "float_lit x =
     (if isNaN x \<or> isInf x then None
      else if mag x = 0 then Some (IntLit (neg x) 0)
      else let (c, k) = short_dec (mag x)
           in if 0 \<le> k \<and> c * 10 ^ nat k < 10 ^ 21 then Some (IntLit (neg x) (c * 10 ^ nat k))
              else Some (DecLit (neg x) c k))"

lemma int_lit_roundtrip: "lit_int64 (int_lit i) = Some i"
proof -
  have "- (2 ^ 63) \<le> sint i" "sint i < 2 ^ 63"
    using sint_range_size [of i] by (simp_all add: word_size)
  then show ?thesis by (auto simp: int_lit_def Let_def)
qed

lemma round_dec_exact:
  assumes "real c * 10 powi k = mval n" "n \<le> inf_mag" shows "round_dec c k = n"
proof (cases "0 \<le> k")
  case True
  then have "real (c * 10 ^ nat k) * 2 powi 0 = mval n" using assms(1) by (simp add: power_int_def)
  then show ?thesis using True assms(2) by (simp add: round_dec_def round_mag_exact)
next
  case False
  then have "real c / real (10 ^ nat (- k)) * 2 powi 0 = mval n"
    using assms(1) by (simp add: power_int_def power_one_over)
  then show ?thesis using False assms(2) by (simp add: round_dec_def round_quot_exact)
qed

lemma exact_dec: "real (fst (exact_dec n)) * 10 powi (snd (exact_dec n)) = mval n"
proof (cases "0 \<le> exp_of n")
  case True
  then show ?thesis by (simp add: exact_dec_def mval_def power_int_def)
next
  case False
  have "(5::real) ^ k * (1 / 10) ^ k = (1 / 2) ^ k" for k
    by (simp flip: power_mult_distrib)
  with False show ?thesis
    by (simp add: exact_dec_def Let_def mval_def power_int_def mult.assoc)
qed

lemma shortest_reads_back:
  "round_dec D K = n \<Longrightarrow> round_dec (fst (shortest n D K j)) (snd (shortest n D K j)) = n"
  by (induction j) (simp_all add: Let_def)

lemma short_dec_reads_back:
  assumes "n \<le> inf_mag" shows "round_dec (fst (short_dec n)) (snd (short_dec n)) = n"
  using shortest_reads_back [OF round_dec_exact [OF exact_dec assms]]
  by (simp add: short_dec_def split_beta)

lemma round_dec_scale: "0 \<le> k \<Longrightarrow> round_dec (c * 10 ^ nat k) 0 = round_dec c k"
  by (simp add: round_dec_def)

text \<open>Every finite value is written, and reads back to itself.\<close>

lemma float_lit_roundtrip:
  assumes "isFinite x" shows "\<exists>l. float_lit x = Some l \<and> lit_float64 l = Some x"
proof (cases "mag x = 0")
  case True
  then have "mkf (neg x) 0 = x" using mkf_neg_mag [of x] by simp
  with True assms show ?thesis
    by (simp add: float_lit_def isFinite_not Let_def round_dec_def inf_mag_def)
next
  case False
  obtain c k where ck: "short_dec (mag x) = (c, k)" by (cases "short_dec (mag x)")
  then have "round_dec c k = mag x"
    using short_dec_reads_back [of "mag x"] assms by (simp add: isFinite_def)
  with False assms ck show ?thesis
    by (auto simp: float_lit_def isFinite_not Let_def isFinite_def round_dec_scale)
qed

lemma float_lit_None: "float_lit x = None \<longleftrightarrow> \<not> isFinite x"
  using float_class [of x] isFinite_not [of x]
  by (auto simp: float_lit_def Let_def split: prod.splits if_splits)

text \<open>A decoded number is finite.\<close>

lemma lit_float64_finite: "lit_float64 l = Some x \<Longrightarrow> isFinite x"
proof -
  have "round_dec c k \<le> inf_mag" for c k
    by (simp add: round_dec_def round_mag_le_inf round_quot_le_inf)
  then have "isFinite (mkf s (round_dec c k))" if "round_dec c k \<noteq> inf_mag" for s c k
    using that inf_mag_less order_le_less_trans [of "round_dec c k" inf_mag "2 ^ 63"]
    by (simp add: isFinite_def order_less_le)
  then show "lit_float64 l = Some x \<Longrightarrow> isFinite x"
    by (cases l) (auto simp: Let_def split: if_splits)
qed

section \<open>Values of struct fields\<close>

text \<open>A setter stores a decoded value into a struct, or fails on a value of the wrong kind.\<close>

type_synonym 'a setter = "json \<Rightarrow> 'a \<Rightarrow> 'a option"

definition set_string :: "(string \<Rightarrow> 'a \<Rightarrow> 'a) \<Rightarrow> 'a setter" where
  "set_string f v x =
     (case v of JNull \<Rightarrow> Some x | JStr s \<Rightarrow> Some (f (coerce s) x) | _ \<Rightarrow> None)"

definition set_int64 :: "(int64 \<Rightarrow> 'a \<Rightarrow> 'a) \<Rightarrow> 'a setter" where
  "set_int64 f v x =
     (case v of JNull \<Rightarrow> Some x | JNum l \<Rightarrow> map_option (\<lambda>i. f i x) (lit_int64 l) | _ \<Rightarrow> None)"

definition set_float64 :: "(float64 \<Rightarrow> 'a \<Rightarrow> 'a) \<Rightarrow> 'a setter" where
  "set_float64 f v x =
     (case v of JNull \<Rightarrow> Some x | JNum l \<Rightarrow> map_option (\<lambda>d. f d x) (lit_float64 l) | _ \<Rightarrow> None)"

section \<open>Structs\<close>

text \<open>
  Case folding of keys: ASCII letters fold to upper case, and the Kelvin sign and the long s, which
  are the only other characters that fold to ASCII, to \<open>K\<close> and \<open>S\<close>.
\<close>

definition upper :: "char \<Rightarrow> char" where
  "upper c = (if byte_in 97 122 c then char_of (of_char c - 32 :: nat) else c)"

fun fold_name :: "string \<Rightarrow> string" where
  "fold_name (a # b # c # s) =
     (if a = CHR 0xE2 \<and> b = CHR 0x84 \<and> c = CHR 0xAA then CHR ''K'' # fold_name s
      else if a = CHR 0xC5 \<and> b = CHR 0xBF then CHR ''S'' # fold_name (c # s)
      else upper a # fold_name (b # c # s))"
| "fold_name [a, b] = (if a = CHR 0xC5 \<and> b = CHR 0xBF then ''S'' else [upper a, upper b])"
| "fold_name [a] = [upper a]"
| "fold_name [] = []"

definition find_field :: "(string \<times> 'a setter) list \<Rightarrow> string \<Rightarrow> 'a setter option" where
  "find_field fs key =
     (case map_of fs key of
        Some f \<Rightarrow> Some f
      | None \<Rightarrow> map_of (map (\<lambda>(n, f). (fold_name n, f)) fs) (fold_name key))"

fun decode_members :: "(string \<times> 'a setter) list \<Rightarrow> (string \<times> json) list \<Rightarrow> 'a \<Rightarrow> 'a option" where
  "decode_members fs [] x = Some x"
| "decode_members fs ((key, v) # ms) x =
     (case find_field fs (coerce key) of
        None \<Rightarrow> decode_members fs ms x
      | Some f \<Rightarrow> (case f v x of None \<Rightarrow> None | Some y \<Rightarrow> decode_members fs ms y))"

text \<open>\<open>Unmarshal\<close> into a struct that holds its zero value.\<close>

definition decode_struct :: "(string \<times> 'a setter) list \<Rightarrow> 'a \<Rightarrow> json \<Rightarrow> 'a option" where
  "decode_struct fs zero v =
     (case v of JNull \<Rightarrow> Some zero | JObj ms \<Rightarrow> decode_members fs ms zero | _ \<Rightarrow> None)"

subsection \<open>\<open>types.OBUData\<close>\<close>

definition OBUData_zero :: OBUData where
  "OBUData_zero = \<lparr>od_EventID = '''', od_ProducedAtUnixNano = 0, od_OBUID = 0, od_Lat = fzero,
     od_Lon = fzero, od_Payload = ''''\<rparr>"

definition OBUData_fields :: "(string \<times> OBUData setter) list" where
  "OBUData_fields =
     [(''event_id'', set_string (\<lambda>s x. x\<lparr>od_EventID := s\<rparr>)),
      (''produced_at_unix_nano'', set_int64 (\<lambda>i x. x\<lparr>od_ProducedAtUnixNano := i\<rparr>)),
      (''obu_id'', set_int64 (\<lambda>i x. x\<lparr>od_OBUID := i\<rparr>)),
      (''lat'', set_float64 (\<lambda>d x. x\<lparr>od_Lat := d\<rparr>)),
      (''lon'', set_float64 (\<lambda>d x. x\<lparr>od_Lon := d\<rparr>)),
      (''payload'', set_string (\<lambda>s x. x\<lparr>od_Payload := s\<rparr>))]"

definition decode_OBUData :: "json \<Rightarrow> OBUData option" where
  "decode_OBUData v = decode_struct OBUData_fields OBUData_zero v"

definition encode_OBUData :: "OBUData \<Rightarrow> json option" where
  "encode_OBUData x =
     (case float_lit (od_Lat x) of None \<Rightarrow> None | Some lat \<Rightarrow>
      (case float_lit (od_Lon x) of None \<Rightarrow> None | Some lon \<Rightarrow>
        Some (JObj ([(''event_id'', JStr (coerce (od_EventID x))),
          (''produced_at_unix_nano'', JNum (int_lit (od_ProducedAtUnixNano x))),
          (''obu_id'', JNum (int_lit (od_OBUID x))),
          (''lat'', JNum lat), (''lon'', JNum lon)] @
          (if od_Payload x = '''' then [] else [(''payload'', JStr (coerce (od_Payload x)))])))))"

subsection \<open>\<open>types.Distance\<close>\<close>

definition Distance_zero :: Distance where
  "Distance_zero = \<lparr>d_EventID = '''', d_ProducedAtUnixNano = 0, d_Value = fzero, d_OBUID = 0\<rparr>"

definition Distance_fields :: "(string \<times> Distance setter) list" where
  "Distance_fields =
     [(''event_id'', set_string (\<lambda>s x. x\<lparr>d_EventID := s\<rparr>)),
      (''produced_at_unix_nano'', set_int64 (\<lambda>i x. x\<lparr>d_ProducedAtUnixNano := i\<rparr>)),
      (''value'', set_float64 (\<lambda>d x. x\<lparr>d_Value := d\<rparr>)),
      (''obu_id'', set_int64 (\<lambda>i x. x\<lparr>d_OBUID := i\<rparr>))]"

definition decode_Distance :: "json \<Rightarrow> Distance option" where
  "decode_Distance v = decode_struct Distance_fields Distance_zero v"

definition encode_Distance :: "Distance \<Rightarrow> json option" where
  "encode_Distance x =
     (case float_lit (d_Value x) of None \<Rightarrow> None | Some val \<Rightarrow>
        Some (JObj [(''event_id'', JStr (coerce (d_EventID x))),
          (''produced_at_unix_nano'', JNum (int_lit (d_ProducedAtUnixNano x))),
          (''value'', JNum val), (''obu_id'', JNum (int_lit (d_OBUID x)))]))"

subsection \<open>\<open>types.Invoice\<close> and \<open>types.EventReconciliation\<close>\<close>

definition Invoice_zero :: Invoice where
  "Invoice_zero = \<lparr>i_OBUID = 0, i_TotalDist = fzero, i_Amount = fzero\<rparr>"

definition Invoice_fields :: "(string \<times> Invoice setter) list" where
  "Invoice_fields =
     [(''obu_id'', set_int64 (\<lambda>i x. x\<lparr>i_OBUID := i\<rparr>)),
      (''total_distance'', set_float64 (\<lambda>d x. x\<lparr>i_TotalDist := d\<rparr>)),
      (''amount'', set_float64 (\<lambda>d x. x\<lparr>i_Amount := d\<rparr>))]"

definition decode_Invoice :: "json \<Rightarrow> Invoice option" where
  "decode_Invoice v = decode_struct Invoice_fields Invoice_zero v"

definition encode_Invoice :: "Invoice \<Rightarrow> json option" where
  "encode_Invoice x =
     (case float_lit (i_TotalDist x) of None \<Rightarrow> None | Some t \<Rightarrow>
      (case float_lit (i_Amount x) of None \<Rightarrow> None | Some a \<Rightarrow>
        Some (JObj [(''obu_id'', JNum (int_lit (i_OBUID x))), (''total_distance'', JNum t),
          (''amount'', JNum a)])))"

definition encode_EventReconciliation :: "EventReconciliation \<Rightarrow> json" where
  "encode_EventReconciliation r =
     JObj [(''event_count'', JNum (uint_lit (r_Count r))),
       (''event_id_hash_xor'', JNum (uint_lit (r_XOR r))),
       (''event_id_hash_sum'', JNum (uint_lit (r_Sum r)))]"

lemmas json_eval [go_eval] =
  round_dec_def int_lit_def uint_lit_def exact_dec_def short_dec_def float_lit_def set_string_def
  set_int64_def set_float64_def upper_def find_field_def decode_struct_def OBUData_zero_def
  OBUData_fields_def decode_OBUData_def encode_OBUData_def Distance_zero_def Distance_fields_def
  decode_Distance_def encode_Distance_def Invoice_zero_def Invoice_fields_def decode_Invoice_def
  encode_Invoice_def encode_EventReconciliation_def

section \<open>Round trips\<close>

lemma coerce_keys [simp]:
  "coerce ''event_id'' = ''event_id''" "coerce ''produced_at_unix_nano'' = ''produced_at_unix_nano''"
  "coerce ''obu_id'' = ''obu_id''" "coerce ''lat'' = ''lat''" "coerce ''lon'' = ''lon''"
  "coerce ''payload'' = ''payload''" "coerce ''value'' = ''value''"
  "coerce ''total_distance'' = ''total_distance''" "coerce ''amount'' = ''amount''"
  by (rule utf8_ascii [unfolded utf8_def], simp add: byte_in_def)+

lemma find_field_exact: "map_of fs key = Some f \<Longrightarrow> find_field fs key = Some f"
  by (simp add: find_field_def)

lemma set_string_JStr [simp]: "set_string f (JStr s) x = Some (f (coerce s) x)"
  by (simp add: set_string_def)

lemma set_int64_lit [simp]: "set_int64 f (JNum (int_lit i)) x = Some (f i x)"
  by (simp add: set_int64_def int_lit_roundtrip)

lemma set_float64_lit [simp]: "lit_float64 l = Some d \<Longrightarrow> set_float64 f (JNum l) x = Some (f d x)"
  by (simp add: set_float64_def)

lemmas decode_simps = decode_struct_def find_field_def coerce_idem

theorem Distance_roundtrip:
  assumes "isFinite (d_Value d)" "utf8 (d_EventID d)"
  shows "\<exists>v. encode_Distance d = Some v \<and> decode_Distance v = Some d"
proof -
  obtain l where "float_lit (d_Value d) = Some l" "lit_float64 l = Some (d_Value d)"
    using float_lit_roundtrip [OF assms(1)] by blast
  with assms(2) show ?thesis
    by (simp add: encode_Distance_def decode_Distance_def decode_simps Distance_fields_def
        Distance_zero_def utf8_def)
qed

theorem OBUData_roundtrip:
  assumes "isFinite (od_Lat d)" "isFinite (od_Lon d)" "utf8 (od_EventID d)" "utf8 (od_Payload d)"
  shows "\<exists>v. encode_OBUData d = Some v \<and> decode_OBUData v = Some d"
proof -
  obtain l m where "float_lit (od_Lat d) = Some l" "lit_float64 l = Some (od_Lat d)"
    "float_lit (od_Lon d) = Some m" "lit_float64 m = Some (od_Lon d)"
    using float_lit_roundtrip [OF assms(1)] float_lit_roundtrip [OF assms(2)] by blast
  with assms(3,4) show ?thesis
    by (auto simp: encode_OBUData_def decode_OBUData_def decode_simps OBUData_fields_def
        OBUData_zero_def utf8_def)
qed

theorem Invoice_roundtrip:
  assumes "isFinite (i_TotalDist x)" "isFinite (i_Amount x)"
  shows "\<exists>v. encode_Invoice x = Some v \<and> decode_Invoice v = Some x"
proof -
  obtain l m where "float_lit (i_TotalDist x) = Some l" "lit_float64 l = Some (i_TotalDist x)"
    "float_lit (i_Amount x) = Some m" "lit_float64 m = Some (i_Amount x)"
    using float_lit_roundtrip [OF assms(1)] float_lit_roundtrip [OF assms(2)] by blast
  then show ?thesis
    by (simp add: encode_Invoice_def decode_Invoice_def decode_simps Invoice_fields_def
        Invoice_zero_def)
qed

section \<open>What decoding guarantees\<close>

lemma find_field_mem: "find_field fs key = Some f \<Longrightarrow> \<exists>n. (n, f) \<in> set fs"
  by (auto simp: find_field_def dest!: map_of_SomeD split: option.splits)

lemma decode_members_invariant:
  assumes "\<And>n f v x y. (n, f) \<in> set fs \<Longrightarrow> f v x = Some y \<Longrightarrow> P x \<Longrightarrow> P y"
    and "P x" "decode_members fs ms x = Some y"
  shows "P y"
  using assms(2,3)
proof (induction ms arbitrary: x)
  case (Cons m ms)
  obtain key v where m: "m = (key, v)" by (cases m)
  show ?case
    using Cons assms(1) find_field_mem [of fs "coerce key"]
    by (auto simp: m split: option.splits) metis
qed simp

lemma decode_struct_invariant:
  assumes "\<And>n f v x y. (n, f) \<in> set fs \<Longrightarrow> f v x = Some y \<Longrightarrow> P x \<Longrightarrow> P y"
    and "P zero" "decode_struct fs zero v = Some y"
  shows "P y"
  using assms decode_members_invariant [of fs P zero]
  by (auto simp: decode_struct_def split: json.splits)

text \<open>
  Strings of a decoded event are UTF-8, since the decoder replaces what is not, and its numbers are
  finite, since a literal out of range is an error.
\<close>

lemma decode_OBUData_good:
  assumes "decode_OBUData v = Some e"
  shows "utf8 (od_EventID e) \<and> utf8 (od_Payload e) \<and> isFinite (od_Lat e) \<and> isFinite (od_Lon e)"
proof (rule decode_struct_invariant [where P = "\<lambda>e. utf8 (od_EventID e) \<and> utf8 (od_Payload e) \<and> isFinite (od_Lat e) \<and> isFinite (od_Lon e)"])
  show "decode_struct OBUData_fields OBUData_zero v = Some e"
    using assms by (simp add: decode_OBUData_def)
  show "utf8 (od_EventID OBUData_zero) \<and> utf8 (od_Payload OBUData_zero) \<and> isFinite (od_Lat OBUData_zero) \<and> isFinite (od_Lon OBUData_zero)"
    by (simp add: OBUData_zero_def utf8_def float_eval)
  show "utf8 (od_EventID y) \<and> utf8 (od_Payload y) \<and> isFinite (od_Lat y) \<and> isFinite (od_Lon y)"
    if "(n, f) \<in> set OBUData_fields" "f v x = Some y"
      "utf8 (od_EventID x) \<and> utf8 (od_Payload x) \<and> isFinite (od_Lat x) \<and> isFinite (od_Lon x)" for n f v x y
    using that lit_float64_finite
    by (auto simp: OBUData_fields_def set_string_def set_int64_def set_float64_def utf8_def coerce_idem
        split: json.splits)
qed

section \<open>Properties of the encodings\<close>

text \<open>
  What the HTTP client marshals of a distance with a finite value and a UTF-8 identifier, the
  aggregator decodes to the same distance.
\<close>

theorem Distance_json_roundtrip:
  assumes "isFinite (d_Value d)" "utf8 (d_EventID d)"
  shows "Option.bind (encode_Distance d) decode_Distance = Some d"
  using Distance_roundtrip [OF assms] by auto

theorem Distance_json_roundtrip_witness:
  "utf8 ''event-1'' \<and> Option.bind (encode_Distance \<lparr>d_EventID = ''event-1'', d_ProducedAtUnixNano = 7,
     d_Value = F64 0x4014000000000000, d_OBUID = 1\<rparr>) decode_Distance =
   Some \<lparr>d_EventID = ''event-1'', d_ProducedAtUnixNano = 7, d_Value = F64 0x4014000000000000, d_OBUID = 1\<rparr>"
proof -
  have "utf8 ''event-1''" "isFinite (F64 0x4014000000000000)"
    by (rule utf8_ascii, simp add: byte_in_def) (simp add: float_eval)
  then show ?thesis
    using Distance_json_roundtrip [of "\<lparr>d_EventID = ''event-1'', d_ProducedAtUnixNano = 7,
      d_Value = F64 0x4014000000000000, d_OBUID = 1\<rparr>"] by simp
qed

text \<open>The same holds for an OBU's event on its way through Kafka.\<close>

theorem OBUData_json_roundtrip:
  assumes "isFinite (od_Lat e)" "isFinite (od_Lon e)" "utf8 (od_EventID e)" "utf8 (od_Payload e)"
  shows "Option.bind (encode_OBUData e) decode_OBUData = Some e"
  using OBUData_roundtrip [OF assms] by auto

theorem OBUData_json_roundtrip_witness:
  "isFinite fzero \<and> Option.bind (encode_OBUData (OBUData_zero\<lparr>od_Payload := ''x''\<rparr>)) decode_OBUData =
     Some (OBUData_zero\<lparr>od_Payload := ''x''\<rparr>)"
proof -
  have "isFinite fzero" "utf8 ''x''" "utf8 ''''"
    by (simp add: float_eval) (rule utf8_ascii, simp add: byte_in_def)+
  then show ?thesis
    using OBUData_json_roundtrip [of "OBUData_zero\<lparr>od_Payload := ''x''\<rparr>"] by (simp add: OBUData_zero_def)
qed

text \<open>
  An invoice is written exactly if its total and its amount are finite, and then the reader gets
  the same invoice.
\<close>

theorem Invoice_json:
  "(encode_Invoice x = None \<longleftrightarrow> \<not> (isFinite (i_TotalDist x) \<and> isFinite (i_Amount x)))
   \<and> Option.bind (encode_Invoice x) decode_Invoice =
       (if isFinite (i_TotalDist x) \<and> isFinite (i_Amount x) then Some x else None)"
proof -
  have none: "encode_Invoice x = None \<longleftrightarrow> \<not> (isFinite (i_TotalDist x) \<and> isFinite (i_Amount x))"
    using float_lit_None [of "i_TotalDist x"] float_lit_None [of "i_Amount x"]
    by (auto simp: encode_Invoice_def split: option.splits)
  show ?thesis
  proof (cases "isFinite (i_TotalDist x) \<and> isFinite (i_Amount x)")
    case True
    then show ?thesis using none Invoice_roundtrip [of x] by auto
  next
    case False
    then have "encode_Invoice x = None" using none by simp
    with False show ?thesis by auto
  qed
qed

text \<open>
  Whatever is decoded as an OBU's event has UTF-8 strings and finite coordinates.
\<close>

theorem OBUData_decoded_good:
  assumes "decode_OBUData v = Some e"
  shows "utf8 (od_EventID e) \<and> utf8 (od_Payload e) \<and> isFinite (od_Lat e) \<and> isFinite (od_Lon e)"
  by (rule decode_OBUData_good [OF assms])

theorem OBUData_decoded_good_witness:
  "decode_OBUData (JObj [(''lat'', JNum (IntLit False 3))]) = Some (OBUData_zero\<lparr>od_Lat := F64 0x4008000000000000\<rparr>)
   \<and> isFinite (od_Lat (OBUData_zero\<lparr>od_Lat := F64 0x4008000000000000\<rparr>))"
proof -
  have "decode_OBUData (JObj [(''lat'', JNum (IntLit False 3))]) = Some (OBUData_zero\<lparr>od_Lat := F64 0x4008000000000000\<rparr>)"
    by (simp add: decode_OBUData_def decode_struct_def OBUData_fields_def find_field_def set_float64_def
        round_dec_def float_eval)
  then show ?thesis using OBUData_decoded_good by blast
qed

end
