(* ===== verification/Agg_Server.thy ===== *)
theory Agg_Server
  imports Service Json
begin

text \<open>
  The aggregator's two transports (\<open>aggregator/http.go\<close> and \<open>aggregator/grpc.go\<close>) over any
  \<open>Aggregator\<close>. A handler takes the server's state and a request and returns the response and the
  new state, the metrics it counts included. The text of an \<open>encoding/json\<close> error and the page that
  \<open>promhttp\<close> serves come from outside and are arguments. The lemmas give the response of every
  branch and show that both transports apply the same distance in the same way.
\<close>

section \<open>Requests and responses\<close>

text \<open>
  A body is the JSON value at its head (\<open>None\<close> if there is none or it is malformed), the number of
  bytes up to the end of that value, and the text of the error the decoder would report.
\<close>

record body =
  bd_doc :: "json option"
  bd_size :: nat
  bd_err :: string

record http_request =
  rq_Method :: string
  rq_Path :: string
  rq_Query :: "(string \<times> string) list"
  rq_Body :: body

text \<open>A response body is \<open>None\<close> where \<open>json.Encoder\<close> fails: the status has been sent by then.\<close>

record http_response =
  rs_Status :: nat
  rs_Allow :: "string option"
  rs_Body :: "json option"

datatype grpc_code = OK | InvalidArgument | Unknown | DeadlineExceeded | Unavailable | Unimplemented | Internal

text \<open>The state of the aggregator process: the service and the metrics of its transports.\<close>

record 's agg_server =
  sv_svc :: 's
  sv_protocolEvents :: "string \<Rightarrow> nat"
  sv_httpDuration :: "string \<times> string \<Rightarrow> nat"
  sv_httpRequests :: "string \<times> string \<times> string \<times> nat \<Rightarrow> nat"
  sv_grpcDuration :: "string \<Rightarrow> nat"
  sv_grpcRequests :: "string \<times> string \<times> grpc_code \<Rightarrow> nat"
  sv_openConnections :: "string \<Rightarrow> int"

definition new_agg_server :: "'s \<Rightarrow> 's agg_server" where
  "new_agg_server s =
     \<lparr>sv_svc = s, sv_protocolEvents = (\<lambda>_. 0), sv_httpDuration = (\<lambda>_. 0), sv_httpRequests = (\<lambda>_. 0),
      sv_grpcDuration = (\<lambda>_. 0), sv_grpcRequests = (\<lambda>_. 0), sv_openConnections = (\<lambda>_. 0)\<rparr>"

definition inc :: "('k \<Rightarrow> nat) \<Rightarrow> 'k \<Rightarrow> ('k \<Rightarrow> nat)" where
  "inc f k = f(k := f k + 1)"

section \<open>HTTP handlers\<close>

definition writeJson :: "nat \<Rightarrow> json option \<Rightarrow> http_response" where
  "writeJson status v = \<lparr>rs_Status = status, rs_Allow = None, rs_Body = v\<rparr>"

definition error_body :: "string \<Rightarrow> json option" where
  "error_body msg = Some (JObj [(''Error'', JStr (coerce msg))])"

definition method_not_allowed :: "string \<Rightarrow> http_response" where
  "method_not_allowed allow =
     (writeJson 405 (error_body ''method not allowed''))\<lparr>rs_Allow := Some allow\<rparr>"

text \<open>\<open>err.Error()\<close> of the errors the service returns.\<close>

fun error_text :: "go_error \<Rightarrow> string" where
  "error_text ErrInvalidDistance =
     ''invalid distance event: event_id, source timestamp, OBU ID, and non-negative finite distance are required''"
| "error_text (ErrNotFound i) = ''Data not found for '' @ Itoa i"
| "error_text (ErrOther msg) = msg"

definition query_get :: "(string \<times> string) list \<Rightarrow> string \<Rightarrow> string" where
  "query_get q k = (case map_of q k of None \<Rightarrow> '''' | Some v \<Rightarrow> v)"

definition handleReconciliation :: "'s Aggregator \<Rightarrow> http_request \<Rightarrow> 's agg_server \<Rightarrow>
    http_response \<times> 's agg_server" where
  "handleReconciliation A r sv =
     (if rq_Method r \<noteq> ''GET'' then (method_not_allowed ''GET'', sv)
      else (writeJson 200 (Some (encode_EventReconciliation (ag_Reconciliation A (sv_svc sv)))), sv))"

definition handleGetInvoice :: "'s Aggregator \<Rightarrow> http_request \<Rightarrow> 's agg_server \<Rightarrow>
    http_response \<times> 's agg_server" where
  "handleGetInvoice A r sv =
     (if rq_Method r \<noteq> ''GET'' then (method_not_allowed ''GET'', sv)
      else let val = query_get (rq_Query r) ''obu''
           in if val = '''' then (writeJson 400 (error_body ''Missing OBUID''), sv)
              else (case Atoi val of
                None \<Rightarrow> (writeJson 400 (error_body ''Invalid OBU Id''), sv)
              | Some obuID \<Rightarrow>
                  let (res, s) = ag_CalculateInvoice A (sv_svc sv) obuID; sv1 = sv\<lparr>sv_svc := s\<rparr>
                  in (case res of
                    Inl err \<Rightarrow> (writeJson 500 (error_body (error_text err)), sv1)
                  | Inr invoice \<Rightarrow> (writeJson 200 (encode_Invoice invoice), sv1))))"

text \<open>\<open>http.MaxBytesReader\<close> cuts the body off at 1 MiB, which the decoder reports as an error.\<close>

definition decode_body :: "body \<Rightarrow> Distance option" where
  "decode_body b = (if 2 ^ 20 < bd_size b then None else Option.bind (bd_doc b) decode_Distance)"

definition handleAggregate :: "'s Aggregator \<Rightarrow> int64 \<Rightarrow> http_request \<Rightarrow> 's agg_server \<Rightarrow>
    http_response \<times> 's agg_server" where
  "handleAggregate A now r sv =
     (if rq_Method r \<noteq> ''POST'' then (method_not_allowed ''POST'', sv)
      else let sv1 = sv\<lparr>sv_protocolEvents := inc (sv_protocolEvents sv) ''http''\<rparr>
           in (case decode_body (rq_Body r) of
             None \<Rightarrow> (writeJson 400 (error_body (bd_err (rq_Body r))), sv1)
           | Some d \<Rightarrow>
               let (res, s) = ag_AggregateDistance A now (sv_svc sv1) d; sv2 = sv1\<lparr>sv_svc := s\<rparr>
               in (case res of
                 Inl err \<Rightarrow>
                   (if err = ErrInvalidDistance then (writeJson 400 (error_body (error_text err)), sv2)
                    else (writeJson 500 (error_body (error_text err)), sv2))
               | Inr _ \<Rightarrow> (writeJson 202 (Some (JObj [(''Message'', JStr ''Success'')])), sv2))))"

definition instrumentHTTP :: "string \<Rightarrow> (http_request \<Rightarrow> 's agg_server \<Rightarrow> http_response \<times> 's agg_server) \<Rightarrow>
    http_request \<Rightarrow> 's agg_server \<Rightarrow> http_response \<times> 's agg_server" where
  "instrumentHTTP route next r sv =
     (let (resp, sv1) = next r sv
      in (resp, sv1\<lparr>sv_httpDuration := inc (sv_httpDuration sv1) (rq_Method r, route),
            sv_httpRequests := inc (sv_httpRequests sv1) (''server'', rq_Method r, route, rs_Status resp)\<rparr>))"

text \<open>The router; \<open>prom\<close> is the handler of package \<open>promhttp\<close>. Other paths are not found.\<close>

definition newHTTPHandler :: "(http_request \<Rightarrow> http_response) \<Rightarrow> 's Aggregator \<Rightarrow> int64 \<Rightarrow>
    http_request \<Rightarrow> 's agg_server \<Rightarrow> http_response \<times> 's agg_server" where
  "newHTTPHandler prom A now r sv =
     (if rq_Path r = ''/agg'' then instrumentHTTP ''aggregate'' (handleAggregate A now) r sv
      else if rq_Path r = ''/invoice'' then instrumentHTTP ''invoice'' (handleGetInvoice A) r sv
      else if rq_Path r = ''/benchmark/reconciliation''
      then instrumentHTTP ''reconciliation'' (handleReconciliation A) r sv
      else if rq_Path r = ''/metrics'' then (prom r, sv)
      else (\<lparr>rs_Status = 404, rs_Allow = None, rs_Body = None\<rparr>, sv))"

section \<open>gRPC\<close>

text \<open>\<open>status.Code\<close> of what the method returns: an error without a status is \<open>Unknown\<close>.\<close>

definition request_distance :: "AggregateRequest \<Rightarrow> Distance" where
  "request_distance req =
     \<lparr>d_EventID = ar_EventID req, d_ProducedAtUnixNano = ar_ProducedAtUnixNano req,
      d_Value = ar_Value req, d_OBUID = of_int32 (ar_ObuID req)\<rparr>"

definition GRPC_Aggregate :: "'s Aggregator \<Rightarrow> int64 \<Rightarrow> AggregateRequest \<Rightarrow> 's agg_server \<Rightarrow>
    grpc_code \<times> 's agg_server" where
  "GRPC_Aggregate A now req sv =
     (let sv1 = sv\<lparr>sv_protocolEvents := inc (sv_protocolEvents sv) ''grpc''\<rparr>;
          (res, s) = ag_AggregateDistance A now (sv_svc sv1) (request_distance req);
          sv2 = sv1\<lparr>sv_svc := s\<rparr>
      in case res of
           Inl err \<Rightarrow> (if err = ErrInvalidDistance then InvalidArgument else Unknown, sv2)
         | Inr _ \<Rightarrow> (OK, sv2))"

definition grpcMetricsInterceptor ::
    "string \<Rightarrow> ('s agg_server \<Rightarrow> grpc_code \<times> 's agg_server) \<Rightarrow> 's agg_server \<Rightarrow> grpc_code \<times> 's agg_server" where
  "grpcMetricsInterceptor fullMethod handler sv =
     (let (code, sv1) = handler sv
      in (code, sv1\<lparr>sv_grpcDuration := inc (sv_grpcDuration sv1) fullMethod,
            sv_grpcRequests := inc (sv_grpcRequests sv1) (''server'', fullMethod, code)\<rparr>))"

definition newGRPCServer :: "'s Aggregator \<Rightarrow> int64 \<Rightarrow> AggregateRequest \<Rightarrow> 's agg_server \<Rightarrow>
    grpc_code \<times> 's agg_server" where
  "newGRPCServer A now req = grpcMetricsInterceptor ''/Aggregator/Aggregate'' (GRPC_Aggregate A now req)"

section \<open>Connection gauges\<close>

datatype conn_state = StateNew | StateActive | StateIdle | StateHijacked | StateClosed

definition ConnState :: "conn_state \<Rightarrow> 's agg_server \<Rightarrow> 's agg_server" where
  "ConnState st sv =
     (let g = sv_openConnections sv
      in case st of
           StateNew \<Rightarrow> sv\<lparr>sv_openConnections := g(''http'' := g ''http'' + 1)\<rparr>
         | StateClosed \<Rightarrow> sv\<lparr>sv_openConnections := g(''http'' := g ''http'' - 1)\<rparr>
         | StateHijacked \<Rightarrow> sv\<lparr>sv_openConnections := g(''http'' := g ''http'' - 1)\<rparr>
         | _ \<Rightarrow> sv)"

datatype conn_stats = ConnBegin | ConnEnd | OtherStats

definition HandleConn :: "conn_stats \<Rightarrow> 's agg_server \<Rightarrow> 's agg_server" where
  "HandleConn st sv =
     (let g = sv_openConnections sv
      in case st of
           ConnBegin \<Rightarrow> sv\<lparr>sv_openConnections := g(''grpc'' := g ''grpc'' + 1)\<rparr>
         | ConnEnd \<Rightarrow> sv\<lparr>sv_openConnections := g(''grpc'' := g ''grpc'' - 1)\<rparr>
         | OtherStats \<Rightarrow> sv)"

lemmas server_eval [go_eval] =
  new_agg_server_def inc_def writeJson_def error_body_def method_not_allowed_def query_get_def
  handleReconciliation_def handleGetInvoice_def decode_body_def handleAggregate_def
  instrumentHTTP_def newHTTPHandler_def request_distance_def GRPC_Aggregate_def
  grpcMetricsInterceptor_def newGRPCServer_def ConnState_def HandleConn_def

section \<open>What the handlers do to the service\<close>

lemma instrumentHTTP_svc [simp]:
  "fst (instrumentHTTP route h r sv) = fst (h r sv)"
  "sv_svc (snd (instrumentHTTP route h r sv)) = sv_svc (snd (h r sv))"
  by (simp_all add: instrumentHTTP_def split_beta)

lemma grpcMetricsInterceptor_svc [simp]:
  "fst (grpcMetricsInterceptor m h sv) = fst (h sv)"
  "sv_svc (snd (grpcMetricsInterceptor m h sv)) = sv_svc (snd (h sv))"
  by (simp_all add: grpcMetricsInterceptor_def split_beta)

text \<open>The service call that both transports make, with the outcome they report.\<close>

lemma GRPC_Aggregate_svc:
  "sv_svc (snd (GRPC_Aggregate A now req sv)) =
     snd (ag_AggregateDistance A now (sv_svc sv) (request_distance req))"
  "fst (GRPC_Aggregate A now req sv) =
     (case fst (ag_AggregateDistance A now (sv_svc sv) (request_distance req)) of
        Inl err \<Rightarrow> (if err = ErrInvalidDistance then InvalidArgument else Unknown) | Inr _ \<Rightarrow> OK)"
  by (auto simp: GRPC_Aggregate_def split_beta Let_def split: sum.splits)

lemma handleAggregate_svc:
  assumes "rq_Method r = ''POST''" "decode_body (rq_Body r) = Some d"
  shows "sv_svc (snd (handleAggregate A now r sv)) = snd (ag_AggregateDistance A now (sv_svc sv) d)"
    "rs_Status (fst (handleAggregate A now r sv)) =
       (case fst (ag_AggregateDistance A now (sv_svc sv) d) of
          Inl err \<Rightarrow> (if err = ErrInvalidDistance then 400 else 500) | Inr _ \<Rightarrow> 202)"
  using assms by (auto simp: handleAggregate_def writeJson_def split_beta Let_def split: sum.splits)

context aggregator
begin

text \<open>On a service that keeps the contract, an accepted request is a valid one and is recorded.\<close>

lemma grpc_request:
  assumes "rel L (sv_svc sv)"
  shows "fst (newGRPCServer A now req sv) =
      (if valid_distance (request_distance req) then OK else InvalidArgument)
    \<and> rel (if valid_distance (request_distance req) then record_event L (request_distance req) else L)
        (sv_svc (snd (newGRPCServer A now req sv)))"
  using rejects [OF assms, of "request_distance req" now] applies [OF assms, of "request_distance req" now]
  by (cases "valid_distance (request_distance req)") (auto simp: newGRPCServer_def GRPC_Aggregate_svc)

lemma http_request:
  assumes "rel L (sv_svc sv)" "rq_Path r = ''/agg''" "rq_Method r = ''POST''" "decode_body (rq_Body r) = Some d"
  shows "rs_Status (fst (newHTTPHandler prom A now r sv)) = (if valid_distance d then 202 else 400)
    \<and> rel (if valid_distance d then record_event L d else L)
        (sv_svc (snd (newHTTPHandler prom A now r sv)))"
  using rejects [OF assms(1), of d now] applies [OF assms(1), of d now] assms(2)
  by (cases "valid_distance d") (auto simp: newHTTPHandler_def handleAggregate_svc [OF assms(3,4)])

lemma http_malformed:
  assumes "rel L (sv_svc sv)" "rq_Path r = ''/agg''" "rq_Method r = ''POST''" "decode_body (rq_Body r) = None"
  shows "rs_Status (fst (newHTTPHandler prom A now r sv)) = 400
    \<and> sv_svc (snd (newHTTPHandler prom A now r sv)) = sv_svc sv"
  using assms by (simp add: newHTTPHandler_def handleAggregate_def writeJson_def)

lemma http_invoice:
  assumes "rel L (sv_svc sv)" "rq_Path r = ''/invoice''" "rq_Method r = ''GET''"
    "query_get (rq_Query r) ''obu'' = Itoa i"
  shows "fst (newHTTPHandler prom A now r sv) =
      (case invoice_of L i of Inl err \<Rightarrow> writeJson 500 (error_body (error_text err))
       | Inr bill \<Rightarrow> writeJson 200 (encode_Invoice bill))
    \<and> rel L (sv_svc (snd (newHTTPHandler prom A now r sv)))"
  using invoices [OF assms(1), of i] assms(2-4) Atoi_Itoa [of i]
  by (auto simp: newHTTPHandler_def handleGetInvoice_def Let_def Itoa_not_Nil split: sum.splits)

end

section \<open>Properties of the transports\<close>


text \<open>
  C30: HTTP and gRPC agree: a body that decodes to the distance of a gRPC request leaves the same
  service state, and both report acceptance, an invalid distance and any other error for the same
  requests.
\<close>

theorem transports_agree:
  assumes "rq_Path r = ''/agg''" "rq_Method r = ''POST''" "decode_body (rq_Body r) = Some (request_distance req)"
  shows "sv_svc (snd (newHTTPHandler prom A now r sv)) = sv_svc (snd (newGRPCServer A now req sv))
    \<and> (rs_Status (fst (newHTTPHandler prom A now r sv)), fst (newGRPCServer A now req sv))
        \<in> {(202, OK), (400, InvalidArgument), (500, Unknown)}"
  using handleAggregate_svc [OF assms(2,3), of A now sv] assms(1)
  by (simp add: newHTTPHandler_def newGRPCServer_def GRPC_Aggregate_svc split: sum.splits)

definition grpc_a :: AggregateRequest where
  "grpc_a = \<lparr>ar_ObuID = 1, ar_Value = F64 0x4014000000000000, ar_ProducedAtUnixNano = 1, ar_EventID = ''a''\<rparr>"

definition http_a :: http_request where
  "http_a = \<lparr>rq_Method = ''POST'', rq_Path = ''/agg'', rq_Query = [],
     rq_Body = \<lparr>bd_doc = encode_Distance (request_distance grpc_a), bd_size = 100, bd_err = ''''\<rparr>\<rparr>"

lemma http_a_decodes: "decode_body (rq_Body http_a) = Some (request_distance grpc_a)"
proof -
  have "utf8 ''a''" by (rule utf8_ascii) (simp add: byte_in_def)
  moreover have "isFinite (F64 0x4014000000000000)" by (simp add: float_eval)
  ultimately show ?thesis
    using Distance_roundtrip [of "request_distance grpc_a"]
    by (auto simp: decode_body_def http_a_def request_distance_def grpc_a_def)
qed

theorem transports_agree_witness:
  "decode_body (rq_Body http_a) = Some (request_distance grpc_a) \<and>
   sv_svc (snd (newHTTPHandler (\<lambda>_. writeJson 200 None) aggregator_svc 5 http_a (new_agg_server aggregator_start))) =
   sv_svc (snd (newGRPCServer aggregator_svc 5 grpc_a (new_agg_server aggregator_start)))"
proof -
  have "rq_Path http_a = ''/agg''" "rq_Method http_a = ''POST''" by (simp_all add: http_a_def)
  from transports_agree [OF this http_a_decodes] show ?thesis using http_a_decodes by blast
qed

text \<open>
  \<open>GET /invoice\<close> over a service whose ledger is \<open>L\<close>: the invoice of the OBU in the query with status
  200, and 500 with the store's message if the OBU has no events; the ledger does not change.
\<close>

theorem http_invoice_answer:
  assumes "svc_rel L (sv_svc sv)" "rq_Path r = ''/invoice''" "rq_Method r = ''GET''"
    "query_get (rq_Query r) ''obu'' = Itoa i"
  shows "fst (newHTTPHandler prom aggregator_svc now r sv) =
      (case balance L i of
         None \<Rightarrow> writeJson 500 (error_body (''Data not found for '' @ Itoa i))
       | Some t \<Rightarrow> writeJson 200 (encode_Invoice \<lparr>i_OBUID = i, i_TotalDist = t, i_Amount = fmul t basePrice\<rparr>))
    \<and> svc_rel L (sv_svc (snd (newHTTPHandler prom aggregator_svc now r sv)))"
  using svc.http_invoice [OF assms, of prom now] by (simp add: invoice_of_def split: option.splits)

definition http_invoice_1 :: http_request where
  "http_invoice_1 = \<lparr>rq_Method = ''GET'', rq_Path = ''/invoice'', rq_Query = [(''obu'', ''1'')],
     rq_Body = \<lparr>bd_doc = None, bd_size = 0, bd_err = ''EOF''\<rparr>\<rparr>"

lemma query_http_invoice_1: "query_get (rq_Query http_invoice_1) ''obu'' = Itoa 1"
  by (simp add: http_invoice_1_def go_eval)

theorem http_invoice_answer_witness:
  "fst (newHTTPHandler (\<lambda>_. writeJson 200 None) aggregator_svc 5 http_invoice_1 (new_agg_server aggregator_start)) =
     writeJson 500 (error_body ''Data not found for 1'')"
proof -
  have "svc_rel [] (sv_svc (new_agg_server aggregator_start))" by (simp add: new_agg_server_def svc_rel_start)
  from http_invoice_answer [OF this _ _ query_http_invoice_1] show ?thesis
    by (simp add: http_invoice_1_def) (simp add: go_eval)
qed

text \<open>
  The open-connection gauges count the connections: after any sequence of state changes and
  transport events the HTTP gauge is the number of new connections less the closed and hijacked
  ones, and the gRPC gauge is the number of connections that began less those that ended.
\<close>

theorem open_connection_gauges:
  "sv_openConnections (foldl (\<lambda>sv e. case e of Inl c \<Rightarrow> ConnState c sv | Inr c \<Rightarrow> HandleConn c sv) sv es) ''http'' =
     sv_openConnections sv ''http'' + int (count_list es (Inl StateNew))
       - int (count_list es (Inl StateClosed)) - int (count_list es (Inl StateHijacked))
   \<and> sv_openConnections (foldl (\<lambda>sv e. case e of Inl c \<Rightarrow> ConnState c sv | Inr c \<Rightarrow> HandleConn c sv) sv es) ''grpc'' =
     sv_openConnections sv ''grpc'' + int (count_list es (Inr ConnBegin)) - int (count_list es (Inr ConnEnd))"
proof (induction es arbitrary: sv)
  case (Cons e es)
  show ?case
    by (cases e; cases "projl e"; cases "projr e") (simp_all add: Cons.IH ConnState_def HandleConn_def Let_def)
qed simp

definition event_huge :: Distance where
  "event_huge = event_a\<lparr>d_Value := F64 0x7FE1CCF385EBC8A0\<rparr>"

lemma event_huge_facts:
  "valid_distance event_huge" "counted [(now, event_huge)] = [event_huge]"
  "balance [event_huge] 1 = Some (F64 0x7FE1CCF385EBC8A0)" "\<not> isFinite (fmul (F64 0x7FE1CCF385EBC8A0) basePrice)"
  by (simp_all add: event_huge_def counted_def go_eval float_eval)

text \<open>
  C38: A response of status 200 need not carry an invoice: a total of 10^308 is accepted and billed,
  but its amount overflows, \<open>json.Encoder\<close> refuses it after the status was sent, and the body is empty.
\<close>

theorem http_invoice_overflow:
  "let rs = [(t, event_huge)]; s = snd (Aggregate_all aggregator_svc aggregator_start rs)
   in fst (Aggregate_all aggregator_svc aggregator_start rs) = [Inr True]
      \<and> fst (newHTTPHandler prom aggregator_svc now http_invoice_1 (new_agg_server s)) =
          \<lparr>rs_Status = 200, rs_Allow = None, rs_Body = None\<rparr>"
proof -
  let ?s = "snd (Aggregate_all aggregator_svc aggregator_start [(t, event_huge)])"
  have "svc_rel [event_huge] (sv_svc (new_agg_server ?s))"
    using svc.aggregate_all_counted [OF svc_rel_start, of "[(t, event_huge)]"] event_huge_facts(2) [of t]
    by (simp add: new_agg_server_def)
  note resp = svc.http_invoice [OF this _ _ query_http_invoice_1, of prom now]
  have "encode_Invoice \<lparr>i_OBUID = 1, i_TotalDist = F64 0x7FE1CCF385EBC8A0,
      i_Amount = fmul (F64 0x7FE1CCF385EBC8A0) basePrice\<rparr> = None"
    using event_huge_facts(4) float_lit_None [of "fmul (F64 0x7FE1CCF385EBC8A0) basePrice"]
    by (simp add: encode_Invoice_def split: option.splits)
  with resp event_huge_facts(3)
  have "fst (newHTTPHandler prom aggregator_svc now http_invoice_1 (new_agg_server ?s)) =
      \<lparr>rs_Status = 200, rs_Allow = None, rs_Body = None\<rparr>"
    by (simp add: invoice_of_def writeJson_def) (simp add: http_invoice_1_def)
  moreover have "fst (ag_AggregateDistance aggregator_svc t aggregator_start event_huge) = Inr True"
    using svc.applies [OF svc_rel_start event_huge_facts(1), of t] by (auto simp: fresh_def)
  ultimately show ?thesis by (simp add: split_beta)
qed

end
