(* ===== verification/Network.thy ===== *)
theory Network
  imports Toll_Prelude
begin

text \<open>
  The network between a client and a server, as the clients of this system see it: a call may be
  delivered and answered, its request may be lost, its answer may be lost (the client then sees a
  timeout although the server has done the work), and every request that was ever sent may reach the
  server again, or for the first time, at any later moment. A script says what happens, so that a
  theorem about every script covers every such behaviour. The server is a handler that takes the
  time of its clock, a request and its state.
\<close>

datatype net_op = Deliver int64 | LoseRequest | LoseReply int64 | Late nat int64

record ('r, 'v) network =
  nt_server :: 'v
  nt_script :: "net_op list"
  nt_sent :: "'r list"

fun exchange :: "(int64 \<Rightarrow> 'r \<Rightarrow> 'v \<Rightarrow> 'a \<times> 'v) \<Rightarrow> 'r \<Rightarrow> 'r list \<Rightarrow> net_op list \<Rightarrow> 'v \<Rightarrow>
    'a option \<times> net_op list \<times> 'v" where
  "exchange h r sent [] v = (None, [], v)"
| "exchange h r sent (Deliver now # ops) v = (let (a, v1) = h now r v in (Some a, ops, v1))"
| "exchange h r sent (LoseRequest # ops) v = (None, ops, v)"
| "exchange h r sent (LoseReply now # ops) v = (None, ops, snd (h now r v))"
| "exchange h r sent (Late k now # ops) v =
     exchange h r sent ops (if k < length sent then snd (h now (sent ! k) v) else v)"

text \<open>One call: the answer, or \<open>None\<close> where the client gives up.\<close>

definition call :: "(int64 \<Rightarrow> 'r \<Rightarrow> 'v \<Rightarrow> 'a \<times> 'v) \<Rightarrow> 'r \<Rightarrow> ('r, 'v) network \<Rightarrow>
    'a option \<times> ('r, 'v) network" where
  "call h r nw =
     (let (a, ops, v) = exchange h r (nt_sent nw) (nt_script nw) (nt_server nw)
      in (a, \<lparr>nt_server = v, nt_script = ops, nt_sent = nt_sent nw @ [r]\<rparr>))"

lemmas net_eval [go_eval] = call_def

text \<open>
  An invariant of the server state that every request keeps is kept by a call, and an answer comes
  from the handler in a state where the invariant holds.
\<close>

lemma exchange_invariant:
  assumes "\<And>now q v. q \<in> insert r (set sent) \<Longrightarrow> P v \<Longrightarrow> P (snd (h now q v))"
    and "P v" "exchange h r sent ops v = (a, ops', v')"
  shows "P v' \<and> (\<forall>x. a = Some x \<longrightarrow> (\<exists>now u. P u \<and> h now r u = (x, v')))"
  using assms(2,3)
proof (induction ops arbitrary: v)
  case (Cons op ops)
  show ?case
  proof (cases op)
    case (Deliver now)
    then show ?thesis using Cons.prems assms(1) [of r v now] by (auto split: prod.splits)
  next
    case (LoseReply now)
    then show ?thesis using Cons.prems assms(1) [of r v now] by auto
  next
    case (Late k now)
    then have "P (if k < length sent then snd (h now (sent ! k) v) else v)"
      using Cons.prems(1) assms(1) by simp
    with Cons Late show ?thesis by auto
  qed (use Cons.prems in auto)
qed simp

lemma call_invariant:
  assumes "\<And>now q v. q \<in> insert r (set (nt_sent nw)) \<Longrightarrow> P v \<Longrightarrow> P (snd (h now q v))"
    and "P (nt_server nw)" "call h r nw = (a, nw')"
  shows "P (nt_server nw') \<and> nt_sent nw' = nt_sent nw @ [r]
    \<and> (\<forall>x. a = Some x \<longrightarrow> (\<exists>now u. P u \<and> h now r u = (x, nt_server nw')))"
  using exchange_invariant [of r "nt_sent nw" P h "nt_server nw" "nt_script nw", OF assms(1,2)] assms(3)
  by (auto simp: call_def split: prod.splits)

text \<open>A delivered call is answered by the handler.\<close>

lemma call_Deliver:
  assumes "nt_script nw = Deliver now # ops"
  shows "call h r nw = (Some (fst (h now r (nt_server nw))),
    \<lparr>nt_server = snd (h now r (nt_server nw)), nt_script = ops, nt_sent = nt_sent nw @ [r]\<rparr>)"
  using assms by (simp add: call_def split_beta)

end
