(* ===== verification/Agg_Client.thy ===== *)
theory Agg_Client
  imports Agg_Server Network
begin

text \<open>
  The two clients of the aggregator (\<open>aggregator/client\<close>) behind the interface \<open>Client\<close>. What they call
  of \<open>net/http\<close> and of the generated gRPC stub is a record of functions on the state of the world
  beyond the client; the section on deployments puts the aggregator's server behind a network
  there. The locale \<open>client\<close> is what the distance calculator and the gateway may rely on: the ledger
  of the aggregator changes only by distances that were sent, and an \<open>Aggregate\<close> that reports success
  has its event in the ledger.
\<close>

datatype client_error =
    MarshalError
  | RequestError string
  | TransportError string
  | StatusError nat
  | DecodeError
  | GrpcError grpc_code
  | CloseError string

record 'w Client =
  cl_Aggregate :: "AggregateRequest \<Rightarrow> 'w \<Rightarrow> client_error option \<times> 'w"
  cl_GetInvoice :: "go_int \<Rightarrow> 'w \<Rightarrow> (client_error + Invoice) \<times> 'w"
  cl_Close :: "'w \<Rightarrow> client_error option \<times> 'w"

text \<open>The state of a client process: its metrics, and the world it calls into.\<close>

record 'n client_state =
  ct_net :: 'n
  ct_httpDuration :: "string \<times> string \<Rightarrow> nat"
  ct_httpRequests :: "string \<times> string \<times> string \<times> string \<Rightarrow> nat"
  ct_grpcDuration :: "string \<Rightarrow> nat"
  ct_grpcRequests :: "string \<times> string \<times> grpc_code \<Rightarrow> nat"

definition new_client_state :: "'n \<Rightarrow> 'n client_state" where
  "new_client_state n =
     \<lparr>ct_net = n, ct_httpDuration = (\<lambda>_. 0), ct_httpRequests = (\<lambda>_. 0), ct_grpcDuration = (\<lambda>_. 0),
      ct_grpcRequests = (\<lambda>_. 0)\<rparr>"

section \<open>The HTTP client\<close>

text \<open>
  \<open>http.NewRequestWithContext\<close>, \<open>http.Client.Do\<close>, the length of the text \<open>json.Marshal\<close> writes, and
  \<open>CloseIdleConnections\<close> of the transport.
\<close>

record 'n http_lib =
  hl_NewRequest :: "string \<Rightarrow> string \<Rightarrow> body \<Rightarrow> string + http_request"
  hl_Do :: "duration \<Rightarrow> http_request \<Rightarrow> 'n \<Rightarrow> (string + http_response) \<times> 'n"
  hl_Size :: "json \<Rightarrow> nat"
  hl_CloseIdleConnections :: "'n \<Rightarrow> 'n"

record HttpClient =
  hc_Endpoint :: string
  hc_Timeout :: duration

definition trim_right :: "char \<Rightarrow> string \<Rightarrow> string" where
  "trim_right c s = rev (dropWhile (\<lambda>x. x = c) (rev s))"

definition NewHttpClientWithTimeout :: "string \<Rightarrow> duration \<Rightarrow> HttpClient" where
  "NewHttpClientWithTimeout endpoint timeout =
     \<lparr>hc_Endpoint = trim_right CHR ''/'' endpoint, hc_Timeout = timeout\<rparr>"

definition NewHttpClient :: "string \<Rightarrow> HttpClient" where
  "NewHttpClient endpoint = NewHttpClientWithTimeout endpoint 2000000000"

text \<open>The deferred function that records a call under its final code.\<close>

definition http_observe :: "string \<Rightarrow> string \<Rightarrow> string \<Rightarrow> 'n client_state \<Rightarrow> 'n client_state" where
  "http_observe method operation code w =
     w\<lparr>ct_httpDuration := inc (ct_httpDuration w) (method, operation),
       ct_httpRequests := inc (ct_httpRequests w) (''client'', method, operation, code)\<rparr>"

definition no_body :: body where
  "no_body = \<lparr>bd_doc = None, bd_size = 0, bd_err = ''EOF''\<rparr>"

definition marshalled :: "'n http_lib \<Rightarrow> json \<Rightarrow> body" where
  "marshalled lib doc =
     \<lparr>bd_doc = Some doc, bd_size = hl_Size lib doc, bd_err = ''http: request body too large''\<rparr>"

definition HttpClient_Aggregate :: "'n http_lib \<Rightarrow> HttpClient \<Rightarrow> AggregateRequest \<Rightarrow>
    'n client_state \<Rightarrow> client_error option \<times> 'n client_state" where
  "HttpClient_Aggregate lib c req w =
     (let (err, code, w1) =
        (case encode_Distance (request_distance req) of
           None \<Rightarrow> (Some MarshalError, ''client_error'', w)
         | Some doc \<Rightarrow>
             (case hl_NewRequest lib ''POST'' (hc_Endpoint c @ ''/agg'') (marshalled lib doc) of
                Inl e \<Rightarrow> (Some (RequestError e), ''client_error'', w)
              | Inr r \<Rightarrow>
                  let (resp, n) = hl_Do lib (hc_Timeout c) r (ct_net w); w1 = w\<lparr>ct_net := n\<rparr>
                  in (case resp of
                        Inl e \<Rightarrow> (Some (TransportError e), ''client_error'', w1)
                      | Inr a \<Rightarrow>
                          (if rs_Status a \<noteq> 202 then Some (StatusError (rs_Status a)) else None,
                           show_nat (rs_Status a), w1))))
      in (err, http_observe ''POST'' ''aggregate'' code w1))"

definition HttpClient_GetInvoice :: "'n http_lib \<Rightarrow> HttpClient \<Rightarrow> go_int \<Rightarrow>
    'n client_state \<Rightarrow> (client_error + Invoice) \<times> 'n client_state" where
  "HttpClient_GetInvoice lib c i w =
     (let (res, code, w1) =
        (case hl_NewRequest lib ''GET'' (hc_Endpoint c @ ''/invoice?obu='' @ Itoa i) no_body of
           Inl e \<Rightarrow> (Inl (RequestError e), ''client_error'', w)
         | Inr r \<Rightarrow>
             let (resp, n) = hl_Do lib (hc_Timeout c) r (ct_net w); w1 = w\<lparr>ct_net := n\<rparr>
             in (case resp of
                   Inl e \<Rightarrow> (Inl (TransportError e), ''client_error'', w1)
                 | Inr a \<Rightarrow>
                     (if rs_Status a \<noteq> 200 then Inl (StatusError (rs_Status a))
                      else (case Option.bind (rs_Body a) decode_Invoice of
                              None \<Rightarrow> Inl DecodeError
                            | Some bill \<Rightarrow> Inr bill),
                      show_nat (rs_Status a), w1)))
      in (res, http_observe ''GET'' ''invoice'' code w1))"

definition HttpClient_Close :: "'n http_lib \<Rightarrow> HttpClient \<Rightarrow> 'n client_state \<Rightarrow>
    client_error option \<times> 'n client_state" where
  "HttpClient_Close lib c w = (None, w\<lparr>ct_net := hl_CloseIdleConnections lib (ct_net w)\<rparr>)"

definition httpClient :: "'n http_lib \<Rightarrow> HttpClient \<Rightarrow> 'n client_state Client" where
  "httpClient lib c =
     \<lparr>cl_Aggregate = HttpClient_Aggregate lib c, cl_GetInvoice = HttpClient_GetInvoice lib c,
      cl_Close = HttpClient_Close lib c\<rparr>"

section \<open>The gRPC client\<close>

text \<open>
  \<open>grpc.NewClient\<close>, which may refuse an endpoint, the generated stub, reduced to the status code of the
  call, and \<open>Close\<close> of the connection.
\<close>

record 'n grpc_lib =
  gl_NewClient :: "string \<Rightarrow> string option"
  gl_Aggregate :: "duration \<Rightarrow> AggregateRequest \<Rightarrow> 'n \<Rightarrow> grpc_code \<times> 'n"
  gl_Close :: "'n \<Rightarrow> string option \<times> 'n"

record GrpcClient =
  gc_Endpoint :: string
  gc_timeout :: duration

definition NewGrpcClientWithTimeout :: "'n grpc_lib \<Rightarrow> string \<Rightarrow> duration \<Rightarrow> string + GrpcClient" where
  "NewGrpcClientWithTimeout lib ep timeout =
     (case gl_NewClient lib ep of
        Some err \<Rightarrow> Inl err
      | None \<Rightarrow> Inr \<lparr>gc_Endpoint = ep, gc_timeout = timeout\<rparr>)"

definition NewGrpcClient :: "'n grpc_lib \<Rightarrow> string \<Rightarrow> string + GrpcClient" where
  "NewGrpcClient lib ep = NewGrpcClientWithTimeout lib ep 2000000000"

definition GrpcClient_Aggregate :: "'n grpc_lib \<Rightarrow> GrpcClient \<Rightarrow> AggregateRequest \<Rightarrow>
    'n client_state \<Rightarrow> client_error option \<times> 'n client_state" where
  "GrpcClient_Aggregate lib g req w =
     (let (code, n) = gl_Aggregate lib (gc_timeout g) req (ct_net w);
          w1 = w\<lparr>ct_net := n, ct_grpcDuration := inc (ct_grpcDuration w) ''Aggregate'',
                 ct_grpcRequests := inc (ct_grpcRequests w) (''client'', ''Aggregate'', code)\<rparr>
      in (if code \<noteq> OK then Some (GrpcError code) else None, w1))"

definition GrpcClient_GetInvoice :: "go_int \<Rightarrow> 'n client_state \<Rightarrow>
    (client_error + Invoice) \<times> 'n client_state" where
  "GrpcClient_GetInvoice i w = (Inl (GrpcError Unimplemented), w)"

definition GrpcClient_Close :: "'n grpc_lib \<Rightarrow> 'n client_state \<Rightarrow> client_error option \<times> 'n client_state" where
  "GrpcClient_Close lib w =
     (let (err, n) = gl_Close lib (ct_net w) in (map_option CloseError err, w\<lparr>ct_net := n\<rparr>))"

definition grpcClient :: "'n grpc_lib \<Rightarrow> GrpcClient \<Rightarrow> 'n client_state Client" where
  "grpcClient lib g =
     \<lparr>cl_Aggregate = GrpcClient_Aggregate lib g, cl_GetInvoice = GrpcClient_GetInvoice, cl_Close = GrpcClient_Close lib\<rparr>"

lemmas client_eval [go_eval] =
  new_client_state_def trim_right_def NewHttpClientWithTimeout_def NewHttpClient_def http_observe_def
  no_body_def marshalled_def HttpClient_Aggregate_def HttpClient_GetInvoice_def httpClient_def
  NewGrpcClientWithTimeout_def NewGrpcClient_def GrpcClient_Aggregate_def GrpcClient_GetInvoice_def
  grpcClient_def HttpClient_Close_def GrpcClient_Close_def

section \<open>Deployments\<close>

text \<open>
  The aggregator behind a network. \<open>parse\<close> is \<open>url.Parse\<close> reduced to what a server sees of the URL, its
  path and its query; \<open>jsize\<close> is the length of a rendered JSON value. Protocol buffers refuse to marshal
  a string that is not UTF-8.
\<close>

definition deployed_http :: "(string \<Rightarrow> (string \<times> (string \<times> string) list) option) \<Rightarrow> (json \<Rightarrow> nat) \<Rightarrow>
    (http_request \<Rightarrow> http_response) \<Rightarrow> 's Aggregator \<Rightarrow> (http_request, 's agg_server) network http_lib" where
  "deployed_http parse jsize prom A =
     \<lparr>hl_NewRequest = (\<lambda>m url b. case parse url of
          None \<Rightarrow> Inl (''parse '' @ url)
        | Some (path, query) \<Rightarrow>
            Inr \<lparr>rq_Method = m, rq_Path = path, rq_Query = query, rq_Body = b\<rparr>),
      hl_Do = (\<lambda>timeout r nw. case call (newHTTPHandler prom A) r nw of
          (None, nw') \<Rightarrow> (Inl ''context deadline exceeded'', nw')
        | (Some resp, nw') \<Rightarrow> (Inr resp, nw')),
      hl_Size = jsize, hl_CloseIdleConnections = (\<lambda>nw. nw)\<rparr>"

definition deployed_grpc :: "'s Aggregator \<Rightarrow> (AggregateRequest, 's agg_server) network grpc_lib" where
  "deployed_grpc A =
     \<lparr>gl_NewClient = (\<lambda>ep. None),
      gl_Aggregate = (\<lambda>timeout req nw.
        if \<not> utf8 (ar_EventID req) then (Internal, nw)
        else case call (newGRPCServer A) req nw of
          (None, nw') \<Rightarrow> (DeadlineExceeded, nw')
        | (Some code, nw') \<Rightarrow> (code, nw')),
      gl_Close = (\<lambda>nw. (None, nw))\<rparr>"

text \<open>The client for the default endpoint.\<close>

definition grpc_local :: GrpcClient where
  "grpc_local = \<lparr>gc_Endpoint = ''localhost:3001'', gc_timeout = 2000000000\<rparr>"

lemmas deployed_eval [go_eval] = deployed_http_def deployed_grpc_def

section \<open>The contract of the interface\<close>

text \<open>
  \<open>state S L w\<close>: in the world \<open>w\<close> the aggregator's ledger is \<open>L\<close>, and \<open>S\<close> holds every distance that was
  sent to it.
\<close>

definition billed :: "Distance set \<Rightarrow> ledger \<Rightarrow> bool" where
  "billed S L \<longleftrightarrow> set L \<subseteq> S \<and> (\<forall>d \<in> set L. valid_distance d) \<and> distinct (ids L)"

locale client =
  fixes C :: "'w Client"
    and state :: "Distance set \<Rightarrow> ledger \<Rightarrow> 'w \<Rightarrow> bool"
  assumes state_billed: "state S L w \<Longrightarrow> billed S L"
    and aggregate: "state S L w \<Longrightarrow> utf8 (ar_EventID req) \<Longrightarrow> cl_Aggregate C req w = (err, w') \<Longrightarrow>
      \<exists>M. state (insert (request_distance req) S) (L @ M) w' \<and>
        (err = None \<longrightarrow> valid_distance (request_distance req) \<and> ar_EventID req \<in> set (ids (L @ M)))"
    and get_invoice: "state S L w \<Longrightarrow> cl_GetInvoice C i w = (res, w') \<Longrightarrow>
      \<exists>M. state S (L @ M) w' \<and> (\<forall>bill. res = Inr bill \<longrightarrow> invoice_of (L @ M) i = Inr bill \<and> encode_Invoice bill \<noteq> None)"

lemma billed_Nil [simp]: "billed S []"
  by (simp add: billed_def)

lemma billed_mono: "billed S L \<Longrightarrow> S \<subseteq> T \<Longrightarrow> billed T L"
  by (auto simp: billed_def)

lemma billed_record: "billed S L \<Longrightarrow> valid_distance d \<Longrightarrow> d \<in> S \<Longrightarrow> billed S (record_event L d)"
  by (auto simp: billed_def record_event_def distinct_record [unfolded record_event_def] fresh_def ids_Cons)

lemma mem_ids_record: "d_EventID d \<noteq> '''' \<Longrightarrow> d_EventID d \<in> set (ids (record_event L d))"
  by (auto simp: record_event_def fresh_def ids_Cons)

lemma record_event_extends: "\<exists>M. record_event L d = L @ M"
  by (auto simp: record_event_def)

text \<open>
  What a request does to the ledger, by the distance it carries, and what a call over the network
  leaves behind: the ledger has grown by distances that were sent, and an answer was given in a state
  whose ledger had grown in the same way.
\<close>

definition applied :: "Distance option \<Rightarrow> ledger \<Rightarrow> ledger" where
  "applied x L = (case x of Some d \<Rightarrow> (if valid_distance d then record_event L d else L) | None \<Rightarrow> L)"

lemma applied_extends: "\<exists>M. applied x L = L @ M"
  using record_event_extends by (auto simp: applied_def split: option.splits)

lemma applied_billed: "billed S L \<Longrightarrow> set_option x \<subseteq> S \<Longrightarrow> billed S (applied x L)"
  by (auto simp: applied_def billed_record split: option.splits)

lemma applied_mem: "valid_distance d \<Longrightarrow> d_EventID d \<in> set (ids (applied (Some d) L))"
  by (simp add: applied_def mem_ids_record valid_distance_def)

definition grown :: "(ledger \<Rightarrow> 's \<Rightarrow> bool) \<Rightarrow> Distance set \<Rightarrow> ledger \<Rightarrow> 's agg_server \<Rightarrow> bool" where
  "grown rel S L sv \<longleftrightarrow> (\<exists>M. rel (L @ M) (sv_svc sv) \<and> billed S (L @ M))"

lemma call_grown:
  fixes nw :: "('r, 's agg_server) network"
  assumes step: "\<And>now q L v. q \<in> insert r (set (nt_sent nw)) \<Longrightarrow> rel L (sv_svc v) \<Longrightarrow>
        rel (applied (f q) L) (sv_svc (snd (h now q v)))"
    and sent: "\<And>q. q \<in> insert r (set (nt_sent nw)) \<Longrightarrow> set_option (f q) \<subseteq> S"
    and start: "rel L (sv_svc (nt_server nw))" "billed S L"
    and call: "call h r nw = (a, nw')"
  shows "nt_sent nw' = nt_sent nw @ [r] \<and> (\<exists>M. rel (L @ M) (sv_svc (nt_server nw')) \<and> billed S (L @ M)
    \<and> (\<forall>x. a = Some x \<longrightarrow> (\<exists>now u K. rel K (sv_svc u) \<and> h now r u = (x, nt_server nw')
        \<and> L @ M = applied (f r) K)))"
proof -
  have keep: "\<exists>M. applied (f q) (L @ K) = L @ M \<and> rel (L @ M) (sv_svc (snd (h now q v))) \<and> billed S (L @ M)"
    if "q \<in> insert r (set (nt_sent nw))" "rel (L @ K) (sv_svc v)" "billed S (L @ K)" for now q v K
    using step [OF that(1,2), of now] applied_billed [OF that(3) sent [OF that(1)]]
      applied_extends [of "f q" "L @ K"] by auto
  have "grown rel S L (nt_server nw)"
    unfolding grown_def using start by (intro exI [of _ "[]"]) simp
  moreover have "grown rel S L (snd (h now q v))"
    if "q \<in> insert r (set (nt_sent nw))" "grown rel S L v" for now q v
    using keep [OF that(1)] that(2) by (auto simp: grown_def) metis
  ultimately have inv: "grown rel S L (nt_server nw')" "nt_sent nw' = nt_sent nw @ [r]"
    "\<forall>x. a = Some x \<longrightarrow> (\<exists>now u. grown rel S L u \<and> h now r u = (x, nt_server nw'))"
    using call_invariant [of r nw "grown rel S L" h, OF _ _ call] by auto
  show ?thesis
  proof (cases a)
    case None
    then show ?thesis using inv by (auto simp: grown_def)
  next
    case (Some x)
    then obtain now u K where u: "rel (L @ K) (sv_svc u)" "billed S (L @ K)" "h now r u = (x, nt_server nw')"
      using inv(3) by (auto simp: grown_def)
    then show ?thesis using keep [of r K u now] inv(2) Some by fastforce
  qed
qed

section \<open>The gRPC deployment keeps the contract\<close>

definition grpc_state :: "(ledger \<Rightarrow> 's \<Rightarrow> bool) \<Rightarrow> Distance set \<Rightarrow> ledger \<Rightarrow>
    (AggregateRequest, 's agg_server) network client_state \<Rightarrow> bool" where
  "grpc_state rel S L w \<longleftrightarrow>
     rel L (sv_svc (nt_server (ct_net w))) \<and> billed S L
     \<and> (\<forall>req \<in> set (nt_sent (ct_net w)). request_distance req \<in> S)"

lemma d_EventID_request [simp]: "d_EventID (request_distance req) = ar_EventID req"
  by (simp add: request_distance_def)

context aggregator
begin

lemma grpc_applied:
  "rel L (sv_svc sv) \<Longrightarrow> rel (applied (Some (request_distance req)) L) (sv_svc (snd (newGRPCServer A now req sv)))"
  using grpc_request [of L sv now req] by (simp add: applied_def)

lemma grpc_OK:
  "rel L (sv_svc u) \<Longrightarrow> newGRPCServer A now req u = (OK, sv) \<Longrightarrow> valid_distance (request_distance req)"
  using grpc_request [of L u now req] by (simp split: if_splits)

lemma grpc_aggregate:
  assumes st: "grpc_state rel S L w" and agg: "GrpcClient_Aggregate (deployed_grpc A) g req w = (err, w')"
  shows "\<exists>M. grpc_state rel (insert (request_distance req) S) (L @ M) w' \<and>
    (err = None \<longrightarrow> valid_distance (request_distance req) \<and> ar_EventID req \<in> set (ids (L @ M)))"
proof (cases "utf8 (ar_EventID req)")
  case False
  with st agg have "grpc_state rel (insert (request_distance req) S) (L @ []) w' \<and> err \<noteq> None"
    by (auto simp: GrpcClient_Aggregate_def deployed_grpc_def grpc_state_def intro: billed_mono)
  then show ?thesis by blast
next
  case True
  let ?d = "request_distance req" and ?nw = "ct_net w"
  obtain a nw' where c: "call (newGRPCServer A) req ?nw = (a, nw')" by (cases "call (newGRPCServer A) req ?nw")
  have net: "ct_net w' = nw'" and ok: "err = None \<longleftrightarrow> a = Some OK"
    using agg c True by (auto simp: GrpcClient_Aggregate_def deployed_grpc_def split: option.splits if_splits)
  have b: "billed (insert ?d S) L" using st billed_mono [of S L] by (auto simp: grpc_state_def)
  have sent: "q \<in> insert req (set (nt_sent ?nw)) \<Longrightarrow> request_distance q \<in> insert ?d S" for q
    using st by (auto simp: grpc_state_def)
  obtain M where M: "nt_sent nw' = nt_sent ?nw @ [req]" "rel (L @ M) (sv_svc (nt_server nw'))"
    "billed (insert ?d S) (L @ M)" "\<forall>x. a = Some x \<longrightarrow> (\<exists>now u K. rel K (sv_svc u) \<and>
      newGRPCServer A now req u = (x, nt_server nw') \<and> L @ M = applied (Some ?d) K)"
    using call_grown [of req ?nw rel "\<lambda>q. Some (request_distance q)" "newGRPCServer A", OF _ _ _ b c]
      grpc_applied sent st by (auto simp: grpc_state_def)
  have "err = None \<longrightarrow> valid_distance ?d \<and> ar_EventID req \<in> set (ids (L @ M))"
    using ok M(4) grpc_OK applied_mem [of ?d] by (metis d_EventID_request)
  moreover have "grpc_state rel (insert ?d S) (L @ M) w'"
    using M(1-3) sent net by (simp add: grpc_state_def)
  ultimately show ?thesis by blast
qed

lemma grpc_client: "client (grpcClient (deployed_grpc A) g) (grpc_state rel)"
proof
  fix S L w req err w'
  assume st: "grpc_state rel S L w"
  show "billed S L" using st by (simp add: grpc_state_def)
  assume "cl_Aggregate (grpcClient (deployed_grpc A) g) req w = (err, w')"
  then show "\<exists>M. grpc_state rel (insert (request_distance req) S) (L @ M) w' \<and>
      (err = None \<longrightarrow> valid_distance (request_distance req) \<and> ar_EventID req \<in> set (ids (L @ M)))"
    using grpc_aggregate [OF st] by (simp add: grpcClient_def)
next
  fix S L w i w' and res :: "client_error + Invoice"
  assume "grpc_state rel S L w" "cl_GetInvoice (grpcClient (deployed_grpc A) g) i w = (res, w')"
  then show "\<exists>M. grpc_state rel S (L @ M) w' \<and> (\<forall>bill. res = Inr bill \<longrightarrow> invoice_of (L @ M) i = Inr bill \<and> encode_Invoice bill \<noteq> None)"
    by (intro exI [of _ "[]"]) (auto simp: grpcClient_def GrpcClient_GetInvoice_def)
qed

end

section \<open>The HTTP deployment keeps the contract\<close>

definition http_distance :: "http_request \<Rightarrow> Distance option" where
  "http_distance r = (if rq_Path r = ''/agg'' \<and> rq_Method r = ''POST'' then decode_body (rq_Body r) else None)"

definition http_state :: "(ledger \<Rightarrow> 's \<Rightarrow> bool) \<Rightarrow> Distance set \<Rightarrow> ledger \<Rightarrow>
    (http_request, 's agg_server) network client_state \<Rightarrow> bool" where
  "http_state rel S L w \<longleftrightarrow>
     rel L (sv_svc (nt_server (ct_net w))) \<and> billed S L
     \<and> (\<forall>r \<in> set (nt_sent (ct_net w)). set_option (http_distance r) \<subseteq> S)"

lemma http_observe_net [simp]: "ct_net (http_observe m r c w) = ct_net w"
  by (simp add: http_observe_def)

lemma decode_marshalled:
  assumes "isFinite (d_Value d)" "utf8 (d_EventID d)" "encode_Distance d = Some doc"
  shows "decode_body (marshalled lib doc) = (if 2 ^ 20 < hl_Size lib doc then None else Some d)"
  using Distance_roundtrip [OF assms(1,2)] assms(3) by (auto simp: decode_body_def marshalled_def)

lemma encode_Distance_finite: "encode_Distance d = Some doc \<Longrightarrow> isFinite (d_Value d)"
  using float_lit_None [of "d_Value d"] by (auto simp: encode_Distance_def split: option.splits)

lemma encode_Invoice_decodes:
  assumes "encode_Invoice b = Some v" shows "decode_Invoice v = Some b"
proof -
  have "isFinite (i_TotalDist b)" "isFinite (i_Amount b)"
    using assms float_lit_None [of "i_TotalDist b"] float_lit_None [of "i_Amount b"]
    by (auto simp: encode_Invoice_def split: option.splits)
  then show ?thesis using Invoice_roundtrip [of b] assms by auto
qed

context aggregator
begin

lemma http_applied:
  assumes "rel L (sv_svc sv)"
  shows "rel (applied (http_distance r) L) (sv_svc (snd (newHTTPHandler prom A now r sv)))"
proof (cases "rq_Path r = ''/agg''")
  case True
  show ?thesis
  proof (cases "rq_Method r = ''POST''")
    case post: True
    then show ?thesis
      using True http_request [OF assms True post] http_malformed [OF assms True post] assms
      by (cases "decode_body (rq_Body r)") (auto simp: http_distance_def applied_def)
  next
    case False
    with True assms show ?thesis
      by (simp add: http_distance_def applied_def newHTTPHandler_def handleAggregate_def)
  qed
next
  case False
  then have "http_distance r = None" by (simp add: http_distance_def)
  moreover have "rel L (snd (ag_CalculateInvoice A (sv_svc sv) i))" for i
    using invoices [OF assms, of i] by auto
  then have "rel L (sv_svc (snd (handleGetInvoice A r sv)))"
    using assms by (auto simp: handleGetInvoice_def Let_def split_beta split: option.splits sum.splits)
  ultimately show ?thesis
    using False assms by (auto simp: newHTTPHandler_def applied_def handleReconciliation_def)
qed

lemma http_accepted:
  assumes "rel L (sv_svc u)" "newHTTPHandler prom A now r u = (resp, sv)" "rq_Path r = ''/agg''"
    "rq_Method r = ''POST''" "rs_Status resp = 202"
  shows "\<exists>d. http_distance r = Some d \<and> valid_distance d"
proof (cases "decode_body (rq_Body r)")
  case None
  then show ?thesis using http_malformed [OF assms(1,3,4) None, of prom now] assms(2,5) by simp
next
  case (Some d)
  then show ?thesis
    using http_request [OF assms(1,3,4) Some, of prom now] assms by (auto simp: http_distance_def split: if_splits)
qed

end

text \<open>An endpoint whose URLs parse as the client means them.\<close>

locale http_endpoint = aggregator A rel for A :: "'s Aggregator" and rel +
  fixes parse :: "string \<Rightarrow> (string \<times> (string \<times> string) list) option"
    and c :: HttpClient
    and jsize :: "json \<Rightarrow> nat"
    and prom :: "http_request \<Rightarrow> http_response"
  assumes parse_agg: "parse (hc_Endpoint c @ ''/agg'') = Some (''/agg'', [])"
    and parse_invoice: "parse (hc_Endpoint c @ ''/invoice?obu='' @ Itoa i) = Some (''/invoice'', [(''obu'', Itoa i)])"
begin

lemma http_do:
  assumes st: "http_state rel S L w" and sent: "set_option (http_distance r) \<subseteq> T" "S \<subseteq> T"
    and run: "hl_Do (deployed_http parse jsize prom A) t r (ct_net w) = (resp, nw')"
  shows "\<exists>M. http_state rel T (L @ M) (w\<lparr>ct_net := nw'\<rparr>) \<and> (\<forall>a. resp = Inr a \<longrightarrow>
    (\<exists>now u K. rel K (sv_svc u) \<and> newHTTPHandler prom A now r u = (a, nt_server nw')
      \<and> L @ M = applied (http_distance r) K))"
proof -
  let ?nw = "ct_net w" and ?h = "newHTTPHandler prom A"
  obtain a where c: "call ?h r ?nw = (a, nw')" "\<forall>x. resp = Inr x \<longrightarrow> a = Some x"
    using run by (auto simp: deployed_http_def split: prod.splits option.splits)
  have "billed T L" using st sent(2) by (auto simp: http_state_def intro: billed_mono)
  moreover have s: "q \<in> insert r (set (nt_sent ?nw)) \<Longrightarrow> set_option (http_distance q) \<subseteq> T" for q
    using st sent by (auto simp: http_state_def)
  ultimately obtain M where "nt_sent nw' = nt_sent ?nw @ [r]" "rel (L @ M) (sv_svc (nt_server nw'))"
    "billed T (L @ M)" "\<forall>x. a = Some x \<longrightarrow> (\<exists>now u K. rel K (sv_svc u) \<and>
      ?h now r u = (x, nt_server nw') \<and> L @ M = applied (http_distance r) K)"
    using call_grown [of r ?nw rel http_distance ?h T L, OF _ _ _ _ c(1)] http_applied st
    by (auto simp: http_state_def)
  then show ?thesis using s c(2) by (intro exI [of _ M]) (auto simp: http_state_def)
qed

lemma http_aggregate:
  assumes st: "http_state rel S L w" and utf8: "utf8 (ar_EventID req)"
    and agg: "HttpClient_Aggregate (deployed_http parse jsize prom A) c req w = (err, w')"
  shows "\<exists>M. http_state rel (insert (request_distance req) S) (L @ M) w' \<and>
    (err = None \<longrightarrow> valid_distance (request_distance req) \<and> ar_EventID req \<in> set (ids (L @ M)))"
proof (cases "encode_Distance (request_distance req)")
  case None
  with st agg have "http_state rel (insert (request_distance req) S) (L @ []) w' \<and> err \<noteq> None"
    by (auto simp: HttpClient_Aggregate_def http_state_def intro: billed_mono)
  then show ?thesis by blast
next
  case (Some doc)
  let ?d = "request_distance req" and ?lib = "deployed_http parse jsize prom A"
  let ?r = "\<lparr>rq_Method = ''POST'', rq_Path = ''/agg'', rq_Query = [], rq_Body = marshalled ?lib doc\<rparr>"
  obtain resp nw' where d: "hl_Do ?lib (hc_Timeout c) ?r (ct_net w) = (resp, nw')"
    by (cases "hl_Do ?lib (hc_Timeout c) ?r (ct_net w)")
  have new: "hl_NewRequest ?lib ''POST'' (hc_Endpoint c @ ''/agg'') b = Inr (?r\<lparr>rq_Body := b\<rparr>)" for b
    by (simp add: deployed_http_def parse_agg)
  have net: "ct_net w' = nw'" and ok: "err = None \<longrightarrow> (\<exists>a. resp = Inr a \<and> rs_Status a = 202)"
    using agg Some new d by (auto simp: HttpClient_Aggregate_def Let_def split: sum.splits if_splits)
  have dist: "set_option (http_distance ?r) \<subseteq> {?d}"
    using decode_marshalled [of ?d doc ?lib] encode_Distance_finite [OF Some] utf8 Some
    by (simp add: http_distance_def)
  obtain M where M: "http_state rel (insert ?d S) (L @ M) (w\<lparr>ct_net := nw'\<rparr>)"
    "\<forall>a. resp = Inr a \<longrightarrow> (\<exists>now u K. rel K (sv_svc u) \<and> newHTTPHandler prom A now ?r u = (a, nt_server nw')
      \<and> L @ M = applied (http_distance ?r) K)"
    using http_do [OF st subset_trans [OF dist] subset_insertI d] by blast
  have "valid_distance ?d \<and> ar_EventID req \<in> set (ids (L @ M))" if "err = None"
  proof -
    obtain a now u K where a: "rs_Status a = 202" "rel K (sv_svc u)"
      "newHTTPHandler prom A now ?r u = (a, nt_server nw')" "L @ M = applied (http_distance ?r) K"
      using ok \<open>err = None\<close> M(2) by auto
    then have "http_distance ?r = Some ?d" "valid_distance ?d"
      using http_accepted [OF a(2,3)] dist by auto
    then show ?thesis using a(4) applied_mem [of ?d K] by simp
  qed
  then show ?thesis using M(1) net by (intro exI [of _ M]) (simp add: http_state_def)
qed

lemma http_get_invoice:
  assumes st: "http_state rel S L w"
    and run: "HttpClient_GetInvoice (deployed_http parse jsize prom A) c i w = (res, w')"
  shows "\<exists>M. http_state rel S (L @ M) w' \<and> (\<forall>bill. res = Inr bill \<longrightarrow> invoice_of (L @ M) i = Inr bill \<and> encode_Invoice bill \<noteq> None)"
proof -
  let ?lib = "deployed_http parse jsize prom A"
  let ?r = "\<lparr>rq_Method = ''GET'', rq_Path = ''/invoice'', rq_Query = [(''obu'', Itoa i)], rq_Body = no_body\<rparr>"
  obtain resp nw' where d: "hl_Do ?lib (hc_Timeout c) ?r (ct_net w) = (resp, nw')"
    by (cases "hl_Do ?lib (hc_Timeout c) ?r (ct_net w)")
  have new: "hl_NewRequest ?lib ''GET'' (hc_Endpoint c @ ''/invoice?obu='' @ Itoa i) no_body = Inr ?r"
    using parse_invoice [of i] by (simp add: deployed_http_def)
  have net: "ct_net w' = nw'" and ok: "\<forall>bill. res = Inr bill \<longrightarrow>
      (\<exists>a. resp = Inr a \<and> rs_Status a = 200 \<and> Option.bind (rs_Body a) decode_Invoice = Some bill)"
    using run new d by (auto simp: HttpClient_GetInvoice_def Let_def split: sum.splits if_splits option.splits)
  have nothing: "http_distance ?r = None" by (simp add: http_distance_def)
  then obtain M where M: "http_state rel S (L @ M) (w\<lparr>ct_net := nw'\<rparr>)"
    "\<forall>a. resp = Inr a \<longrightarrow> (\<exists>now u. rel (L @ M) (sv_svc u) \<and> newHTTPHandler prom A now ?r u = (a, nt_server nw'))"
    using http_do [OF st _ _ d, of S] by (auto simp: applied_def)
  have "invoice_of (L @ M) i = Inr bill \<and> encode_Invoice bill \<noteq> None" if bill: "res = Inr bill" for bill
  proof -
    obtain a where resp: "resp = Inr a" and s: "rs_Status a = 200"
      and b: "Option.bind (rs_Body a) decode_Invoice = Some bill"
      using ok bill by auto
    obtain now u where u: "rel (L @ M) (sv_svc u)" "newHTTPHandler prom A now ?r u = (a, nt_server nw')"
      using M(2) resp by auto
    then have "a = (case invoice_of (L @ M) i of Inl err \<Rightarrow> writeJson 500 (error_body (error_text err))
        | Inr bill \<Rightarrow> writeJson 200 (encode_Invoice bill))"
      using http_invoice [OF u(1), of ?r i prom now] by (simp add: query_get_def)
    then obtain b where "invoice_of (L @ M) i = Inr b" "Option.bind (encode_Invoice b) decode_Invoice = Some bill"
      using s b by (auto simp: writeJson_def split: sum.splits)
    then show ?thesis using encode_Invoice_decodes [of b] by (cases "encode_Invoice b") auto
  qed
  then show ?thesis using M(1) net by (intro exI [of _ M]) (simp add: http_state_def)
qed

lemma http_client: "client (httpClient (deployed_http parse jsize prom A) c) (http_state rel)"
proof
  fix S L w req err w'
  assume st: "http_state rel S L w"
  show "billed S L" using st by (simp add: http_state_def)
  assume "utf8 (ar_EventID req)" "cl_Aggregate (httpClient (deployed_http parse jsize prom A) c) req w = (err, w')"
  then show "\<exists>M. http_state rel (insert (request_distance req) S) (L @ M) w' \<and>
      (err = None \<longrightarrow> valid_distance (request_distance req) \<and> ar_EventID req \<in> set (ids (L @ M)))"
    using http_aggregate [OF st] by (simp add: httpClient_def)
next
  fix S L w i w' res
  assume "http_state rel S L w" "cl_GetInvoice (httpClient (deployed_http parse jsize prom A) c) i w = (res, w')"
  then show "\<exists>M. http_state rel S (L @ M) w' \<and> (\<forall>bill. res = Inr bill \<longrightarrow> invoice_of (L @ M) i = Inr bill \<and> encode_Invoice bill \<noteq> None)"
    using http_get_invoice by (simp add: httpClient_def)
qed

end

section \<open>The deployed clients\<close>

text \<open>
  The URLs the client builds, without user information, escapes or a fragment: the path follows the
  authority and the query consists of pairs \<open>key=value\<close>.
\<close>

definition split_at :: "char \<Rightarrow> string \<Rightarrow> string \<times> string" where
  "split_at c s = (takeWhile (\<lambda>x. x \<noteq> c) s, drop 1 (dropWhile (\<lambda>x. x \<noteq> c) s))"

definition plain_url :: "string \<Rightarrow> (string \<times> (string \<times> string) list) option" where
  "plain_url url =
     (if take 7 url \<noteq> ''http://'' then None
      else let (path, query) = split_at CHR ''?'' (dropWhile (\<lambda>x. x \<noteq> CHR ''/'') (drop 7 url))
           in Some (path, if query = '''' then [] else [split_at CHR ''='' query]))"

lemmas plain_url_eval [go_eval] = split_at_def plain_url_def

interpretation default_http: http_endpoint aggregator_svc svc_rel plain_url
    "NewHttpClient ''http://localhost:4000''" jsize prom
  for jsize prom
  by unfold_locales
    (simp_all add: NewHttpClient_def NewHttpClientWithTimeout_def trim_right_def plain_url_def split_at_def)

interpretation http: client
    "httpClient (deployed_http plain_url jsize prom aggregator_svc) (NewHttpClient ''http://localhost:4000'')"
    "http_state svc_rel"
  for jsize prom
  by (rule default_http.http_client)

interpretation grpc: client "grpcClient (deployed_grpc aggregator_svc) g" "grpc_state svc_rel" for g
  by (rule svc.grpc_client)

section \<open>Delivered calls\<close>

definition fresh_net :: "net_op list \<Rightarrow> ('r, svc_state agg_server) network" where
  "fresh_net ops = \<lparr>nt_server = new_agg_server aggregator_start, nt_script = ops, nt_sent = []\<rparr>"

lemma grpc_state_fresh: "grpc_state svc_rel {} [] (new_client_state (fresh_net ops))"
  and http_state_fresh: "http_state svc_rel {} [] (new_client_state (fresh_net ops))"
  by (simp_all add: grpc_state_def http_state_def new_client_state_def fresh_net_def new_agg_server_def
      svc_rel_start)

lemma grpc_call_delivered:
  assumes "grpc_state svc_rel S L w" "nt_script (ct_net w) = Deliver now # ops" "utf8 (ar_EventID req)"
  shows "fst (GrpcClient_Aggregate (deployed_grpc aggregator_svc) g req w) =
    (if valid_distance (request_distance req) then None else Some (GrpcError InvalidArgument))"
  using assms svc.grpc_request [of L "nt_server (ct_net w)" now req]
  by (simp add: GrpcClient_Aggregate_def deployed_grpc_def call_Deliver split_beta grpc_state_def)

lemma default_http_request:
  "hl_NewRequest (deployed_http plain_url jsize prom A) m
     (hc_Endpoint (NewHttpClient ''http://localhost:4000'') @ ''/agg'') b =
   Inr \<lparr>rq_Method = m, rq_Path = ''/agg'', rq_Query = [], rq_Body = b\<rparr>"
  using default_http.parse_agg by (simp add: deployed_http_def)

lemma http_call_delivered:
  assumes st: "http_state svc_rel S L w" and script: "nt_script (ct_net w) = Deliver now # ops"
    and good: "utf8 (ar_EventID req)" "isFinite (ar_Value req)"
    and size: "\<forall>doc. encode_Distance (request_distance req) = Some doc \<longrightarrow> jsize doc \<le> 2 ^ 20"
  shows "fst (HttpClient_Aggregate (deployed_http plain_url jsize prom aggregator_svc)
      (NewHttpClient ''http://localhost:4000'') req w) =
    (if valid_distance (request_distance req) then None else Some (StatusError 400))"
proof -
  let ?lib = "deployed_http plain_url jsize prom aggregator_svc" and ?d = "request_distance req"
  have fin: "isFinite (d_Value ?d)" using good(2) by (simp add: request_distance_def)
  obtain doc where doc: "encode_Distance ?d = Some doc" using Distance_roundtrip [OF fin] good(1) by auto
  let ?r = "\<lparr>rq_Method = ''POST'', rq_Path = ''/agg'', rq_Query = [], rq_Body = marshalled ?lib doc\<rparr>"
  have "hl_Size ?lib doc = jsize doc" by (simp add: deployed_http_def)
  then have "decode_body (rq_Body ?r) = Some ?d"
    using decode_marshalled [OF fin _ doc, of ?lib] good(1) size doc by auto
  then have "rs_Status (fst (newHTTPHandler prom aggregator_svc now ?r (nt_server (ct_net w)))) =
      (if valid_distance ?d then 202 else 400)"
    using svc.http_request [of L "nt_server (ct_net w)" ?r ?d prom now] st by (simp add: http_state_def)
  moreover have "hl_Do ?lib t ?r (ct_net w) =
      (Inr (fst (newHTTPHandler prom aggregator_svc now ?r (nt_server (ct_net w)))),
       snd (call (newHTTPHandler prom aggregator_svc) ?r (ct_net w)))" for t
    by (simp add: deployed_http_def call_Deliver [OF script] split_beta)
  ultimately show ?thesis by (simp add: HttpClient_Aggregate_def doc default_http_request Let_def)
qed

lemma grpc_a_facts: "utf8 (ar_EventID grpc_a)" "isFinite (ar_Value grpc_a)" "valid_distance (request_distance grpc_a)"
proof -
  show "utf8 (ar_EventID grpc_a)" by (simp add: grpc_a_def) (rule utf8_ascii, simp add: byte_in_def)
qed (simp_all add: grpc_a_def request_distance_def of_int32_def valid_distance_def float_eval)

section \<open>Properties of the clients\<close>

text \<open>
  Over gRPC, success means billed: whatever the network did before and does during the call, if
  \<open>Aggregate\<close> reports no error then the distance was valid and an event with its identifier is in the
  aggregator's ledger, which has only grown by distances that were sent.
\<close>

theorem grpc_success_means_billed:
  assumes "grpc_state svc_rel S L w" "GrpcClient_Aggregate (deployed_grpc aggregator_svc) g req w = (None, w')"
    "utf8 (ar_EventID req)"
  shows "\<exists>M. grpc_state svc_rel (insert (request_distance req) S) (L @ M) w'
    \<and> valid_distance (request_distance req) \<and> ar_EventID req \<in> set (ids (L @ M))"
  using grpc.aggregate [OF assms(1,3), of g None w'] assms(2) by (auto simp: grpcClient_def)

theorem grpc_success_means_billed_witness:
  "\<exists>w' M. GrpcClient_Aggregate (deployed_grpc aggregator_svc) grpc_local grpc_a
       (new_client_state (fresh_net [LoseReply 1, Deliver 2])) = (Some (GrpcError DeadlineExceeded), fst w')
     \<and> GrpcClient_Aggregate (deployed_grpc aggregator_svc) grpc_local grpc_a
       (new_client_state (fresh_net [Deliver 2])) = (None, snd w')
     \<and> grpc_state svc_rel {request_distance grpc_a} M (snd w') \<and> ar_EventID grpc_a \<in> set (ids M)"
proof -
  let ?C = "GrpcClient_Aggregate (deployed_grpc aggregator_svc) grpc_local grpc_a"
  let ?w = "new_client_state (fresh_net [Deliver 2])"
  have "fst (?C ?w) = None"
    using grpc_call_delivered [OF grpc_state_fresh _ grpc_a_facts(1), of "[Deliver 2]" 2 "[]"] grpc_a_facts(3)
    by (simp add: new_client_state_def fresh_net_def)
  then have run: "?C ?w = (None, snd (?C ?w))" by (simp add: prod_eq_iff)
  have lost: "?C (new_client_state (fresh_net [LoseReply 1, Deliver 2])) =
      (Some (GrpcError DeadlineExceeded), snd (?C (new_client_state (fresh_net [LoseReply 1, Deliver 2]))))"
    using grpc_a_facts(1)
    by (simp add: GrpcClient_Aggregate_def deployed_grpc_def call_def new_client_state_def fresh_net_def)
  obtain M where "grpc_state svc_rel (insert (request_distance grpc_a) {}) ([] @ M) (snd (?C ?w))"
    "ar_EventID grpc_a \<in> set (ids ([] @ M))"
    using grpc_success_means_billed [OF grpc_state_fresh run grpc_a_facts(1)] by blast
  then show ?thesis using run lost by fastforce
qed

text \<open>
  Over HTTP, success means billed in the same way, whatever text length the encoder produces.
\<close>

theorem http_success_means_billed:
  assumes "http_state svc_rel S L w" "utf8 (ar_EventID req)"
    "HttpClient_Aggregate (deployed_http plain_url jsize prom aggregator_svc)
       (NewHttpClient ''http://localhost:4000'') req w = (None, w')"
  shows "\<exists>M. http_state svc_rel (insert (request_distance req) S) (L @ M) w'
    \<and> valid_distance (request_distance req) \<and> ar_EventID req \<in> set (ids (L @ M))"
  using http.aggregate [OF assms(1,2), of jsize prom None w'] assms(3) by (auto simp: httpClient_def)

theorem http_success_means_billed_witness:
  "\<exists>w' M. HttpClient_Aggregate (deployed_http plain_url (\<lambda>_. 100) (\<lambda>_. writeJson 200 None) aggregator_svc)
       (NewHttpClient ''http://localhost:4000'') grpc_a (new_client_state (fresh_net [Deliver 2])) = (None, w')
     \<and> http_state svc_rel {request_distance grpc_a} M w' \<and> ar_EventID grpc_a \<in> set (ids M)"
proof -
  let ?C = "HttpClient_Aggregate (deployed_http plain_url (\<lambda>_. 100) (\<lambda>_. writeJson 200 None) aggregator_svc)
       (NewHttpClient ''http://localhost:4000'') grpc_a (new_client_state (fresh_net [Deliver 2]))"
  have "fst ?C = None"
    using http_call_delivered [OF http_state_fresh _ grpc_a_facts(1,2), of "[Deliver 2]" 2 "[]"] grpc_a_facts(3)
    by (simp add: new_client_state_def fresh_net_def)
  then have run: "?C = (None, snd ?C)" by (simp add: prod_eq_iff)
  from http_success_means_billed [OF http_state_fresh grpc_a_facts(1) run] run show ?thesis by fastforce
qed

text \<open>
  A call that the network delivers is decided by the distance alone: the gRPC client reports
  success exactly if the distance is valid, and \<open>InvalidArgument\<close> otherwise.
\<close>

theorem grpc_delivered_outcome:
  assumes "grpc_state svc_rel S L w" "nt_script (ct_net w) = Deliver now # ops" "utf8 (ar_EventID req)"
  shows "fst (GrpcClient_Aggregate (deployed_grpc aggregator_svc) g req w) =
    (if valid_distance (request_distance req) then None else Some (GrpcError InvalidArgument))"
  by (rule grpc_call_delivered [OF assms])

theorem grpc_delivered_outcome_witness:
  "fst (GrpcClient_Aggregate (deployed_grpc aggregator_svc) grpc_local grpc_a
     (new_client_state (fresh_net [Deliver 2]))) = None"
proof -
  have "nt_script (ct_net (new_client_state (fresh_net [Deliver 2]))) = [Deliver 2]"
    by (simp add: new_client_state_def fresh_net_def)
  from grpc_delivered_outcome [OF grpc_state_fresh this grpc_a_facts(1)] grpc_a_facts(3) show ?thesis by simp
qed

section \<open>The manual test client\<close>

text \<open>\<open>aggregator/temp/main.go\<close>: one request with a fixed distance of 12.3, sent at the time \<open>now\<close>.\<close>

definition manual_request :: "int64 \<Rightarrow> AggregateRequest" where
  "manual_request now = \<lparr>ar_ObuID = 1, ar_Value = F64 0x402899999999999A, ar_ProducedAtUnixNano = now, ar_EventID = ''manual-test''\<rparr>"

definition manual_main :: "'n grpc_lib \<Rightarrow> int64 \<Rightarrow> 'n client_state \<Rightarrow> (string + client_error option) \<times> 'n client_state" where
  "manual_main lib now w =
     (case NewGrpcClient lib '':3001'' of
        Inl err \<Rightarrow> (Inl err, w)
      | Inr c \<Rightarrow> let (err, w1) = GrpcClient_Aggregate lib c (manual_request now) w in (Inr err, w1))"

lemma manual_request_valid: "0 < sint now \<Longrightarrow> valid_distance (request_distance (manual_request now))"
  by (simp add: valid_distance_def request_distance_def manual_request_def of_int32_def float_eval)

end
