(* ===== verification/Gateway.thy ===== *)
theory Gateway
  imports Agg_Client "HOL-Library.Sublist"
begin

text \<open>
  The public API gateway (\<open>gateway/main.go\<close>): one route that validates an invoice request, asks the
  aggregator through a \<open>Client\<close> and writes the answer. A handler works on a response writer, which
  keeps the first status it is given and every document that is written to it. The texts of library
  errors are an argument.
\<close>

section \<open>The response writer\<close>

record response_writer =
  rw_Allow :: "string option"
  rw_Status :: "nat option"
  rw_Body :: "json list"

definition new_writer :: response_writer where
  "new_writer = \<lparr>rw_Allow = None, rw_Status = None, rw_Body = []\<rparr>"

definition WriteHeader :: "nat \<Rightarrow> response_writer \<Rightarrow> response_writer" where
  "WriteHeader status w = (if rw_Status w = None then w\<lparr>rw_Status := Some status\<rparr> else w)"

datatype gateway_error =
    MethodNotAllowed
  | InvalidQuery
  | ClientFailed client_error
  | EncodeFailed

fun client_text :: "(client_error \<Rightarrow> string) \<Rightarrow> client_error \<Rightarrow> string" where
  "client_text msg (StatusError n) = ''aggregator returned HTTP '' @ show_nat n"
| "client_text msg e = msg e"

fun gateway_text :: "(client_error \<Rightarrow> string) \<Rightarrow> gateway_error \<Rightarrow> string" where
  "gateway_text msg MethodNotAllowed = ''method not allowed''"
| "gateway_text msg InvalidQuery = ''invalid obu query parameter''"
| "gateway_text msg (ClientFailed e) = client_text msg e"
| "gateway_text msg EncodeFailed = ''json: unsupported value''"

section \<open>The handler\<close>

definition gateway_writeJson :: "response_writer \<Rightarrow> nat \<Rightarrow> json option \<Rightarrow> gateway_error option \<times> response_writer" where
  "gateway_writeJson rw status v =
     (let rw1 = WriteHeader status rw
      in case v of None \<Rightarrow> (Some EncodeFailed, rw1) | Some doc \<Rightarrow> (None, rw1\<lparr>rw_Body := rw_Body rw1 @ [doc]\<rparr>))"

text \<open>The request log, as makeApiFunc writes it, is the number of requests.\<close>

record 'w gateway =
  gw_Client :: 'w
  gw_logged :: nat

definition InvoiceHandler_handleGetInvoice :: "'w Client \<Rightarrow> http_request \<Rightarrow> response_writer \<Rightarrow> 'w gateway \<Rightarrow>
    gateway_error option \<times> response_writer \<times> 'w gateway" where
  "InvoiceHandler_handleGetInvoice C r rw g =
     (if rq_Method r \<noteq> ''GET'' then (Some MethodNotAllowed, rw\<lparr>rw_Allow := Some ''GET''\<rparr>, g)
      else (case Atoi (query_get (rq_Query r) ''obu'') of
              None \<Rightarrow> (Some InvalidQuery, rw, g)
            | Some i \<Rightarrow>
                if sint i \<le> 0 then (Some InvalidQuery, rw, g)
                else
                  let (res, w) = cl_GetInvoice C i (gw_Client g); g1 = g\<lparr>gw_Client := w\<rparr>
                  in (case res of
                        Inl e \<Rightarrow> (Some (ClientFailed e), rw, g1)
                      | Inr bill \<Rightarrow>
                          let (err, rw1) = gateway_writeJson rw 200 (encode_Invoice bill) in (err, rw1, g1))))"

definition makeApiFunc :: "(client_error \<Rightarrow> string) \<Rightarrow>
    (http_request \<Rightarrow> response_writer \<Rightarrow> 'w gateway \<Rightarrow> gateway_error option \<times> response_writer \<times> 'w gateway) \<Rightarrow>
    http_request \<Rightarrow> 'w gateway \<Rightarrow> response_writer \<times> 'w gateway" where
  "makeApiFunc msg fn r g =
     (let (err, rw, g1) = fn r new_writer g;
          rw1 = (case err of
                   None \<Rightarrow> rw
                 | Some e \<Rightarrow> snd (gateway_writeJson rw 500
                     (Some (JObj [(''Error'', JStr (coerce (gateway_text msg e)))]))))
      in (rw1, g1\<lparr>gw_logged := gw_logged g1 + 1\<rparr>))"

text \<open>The gateway as \<open>main\<close> sets it up.\<close>

definition gateway_endpoint :: "(string \<Rightarrow> string) \<Rightarrow> HttpClient" where
  "gateway_endpoint getenv = NewHttpClient (envOr getenv ''AGGREGATOR_HTTP_ADDR'' ''http://localhost:4000'')"

definition gateway_serve :: "(client_error \<Rightarrow> string) \<Rightarrow> 'w Client \<Rightarrow> http_request \<Rightarrow> 'w gateway \<Rightarrow>
    response_writer \<times> 'w gateway" where
  "gateway_serve msg C r g =
     (if rq_Path r = ''/invoice'' then makeApiFunc msg (InvoiceHandler_handleGetInvoice C) r g
      else (\<lparr>rw_Allow = None, rw_Status = Some 404, rw_Body = []\<rparr>, g))"

text \<open>
  The process. The requests are served in the order in which their calls reach the aggregator, until
  \<open>ListenAndServe\<close> returns with an error, which it always does in the end; \<open>log.Fatal\<close> then leaves without
  running the deferred \<open>Close\<close> of the client. \<open>parse\<close> gives the value of the flag for its default.
\<close>

fun gateway_serve_all :: "(client_error \<Rightarrow> string) \<Rightarrow> 'w Client \<Rightarrow> http_request list \<Rightarrow> 'w gateway \<Rightarrow>
    response_writer list \<times> 'w gateway" where
  "gateway_serve_all msg C [] g = ([], g)"
| "gateway_serve_all msg C (r # rs) g =
     (let (rw, g1) = gateway_serve msg C r g; (rws, g2) = gateway_serve_all msg C rs g1 in (rw # rws, g2))"

record 'w gateway_exit =
  gx_addr :: string
  gx_fatal :: string
  gx_responses :: "response_writer list"
  gx_gateway :: "'w gateway"

definition gateway_main :: "(string \<Rightarrow> string) \<Rightarrow> (string \<Rightarrow> string) \<Rightarrow> (client_error \<Rightarrow> string) \<Rightarrow> 'n http_lib \<Rightarrow>
    http_request list \<Rightarrow> string \<Rightarrow> 'n client_state \<Rightarrow> 'n client_state gateway_exit" where
  "gateway_main getenv parse msg lib rs serveErr w =
     (let listenAddr = parse '':6000''; C = httpClient lib (gateway_endpoint getenv);
          (rws, g) = gateway_serve_all msg C rs \<lparr>gw_Client = w, gw_logged = 0\<rparr>
      in \<lparr>gx_addr = listenAddr, gx_fatal = serveErr, gx_responses = rws, gx_gateway = g\<rparr>)"

lemmas gateway_eval [go_eval] =
  new_writer_def WriteHeader_def gateway_writeJson_def InvoiceHandler_handleGetInvoice_def
  makeApiFunc_def gateway_endpoint_def gateway_serve_def gateway_main_def

section \<open>What a request gets\<close>

definition invoice_request :: "http_request \<Rightarrow> go_int option" where
  "invoice_request r =
     (if rq_Path r = ''/invoice'' \<and> rq_Method r = ''GET'' then
        (case Atoi (query_get (rq_Query r) ''obu'') of
           Some i \<Rightarrow> (if 0 < sint i then Some i else None)
         | None \<Rightarrow> None)
      else None)"

text \<open>A request that asks for no invoice does not reach the aggregator.\<close>

lemma gateway_no_request:
  "invoice_request r = None \<Longrightarrow> gw_Client (snd (gateway_serve msg C r g)) = gw_Client g \<and>
     rw_Status (fst (gateway_serve msg C r g)) \<in> {Some 404, Some 500}"
  by (auto simp: invoice_request_def gateway_eval Let_def split: option.splits if_splits)

lemma gateway_asks:
  assumes "invoice_request r = Some i" "cl_GetInvoice C i (gw_Client g) = (res, w)"
  shows "gateway_serve msg C r g =
    (case res of
       Inl e \<Rightarrow> \<lparr>rw_Allow = None, rw_Status = Some 500,
           rw_Body = [JObj [(''Error'', JStr (coerce (client_text msg e)))]]\<rparr>
     | Inr bill \<Rightarrow> \<lparr>rw_Allow = None, rw_Status = Some 200,
           rw_Body = [case encode_Invoice bill of Some doc \<Rightarrow> doc
             | None \<Rightarrow> JObj [(''Error'', JStr (coerce (gateway_text msg EncodeFailed)))]]\<rparr>,
     \<lparr>gw_Client = w, gw_logged = gw_logged g + 1\<rparr>)"
  using assms
  by (auto simp: invoice_request_def gateway_eval Let_def split: option.splits if_splits sum.splits)

text \<open>What an answer may say when \<open>L\<close> is the ledger of the aggregator.\<close>

definition honest_answer :: "http_request \<Rightarrow> response_writer \<Rightarrow> Distance list \<Rightarrow> bool" where
  "honest_answer r rw L \<longleftrightarrow>
     (case invoice_request r of
        None \<Rightarrow> rw_Status rw \<in> {Some 404, Some 500}
      | Some i \<Rightarrow> rw_Status rw \<in> {Some 200, Some 500} \<and>
          (rw_Status rw = Some 200 \<longrightarrow>
            (case invoice_of L i of
               Inl _ \<Rightarrow> False
             | Inr bill \<Rightarrow> (case encode_Invoice bill of None \<Rightarrow> False | Some doc \<Rightarrow> rw_Body rw = [doc]))))"

context client
begin

text \<open>An answer with status 200 is the invoice of the aggregator's ledger at that moment.\<close>

lemma gateway_invoice:
  assumes "state S L (gw_Client g)" "invoice_request r = Some i"
    and "gateway_serve msg C r g = (rw, g')"
  shows "\<exists>M. state S (L @ M) (gw_Client g') \<and> rw_Status rw \<in> {Some 200, Some 500} \<and>
    (rw_Status rw = Some 200 \<longrightarrow>
      (\<exists>bill doc. invoice_of (L @ M) i = Inr bill \<and> encode_Invoice bill = Some doc \<and> rw_Body rw = [doc]))"
proof -
  obtain res w where c: "cl_GetInvoice C i (gw_Client g) = (res, w)" by (cases "cl_GetInvoice C i (gw_Client g)")
  obtain M where M: "state S (L @ M) w"
    "\<forall>bill. res = Inr bill \<longrightarrow> invoice_of (L @ M) i = Inr bill \<and> encode_Invoice bill \<noteq> None"
    using get_invoice [OF assms(1) c] by blast
  show ?thesis
    using M gateway_asks [OF assms(2) c, of msg] assms(3)
    by (intro exI [of _ M]) (auto split: sum.splits)
qed

text \<open>So are all answers of a run, each for a ledger that extends those of the answers before.\<close>

lemma gateway_serves_all:
  assumes "state S L (gw_Client g)" "gateway_serve_all msg C rs g = (rws, g')"
  shows "\<exists>Ls. list_all2 (\<lambda>r (rw, L'). honest_answer r rw L') rs (zip rws Ls) \<and> length Ls = length rws
    \<and> sorted_wrt prefix (L # Ls) \<and> state S (last (L # Ls)) (gw_Client g')"
  using assms
proof (induction rs arbitrary: L g rws)
  case (Cons r rs)
  obtain rw g1 rws1 where step: "gateway_serve msg C r g = (rw, g1)" "gateway_serve_all msg C rs g1 = (rws1, g')" "rws = rw # rws1"
    using Cons.prems(2) by (auto simp: Let_def split: prod.splits)
  obtain M where M: "state S (L @ M) (gw_Client g1)" "honest_answer r rw (L @ M)"
  proof (cases "invoice_request r")
    case None
    then show ?thesis using gateway_no_request [OF None, of msg C g] step(1) Cons.prems(1) that [of "[]"]
      by (simp add: honest_answer_def)
  next
    case (Some i)
    then show ?thesis using gateway_invoice [OF Cons.prems(1) Some step(1)] that by (auto simp: honest_answer_def)
  qed
  from Cons.IH [OF M(1) step(2)] obtain Ls where Ls: "list_all2 (\<lambda>r (rw, L'). honest_answer r rw L') rs (zip rws1 Ls)"
    "length Ls = length rws1" "sorted_wrt prefix ((L @ M) # Ls)" "state S (last ((L @ M) # Ls)) (gw_Client g')" by blast
  have "sorted_wrt prefix (L # (L @ M) # Ls)" using Ls(3) prefix_order.trans [of L "L @ M"] by auto
  then show ?case using M(2) Ls step(3) by (intro exI [of _ "(L @ M) # Ls"]) simp
qed simp

end

section \<open>Properties of the gateway\<close>


lemma invoice_request_1: "invoice_request http_invoice_1 = Some 1"
  using query_http_invoice_1 Atoi_Itoa [of 1] by (simp add: invoice_request_def) (simp add: http_invoice_1_def)


text \<open>
  A request that is not a \<open>GET\<close> of \<open>/invoice\<close> with a positive OBU number is refused without a call to
  the aggregator, over any client.
\<close>

theorem gateway_refuses:
  assumes "invoice_request r = None"
  shows "gw_Client (snd (gateway_serve msg C r g)) = gw_Client g \<and>
    rw_Status (fst (gateway_serve msg C r g)) \<in> {Some 404, Some 500}"
  by (rule gateway_no_request [OF assms])

theorem gateway_refuses_witness:
  "invoice_request (http_invoice_1\<lparr>rq_Method := ''POST''\<rparr>) = None \<and>
   gw_Client (snd (gateway_serve (\<lambda>_. '''') (grpcClient (deployed_grpc aggregator_svc) grpc_local)
     (http_invoice_1\<lparr>rq_Method := ''POST''\<rparr>) \<lparr>gw_Client = new_client_state (fresh_net []), gw_logged = 0\<rparr>)) =
   new_client_state (fresh_net [])"
proof -
  have "invoice_request (http_invoice_1\<lparr>rq_Method := ''POST''\<rparr>) = None" by (simp add: invoice_request_def)
  then show ?thesis using gateway_refuses by (metis gateway.select_convs(1))
qed

end
