(* ===== verification/Agg_Main.thy ===== *)
theory Agg_Main
  imports Agg_Client
begin

text \<open>
  The aggregator's process (\<open>aggregator/main.go\<close>): both transports serve the same service at the same
  time, until a signal arrives or one of them stops, and are then shut down. What happens in between is
  a sequence of requests and connection events of either transport, in the order in which they
  take effect. The lemmas show that whatever the mixture, the invoices are those of the ledger of the
  first valid distance of each identifier.
\<close>

section \<open>Serving\<close>

datatype agg_event =
    HttpCall int64 http_request
  | GrpcCall int64 AggregateRequest
  | HttpConn conn_state
  | GrpcConn conn_stats

fun aggregator_event :: "(http_request \<Rightarrow> http_response) \<Rightarrow> 's Aggregator \<Rightarrow> 's agg_server \<Rightarrow> agg_event \<Rightarrow> 's agg_server" where
  "aggregator_event prom A sv (HttpCall now r) = snd (newHTTPHandler prom A now r sv)"
| "aggregator_event prom A sv (GrpcCall now req) = snd (newGRPCServer A now req sv)"
| "aggregator_event prom A sv (HttpConn c) = ConnState c sv"
| "aggregator_event prom A sv (GrpcConn c) = HandleConn c sv"

text \<open>The distance that an event asks to be aggregated.\<close>

fun event_distance :: "agg_event \<Rightarrow> Distance option" where
  "event_distance (HttpCall now r) = http_distance r"
| "event_distance (GrpcCall now req) = Some (request_distance req)"
| "event_distance _ = None"

section \<open>The process\<close>

datatype serve_error = ErrServerClosed | ServeError string

text \<open>What the final select of the first half receives.\<close>

datatype stop_cause = SignalReceived | TransportStopped "serve_error option"

datatype shutdown_call = HttpShutdown | GrpcGracefulStop | GrpcStop

record 's agg_exit =
  ax_httpAddr :: string
  ax_grpcAddr :: string
  ax_server :: "'s agg_server"
  ax_log :: "string list"
  ax_shutdown :: "shutdown_call list"

definition stop_log :: "stop_cause \<Rightarrow> string list" where
  "stop_log cause =
     (case cause of
        TransportStopped (Some (ServeError e)) \<Rightarrow> [''aggregator transport stopped: '' @ e]
      | _ \<Rightarrow> [])"

text \<open>
  \<open>herr\<close> is the result of \<open>httpServer.Shutdown\<close>, and \<open>graceful\<close> says whether the gRPC server stopped before
  the deadline.
\<close>

definition aggregator_shutdown :: "string option \<Rightarrow> bool \<Rightarrow> string list \<times> shutdown_call list" where
  "aggregator_shutdown herr graceful =
     ((case herr of None \<Rightarrow> [] | Some e \<Rightarrow> [''HTTP shutdown: '' @ e]),
      [HttpShutdown, GrpcGracefulStop] @ (if graceful then [] else [GrpcStop]))"

definition aggregator_addrs :: "(string \<Rightarrow> string) \<Rightarrow> (string \<times> string \<Rightarrow> string \<times> string) \<Rightarrow> string \<times> string" where
  "aggregator_addrs getenv parse =
     parse (envOr getenv ''AGGREGATOR_HTTP_LISTEN_ADDR'' '':4000'', envOr getenv ''AGGREGATOR_GRPC_LISTEN_ADDR'' '':3001'')"

text \<open>\<open>listen\<close> is \<open>net.Listen\<close> on a TCP address: an error, or nothing.\<close>

definition aggregator_main :: "(string \<Rightarrow> string) \<Rightarrow> (string \<times> string \<Rightarrow> string \<times> string) \<Rightarrow> (string \<Rightarrow> string option) \<Rightarrow>
    (http_request \<Rightarrow> http_response) \<Rightarrow> agg_event list \<Rightarrow> stop_cause \<Rightarrow> string option \<Rightarrow> bool \<Rightarrow>
    string + svc_state agg_exit" where
  "aggregator_main getenv parse listen prom evs cause herr graceful =
     (let (httpAddr, grpcAddr) = aggregator_addrs getenv parse
      in (case listen grpcAddr of
            Some err \<Rightarrow> Inl err
          | None \<Rightarrow>
              let sv = foldl (aggregator_event prom aggregator_svc) (new_agg_server aggregator_start) evs;
                  (lines, calls) = aggregator_shutdown herr graceful
              in Inr \<lparr>ax_httpAddr = httpAddr, ax_grpcAddr = grpcAddr, ax_server = sv,
                      ax_log = stop_log cause @ lines, ax_shutdown = calls\<rparr>))"

text \<open>
  A transport on its own: it returns the error of listening, or the one with which serving \<open>stopped\<close> after a
  number of calls. These servers have no callback for connections of HTTP.
\<close>

definition makeHTTPTransport :: "(string \<Rightarrow> string option) \<Rightarrow> (http_request \<Rightarrow> http_response) \<Rightarrow> (int64 \<times> http_request) list \<Rightarrow>
    string option \<Rightarrow> string \<Rightarrow> 's Aggregator \<Rightarrow> 's agg_server \<Rightarrow> string option \<times> 's agg_server" where
  "makeHTTPTransport listen prom calls stopped listenAddr A sv =
     (case listen listenAddr of
        Some err \<Rightarrow> (Some err, sv)
      | None \<Rightarrow> (stopped, foldl (\<lambda>sv (now, r). snd (newHTTPHandler prom A now r sv)) sv calls))"

definition makeGRPCTransport :: "(string \<Rightarrow> string option) \<Rightarrow> (int64 \<times> AggregateRequest) list \<Rightarrow>
    string option \<Rightarrow> string \<Rightarrow> 's Aggregator \<Rightarrow> 's agg_server \<Rightarrow> string option \<times> 's agg_server" where
  "makeGRPCTransport listen calls stopped listenAddr A sv =
     (case listen listenAddr of
        Some err \<Rightarrow> (Some err, sv)
      | None \<Rightarrow> (stopped, foldl (\<lambda>sv (now, req). snd (newGRPCServer A now req sv)) sv calls))"

lemmas agg_main_eval [go_eval] = stop_log_def aggregator_shutdown_def aggregator_addrs_def aggregator_main_def
  makeHTTPTransport_def makeGRPCTransport_def

section \<open>The ledger of a mixture of transports\<close>

definition distances_of :: "agg_event list \<Rightarrow> Distance list" where
  "distances_of evs = filter valid_distance (List.map_filter event_distance evs)"

lemma distances_of_Cons:
  "distances_of (e # evs) =
     (case event_distance e of None \<Rightarrow> [] | Some d \<Rightarrow> if valid_distance d then [d] else []) @ distances_of evs"
  by (simp add: distances_of_def List.map_filter_simps split: option.splits)

lemma sv_svc_conn [simp]: "sv_svc (ConnState c sv) = sv_svc sv" "sv_svc (HandleConn d sv) = sv_svc sv"
  by (simp_all add: ConnState_def HandleConn_def Let_def split: conn_state.splits conn_stats.splits)

lemma aggregator_event_rel:
  "svc_rel L (sv_svc sv) \<Longrightarrow> svc_rel (applied (event_distance e) L) (sv_svc (aggregator_event prom aggregator_svc sv e))"
  using svc.http_applied svc.grpc_applied by (cases e) (simp_all add: applied_def)

lemma aggregator_events_rel:
  "svc_rel L (sv_svc sv) \<Longrightarrow>
    svc_rel (foldl record_event L (distances_of evs)) (sv_svc (foldl (aggregator_event prom aggregator_svc) sv evs))"
proof (induction evs arbitrary: L sv)
  case (Cons e evs)
  show ?case
    using Cons.IH [OF aggregator_event_rel [OF Cons.prems, of e prom]]
    by (auto simp: distances_of_Cons applied_def split: option.splits if_splits)
qed (simp add: distances_of_def List.map_filter_simps)

text \<open>Either transport on its own leaves the ledger of the calls it served, and nothing if it could not listen.\<close>

lemma makeHTTPTransport_rel:
  assumes "svc_rel L (sv_svc sv)" "makeHTTPTransport listen prom calls stopped addr aggregator_svc sv = (err, sv')"
  shows "svc_rel (if listen addr = None then foldl record_event L (distances_of (map (case_prod HttpCall) calls)) else L) (sv_svc sv')"
proof -
  have fold: "foldl (\<lambda>sv (now, r). snd (newHTTPHandler prom aggregator_svc now r sv)) sv calls
      = foldl (aggregator_event prom aggregator_svc) sv (map (case_prod HttpCall) calls)"
    by (induction calls arbitrary: sv) auto
  show ?thesis
    using assms aggregator_events_rel [OF assms(1), of "map (case_prod HttpCall) calls" prom]
    by (auto simp: makeHTTPTransport_def fold split: option.splits)
qed

lemma makeGRPCTransport_rel:
  assumes "svc_rel L (sv_svc sv)" "makeGRPCTransport listen calls stopped addr aggregator_svc sv = (err, sv')"
  shows "svc_rel (if listen addr = None then foldl record_event L (distances_of (map (case_prod GrpcCall) calls)) else L) (sv_svc sv')"
proof -
  have fold: "foldl (\<lambda>sv (now, req). snd (newGRPCServer aggregator_svc now req sv)) sv calls
      = foldl (aggregator_event prom aggregator_svc) sv (map (case_prod GrpcCall) calls)" for prom
    by (induction calls arbitrary: sv) auto
  show ?thesis
    using assms aggregator_events_rel [OF assms(1), of "map (case_prod GrpcCall) calls"]
    by (auto simp: makeGRPCTransport_def fold [symmetric] split: option.splits)
qed

text \<open>
  C11: The aggregator as a process. Whatever mixture of HTTP requests, gRPC requests and connection events
  it serves, in whatever order and with whatever repetitions, when it ends its invoices and its
  reconciliation are those of the ledger of the first valid distance of each identifier; the HTTP
  server is shut down first, and the gRPC server is stopped, by force only when it did not stop in time. It
  does not start at all exactly if the gRPC address cannot be listened on.
\<close>

theorem aggregator_main_serves:
  "case aggregator_main getenv parse listen prom evs cause herr graceful of
     Inl err \<Rightarrow> listen (snd (aggregator_addrs getenv parse)) = Some err
   | Inr x \<Rightarrow>
       listen (ax_grpcAddr x) = None
       \<and> (\<forall>i. fst (ag_CalculateInvoice aggregator_svc (sv_svc (ax_server x)) i) = invoice_of (first_events {} (distances_of evs)) i)
       \<and> ag_Reconciliation aggregator_svc (sv_svc (ax_server x)) = summary (first_events {} (distances_of evs))
       \<and> ax_shutdown x = [HttpShutdown, GrpcGracefulStop] @ (if graceful then [] else [GrpcStop])"
proof (cases "listen (snd (aggregator_addrs getenv parse))")
  case None
  let ?sv = "foldl (aggregator_event prom aggregator_svc) (new_agg_server aggregator_start) evs"
  have rel: "svc_rel (first_events {} (distances_of evs)) (sv_svc ?sv)"
    using aggregator_events_rel [of "[]" "new_agg_server aggregator_start" evs prom] svc_rel_start
    by (simp add: new_agg_server_def record_first_events)
  have "\<forall>i. fst (ag_CalculateInvoice aggregator_svc (sv_svc ?sv) i) = invoice_of (first_events {} (distances_of evs)) i"
    using svc.invoices [OF rel] by (metis fst_conv)
  then show ?thesis
    using None svc.reconciles [OF rel]
    by (simp add: aggregator_main_def aggregator_shutdown_def case_prod_beta Let_def)
qed (simp add: aggregator_main_def case_prod_beta Let_def)

end
