(* ===== verification/Calc_Service.thy ===== *)
theory Calc_Service
  imports Toll_Types
begin

text \<open>
  The distance calculator's business logic (\<open>dist-calc/service.go\<close>) and its logging decorator
  (\<open>dist-calc/middleware.go\<close>). The service remembers the last point of every OBU and the distance it
  returned for every event identifier. The locale \<open>calculator\<close> is the contract of the interface
  \<open>CalculatorServicer\<close> in terms of a track, the list of the events whose point counts: a new event
  gets the distance from the previous point of its OBU, an event seen before gets its old answer.
\<close>

record 's CalculatorServicer =
  ca_CalculateDist :: "'s \<Rightarrow> OBUData \<Rightarrow> (go_error + float64) \<times> 's"

record Point =
  p_Lat :: float64
  p_Lon :: float64

record CalcService =
  cs_prevPoints :: "go_int \<rightharpoonup> Point"
  cs_results :: "string \<rightharpoonup> float64"

definition NewCalcService :: CalcService where
  "NewCalcService = \<lparr>cs_prevPoints = Map.empty, cs_results = Map.empty\<rparr>"

definition calcDist :: "float64 \<Rightarrow> float64 \<Rightarrow> float64 \<Rightarrow> float64 \<Rightarrow> float64" where
  "calcDist x1 y1 x2 y2 = fsqrt (fadd (fpow2 (fsub x2 x1)) (fpow2 (fsub y2 y1)))"

definition CalcService_CalculateDist ::
    "CalcService \<Rightarrow> OBUData \<Rightarrow> (go_error + float64) \<times> CalcService" where
  "CalcService_CalculateDist s data =
     (case (if od_EventID data \<noteq> '''' then cs_results s (od_EventID data) else None) of
        Some v \<Rightarrow> (Inr v, s)
      | None \<Rightarrow>
          let v = (case cs_prevPoints s (od_OBUID data) of
                     Some previous \<Rightarrow>
                       calcDist (p_Lat previous) (p_Lon previous) (od_Lat data) (od_Lon data)
                   | None \<Rightarrow> fzero);
              s1 = s\<lparr>cs_prevPoints := (cs_prevPoints s)(od_OBUID data \<mapsto>
                       \<lparr>p_Lat = od_Lat data, p_Lon = od_Lon data\<rparr>)\<rparr>;
              s2 = (if od_EventID data \<noteq> ''''
                    then s1\<lparr>cs_results := (cs_results s1)(od_EventID data \<mapsto> v)\<rparr> else s1)
          in (Inr v, s2))"

definition calcServicer :: "CalcService CalculatorServicer" where
  "calcServicer = \<lparr>ca_CalculateDist = CalcService_CalculateDist\<rparr>"

record 's calc_logged =
  cl_next :: 's
  cl_entries :: "(go_error + float64) list"

definition CalcLog_CalculateDist ::
    "'s CalculatorServicer \<Rightarrow> 's calc_logged \<Rightarrow> OBUData \<Rightarrow> (go_error + float64) \<times> 's calc_logged" where
  "CalcLog_CalculateDist next l data =
     (let (r, s) = ca_CalculateDist next (cl_next l) data
      in (r, l\<lparr>cl_next := s, cl_entries := cl_entries l @ [r]\<rparr>))"

definition NewCalcLogMiddleware :: "'s CalculatorServicer \<Rightarrow> 's calc_logged CalculatorServicer" where
  "NewCalcLogMiddleware next = \<lparr>ca_CalculateDist = CalcLog_CalculateDist next\<rparr>"

text \<open>The service as \<open>dist-calc/main.go\<close> builds it, and its state when the process starts.\<close>

type_synonym calc_state = "CalcService calc_logged"

definition calc_svc :: "calc_state CalculatorServicer" where
  "calc_svc = NewCalcLogMiddleware calcServicer"

definition calc_start :: calc_state where
  "calc_start = \<lparr>cl_next = NewCalcService, cl_entries = []\<rparr>"

fun Calculate_all :: "'s CalculatorServicer \<Rightarrow> 's \<Rightarrow> OBUData list \<Rightarrow> (go_error + float64) list \<times> 's" where
  "Calculate_all C s [] = ([], s)"
| "Calculate_all C s (e # es) =
     (let (r, s1) = ca_CalculateDist C s e; (rs, s2) = Calculate_all C s1 es in (r # rs, s2))"

lemmas calc_eval [go_eval] =
  NewCalcService_def calcDist_def CalcService_CalculateDist_def calcServicer_def
  CalcLog_CalculateDist_def NewCalcLogMiddleware_def calc_svc_def calc_start_def

section \<open>The distance\<close>

lemma calcDist_sym: "calcDist x1 y1 x2 y2 = calcDist x2 y2 x1 y1"
  unfolding calcDist_def using fpow2_cong [OF mag_fsub_swap] by metis

lemma calcDist_same: "isFinite x \<Longrightarrow> isFinite y \<Longrightarrow> calcDist x y x y = fzero"
  by (simp add: calcDist_def fsub_self fpow2_fzero fsqrt_fzero)
    (simp add: float_eval fsqrt_fzero [unfolded fzero_def])

lemma calcDist_nonneg:
  assumes "isFinite x1" "isFinite y1" "isFinite x2" "isFinite y2"
  shows "fnonneg (calcDist x1 y1 x2 y2)"
  unfolding calcDist_def fsub_def
  by (intro fsqrt_nonneg fadd_nonneg fpow2_nonneg fadd_not_nan) (simp_all add: assms)

section \<open>Tracks\<close>

definition track_ids :: "OBUData list \<Rightarrow> string set" where
  "track_ids T = {od_EventID e | e. e \<in> set T \<and> od_EventID e \<noteq> ''''}"

definition last_point :: "OBUData list \<Rightarrow> go_int \<Rightarrow> Point option" where
  "last_point T i =
     (let es = filter (\<lambda>e. od_OBUID e = i) T
      in if es = [] then None else Some \<lparr>p_Lat = od_Lat (last es), p_Lon = od_Lon (last es)\<rparr>)"

definition leg :: "OBUData list \<Rightarrow> OBUData \<Rightarrow> float64" where
  "leg T e =
     (case last_point T (od_OBUID e) of
        None \<Rightarrow> fzero
      | Some p \<Rightarrow> calcDist (p_Lat p) (p_Lon p) (od_Lat e) (od_Lon e))"

text \<open>\<open>answers T\<close> maps every identifier of a track to the leg that ends in its event.\<close>

fun answers_from :: "OBUData list \<Rightarrow> (string \<rightharpoonup> float64) \<Rightarrow> OBUData list \<Rightarrow> (string \<rightharpoonup> float64)" where
  "answers_from T a [] = a"
| "answers_from T a (e # es) =
     answers_from (T @ [e]) (if od_EventID e = '''' then a else a(od_EventID e \<mapsto> leg T e)) es"

definition answers :: "OBUData list \<Rightarrow> (string \<rightharpoonup> float64)" where
  "answers T = answers_from [] Map.empty T"

lemma last_point_snoc:
  "last_point (T @ [e]) = (last_point T)(od_OBUID e \<mapsto> \<lparr>p_Lat = od_Lat e, p_Lon = od_Lon e\<rparr>)"
  by (simp add: last_point_def fun_eq_iff)

lemma last_point_Nil [simp]: "last_point [] = Map.empty"
  by (simp add: last_point_def fun_eq_iff)

lemma answers_from_append:
  "answers_from T a (es @ fs) = answers_from (T @ es) (answers_from T a es) fs"
  by (induction es arbitrary: T a) simp_all

lemma answers_snoc:
  "answers (T @ [e]) = (if od_EventID e = '''' then answers T else (answers T)(od_EventID e \<mapsto> leg T e))"
  by (simp add: answers_def answers_from_append)

lemma answers_Nil [simp]: "answers [] = Map.empty"
  by (simp add: answers_def)

lemma track_ids_snoc:
  "track_ids (T @ [e]) = (if od_EventID e = '''' then track_ids T else insert (od_EventID e) (track_ids T))"
  by (auto simp: track_ids_def)

lemma track_ids_Nil [simp]: "track_ids [] = {}"
  by (simp add: track_ids_def)

lemma dom_answers: "dom (answers T) = track_ids T"
proof (induction T rule: rev_induct)
  case (snoc e T)
  then show ?case
    by (cases "od_EventID e = []") (simp_all only: answers_snoc track_ids_snoc dom_fun_upd
      if_True if_False option.distinct simp_thms)
qed simp

text \<open>A track keeps an event unless it has one with the same identifier.\<close>

definition visit :: "OBUData list \<Rightarrow> OBUData \<Rightarrow> OBUData list" where
  "visit T e = (if od_EventID e \<in> track_ids T then T else T @ [e])"

definition answer :: "OBUData list \<Rightarrow> OBUData \<Rightarrow> float64" where
  "answer T e = (case answers T (od_EventID e) of Some v \<Rightarrow> v | None \<Rightarrow> leg T e)"

lemma track_ids_extend:
  "track_ids (visit T e) = track_ids T \<union> (if od_EventID e = '''' then {} else {od_EventID e})"
  by (auto simp: visit_def track_ids_snoc)

lemma mem_track_ids: "i \<in> track_ids T \<longleftrightarrow> answers T i \<noteq> None"
  using dom_answers [of T] by (metis domIff)

lemma answers_empty_id: "answers T '''' = None"
  using mem_track_ids [of "''''" T] by (auto simp: track_ids_def)

lemma answers_extend_new:
  "od_EventID e \<noteq> '''' \<Longrightarrow> answers (visit T e) (od_EventID e) = Some (answer T e)"
  by (auto simp: visit_def mem_track_ids answer_def answers_snoc)

text \<open>An answer, once given, does not change as the track grows.\<close>

lemma answers_extend: "answers T i = Some v \<Longrightarrow> answers (visit T e) i = Some v"
  by (auto simp: visit_def mem_track_ids answers_snoc)

lemma answers_extend_all: "answers T i = Some v \<Longrightarrow> answers (foldl visit T es) i = Some v"
  by (induction es arbitrary: T) (simp_all add: answers_extend)

definition finite_track :: "OBUData list \<Rightarrow> bool" where
  "finite_track T \<longleftrightarrow> (\<forall>e \<in> set T. isFinite (od_Lat e) \<and> isFinite (od_Lon e))"

lemma last_point_finite:
  assumes "finite_track T" "last_point T i = Some p" shows "isFinite (p_Lat p) \<and> isFinite (p_Lon p)"
proof -
  obtain es where es: "filter (\<lambda>e. od_OBUID e = i) T = es" "es \<noteq> []"
    "p = \<lparr>p_Lat = od_Lat (last es), p_Lon = od_Lon (last es)\<rparr>"
    using assms(2) by (auto simp: last_point_def Let_def split: if_splits)
  then have "last es \<in> set T" by (metis filter_is_subset last_in_set subsetD)
  with assms(1) es show ?thesis by (simp add: finite_track_def)
qed

lemma leg_nonneg: "finite_track T \<Longrightarrow> isFinite (od_Lat e) \<Longrightarrow> isFinite (od_Lon e) \<Longrightarrow> fnonneg (leg T e)"
  using last_point_finite [of T "od_OBUID e"]
  by (auto simp: leg_def calcDist_nonneg split: option.splits)

section \<open>The contract of the interface\<close>

locale calculator =
  fixes C :: "'s CalculatorServicer"
    and rel :: "OBUData list \<Rightarrow> 's \<Rightarrow> bool"
  assumes calculates: "rel T s \<Longrightarrow>
      \<exists>s'. ca_CalculateDist C s e = (Inr (answer T e), s') \<and> rel (visit T e) s'"
begin

lemma calculate_all_rel: "rel T s \<Longrightarrow> rel (foldl visit T es) (snd (Calculate_all C s es))"
proof (induction es arbitrary: T s)
  case (Cons e es)
  obtain s' where "ca_CalculateDist C s e = (Inr (answer T e), s')" "rel (visit T e) s'"
    using calculates [OF Cons.prems] by blast
  with Cons.IH show ?case by (simp add: split_beta)
qed simp

lemma calculate_all_answers:
  "rel T s \<Longrightarrow> fst (Calculate_all C s es) =
     map (\<lambda>k. Inr (answer (foldl visit T (take k es)) (es ! k))) [0..<length es]"
proof (induction es arbitrary: T s)
  case (Cons e es)
  obtain s' where "ca_CalculateDist C s e = (Inr (answer T e), s')" "rel (visit T e) s'"
    using calculates [OF Cons.prems] by blast
  with Cons.IH [of "visit T e" s'] show ?case by (simp add: split_beta map_upt_Suc del: upt_Suc)
qed simp

text \<open>Replaying an event, however much was processed in between, returns the first answer.\<close>

lemma replay_answer:
  assumes "rel T s" "od_EventID e \<noteq> ''''" "od_EventID e' = od_EventID e"
  shows "fst (ca_CalculateDist C (snd (Calculate_all C s (e # es))) e') = fst (ca_CalculateDist C s e)"
proof -
  let ?T = "foldl visit (visit T e) es"
  have "rel ?T (snd (Calculate_all C s (e # es)))"
    using calculate_all_rel [OF assms(1), of "e # es"] by simp
  then have "fst (ca_CalculateDist C (snd (Calculate_all C s (e # es))) e') = Inr (answer ?T e')"
    using calculates [of ?T _ e'] by fastforce
  moreover have "answer ?T e' = answer T e"
    using answers_extend_all [OF answers_extend_new [OF assms(2)]] assms(3)
    by (simp add: answer_def [of ?T])
  ultimately show ?thesis using calculates [OF assms(1), of e] by auto
qed

end

definition calc_rel :: "OBUData list \<Rightarrow> CalcService \<Rightarrow> bool" where
  "calc_rel T s \<longleftrightarrow> cs_prevPoints s = last_point T \<and> cs_results s = answers T"

lemma calc_rel_new: "calc_rel [] NewCalcService"
  by (simp add: calc_rel_def NewCalcService_def)

interpretation calc: calculator calcServicer calc_rel
proof
  fix T s e
  assume rel: "calc_rel T s"
  show "\<exists>s'. ca_CalculateDist calcServicer s e = (Inr (answer T e), s') \<and> calc_rel (visit T e) s'"
  proof (cases "answers T (od_EventID e)")
    case (Some v)
    then have "od_EventID e \<noteq> ''''" using answers_empty_id [of T] by auto
    with Some rel show ?thesis
      by (simp add: calcServicer_def CalcService_CalculateDist_def calc_rel_def visit_def answer_def
          mem_track_ids)
  next
    case None
    with rel show ?thesis
      by (auto simp: calcServicer_def CalcService_CalculateDist_def calc_rel_def visit_def answer_def
          mem_track_ids Let_def last_point_snoc answers_snoc leg_def split: option.splits)
  qed
qed

definition calc_logged_rel :: "(OBUData list \<Rightarrow> 's \<Rightarrow> bool) \<Rightarrow> OBUData list \<Rightarrow> 's calc_logged \<Rightarrow> bool" where
  "calc_logged_rel rel T l \<longleftrightarrow> rel T (cl_next l)"

context calculator
begin

lemma logged_calculator: "calculator (NewCalcLogMiddleware C) (calc_logged_rel rel)"
proof
  fix T l e
  assume "calc_logged_rel rel T l"
  then show "\<exists>l'. ca_CalculateDist (NewCalcLogMiddleware C) l e = (Inr (answer T e), l')
      \<and> calc_logged_rel rel (visit T e) l'"
    using calculates [of T "cl_next l" e]
    by (auto simp: NewCalcLogMiddleware_def CalcLog_CalculateDist_def calc_logged_rel_def)
qed

end

definition calc_svc_rel :: "OBUData list \<Rightarrow> calc_state \<Rightarrow> bool" where
  "calc_svc_rel = calc_logged_rel calc_rel"

interpretation calc_svc: calculator calc_svc calc_svc_rel
  unfolding calc_svc_def calc_svc_rel_def
  by (rule calculator.logged_calculator, rule calc.calculator_axioms)

lemma calc_svc_rel_start: "calc_svc_rel [] calc_start"
  by (simp add: calc_svc_rel_def calc_logged_rel_def calc_start_def calc_rel_new)

section \<open>Runs of the calculator\<close>

lemma calc_svc_answer:
  "fst (ca_CalculateDist calc_svc (snd (Calculate_all calc_svc calc_start es)) e) =
     Inr (answer (foldl visit [] es) e)"
  using calc_svc.calculates [OF calc_svc.calculate_all_rel [OF calc_svc_rel_start], of es e] by auto

lemma last_point_visit_other: "od_OBUID x \<noteq> i \<Longrightarrow> last_point (visit T x) i = last_point T i"
  by (simp add: visit_def last_point_snoc)

lemma answers_visit_other: "od_EventID x \<noteq> k \<Longrightarrow> answers (visit T x) k = answers T k"
  by (simp add: visit_def answers_snoc)

lemma answer_visit_others:
  "\<forall>x \<in> set xs. od_OBUID x \<noteq> od_OBUID e \<and> od_EventID x \<noteq> od_EventID e \<Longrightarrow>
     answer (foldl visit T xs) e = answer T e"
proof (induction xs arbitrary: T)
  case (Cons x xs)
  then have "leg (visit T x) e = leg T e" by (simp add: leg_def last_point_visit_other)
  then have "answer (visit T x) e = answer T e"
    using Cons.prems by (simp add: answer_def answers_visit_other split: option.splits)
  with Cons show ?case by simp
qed simp

definition nonneg_answers :: "OBUData list \<Rightarrow> bool" where
  "nonneg_answers T \<longleftrightarrow> (\<forall>k v. answers T k = Some v \<longrightarrow> fnonneg v)"

lemma nonneg_answers_visit:
  assumes "nonneg_answers T" "finite_track T" "isFinite (od_Lat e)" "isFinite (od_Lon e)"
  shows "nonneg_answers (visit T e) \<and> finite_track (visit T e) \<and> fnonneg (answer T e)"
  using assms leg_nonneg [OF assms(2-4)]
  by (auto simp: nonneg_answers_def visit_def answers_snoc finite_track_def answer_def split: option.splits)

lemma finite_track_snoc: "finite_track (es @ [e]) \<longleftrightarrow> finite_track es \<and> isFinite (od_Lat e) \<and> isFinite (od_Lon e)"
  by (auto simp: finite_track_def)

lemma nonneg_answers_track:
  "finite_track es \<Longrightarrow> nonneg_answers (foldl visit [] es) \<and> finite_track (foldl visit [] es)"
proof (induction es rule: rev_induct)
  case Nil
  then show ?case by (simp add: nonneg_answers_def finite_track_def)
next
  case (snoc e es)
  then have "finite_track es" "isFinite (od_Lat e)" "isFinite (od_Lon e)" by (simp_all add: finite_track_snoc)
  with snoc.IH show ?case using nonneg_answers_visit [of "foldl visit [] es" e] by auto
qed

section \<open>Properties of the calculator\<close>

text \<open>
  A replayed event gets the distance that was returned for it first, whatever was processed
  before it and in between.
\<close>

theorem calculator_replay:
  assumes "od_EventID e \<noteq> ''''" "od_EventID e' = od_EventID e"
  shows "fst (ca_CalculateDist calc_svc (snd (Calculate_all calc_svc calc_start (es @ e # fs))) e') =
    fst (ca_CalculateDist calc_svc (snd (Calculate_all calc_svc calc_start es)) e)"
  using answers_extend_all [OF answers_extend_new [OF assms(1)], of "foldl visit [] es" fs] assms(2)
  by (simp add: calc_svc_answer answer_def [of "foldl visit (visit (foldl visit [] es) e) fs"])

definition fix_a :: OBUData where
  "fix_a = \<lparr>od_EventID = ''event-1'', od_ProducedAtUnixNano = 1, od_OBUID = 1, od_Lat = fzero, od_Lon = fzero,
     od_Payload = ''''\<rparr>"

definition fix_b :: OBUData where
  "fix_b = \<lparr>od_EventID = ''event-2'', od_ProducedAtUnixNano = 2, od_OBUID = 1, od_Lat = F64 0x4008000000000000,
     od_Lon = F64 0x4010000000000000, od_Payload = ''''\<rparr>"

definition fix_c :: OBUData where
  "fix_c = fix_b\<lparr>od_EventID := ''event-3'', od_OBUID := 2\<rparr>"

lemmas fix_eval [go_eval] = fix_a_def fix_b_def fix_c_def

theorem calculator_replay_witness:
  "od_EventID fix_a \<noteq> '''' \<and>
   fst (ca_CalculateDist calc_svc (snd (Calculate_all calc_svc calc_start ([] @ fix_a # [fix_b]))) fix_a) =
   fst (ca_CalculateDist calc_svc (snd (Calculate_all calc_svc calc_start [])) fix_a)"
  using calculator_replay [of fix_a fix_a "[]" "[fix_b]"] by (simp add: fix_a_def)

text \<open>
  A replay leaves the calculator as it was: the last points and the remembered results do not
  change, so the distances of later events do not either.
\<close>

theorem calculator_replay_keeps_state:
  assumes "od_EventID e \<noteq> ''''" "cs_results s (od_EventID e) = Some v"
  shows "CalcService_CalculateDist s e = (Inr v, s)"
  using assms by (simp add: CalcService_CalculateDist_def)

theorem calculator_replay_keeps_state_witness:
  "CalcService_CalculateDist (NewCalcService\<lparr>cs_results := [''event-1'' \<mapsto> fzero]\<rparr>) fix_a =
     (Inr fzero, NewCalcService\<lparr>cs_results := [''event-1'' \<mapsto> fzero]\<rparr>)"
  by (rule calculator_replay_keeps_state) (simp_all add: fix_a_def)

text \<open>
  C9: The answers of a run: an event with a known identifier gets its old answer, the first event of
  an OBU gets 0, and every other event gets the distance from the previous point of the same OBU.
\<close>

theorem calculator_answers:
  "fst (Calculate_all calc_svc calc_start es) =
     map (\<lambda>k. Inr (answer (foldl visit [] (take k es)) (es ! k))) [0..<length es]"
  using calc_svc.calculate_all_answers [OF calc_svc_rel_start] .

text \<open>Events of other OBUs, under other identifiers, do not change the distance of an event.\<close>

theorem calculator_obu_isolation:
  assumes "\<forall>x \<in> set xs. od_OBUID x \<noteq> od_OBUID e \<and> od_EventID x \<noteq> od_EventID e"
  shows "fst (ca_CalculateDist calc_svc (snd (Calculate_all calc_svc calc_start (es @ xs))) e) =
    fst (ca_CalculateDist calc_svc (snd (Calculate_all calc_svc calc_start es)) e)"
  using answer_visit_others [OF assms, of "foldl visit [] es"] by (simp add: calc_svc_answer)

theorem calculator_obu_isolation_witness:
  "od_OBUID fix_c \<noteq> od_OBUID fix_b \<and> od_EventID fix_c \<noteq> od_EventID fix_b \<and>
   fst (ca_CalculateDist calc_svc (snd (Calculate_all calc_svc calc_start ([fix_a] @ [fix_c]))) fix_b) =
   fst (ca_CalculateDist calc_svc (snd (Calculate_all calc_svc calc_start [fix_a])) fix_b)"
  using calculator_obu_isolation [of "[fix_c]" fix_b "[fix_a]"] by (simp add: fix_b_def fix_c_def)

text \<open>
  On finite coordinates no distance is negative or NaN, so the aggregator can only refuse one
  that overflowed to infinity.
\<close>

theorem calculator_nonneg:
  assumes "finite_track (es @ [e])"
  shows "\<exists>v. fst (ca_CalculateDist calc_svc (snd (Calculate_all calc_svc calc_start es)) e) = Inr v \<and> fnonneg v"
proof -
  have "finite_track es" "isFinite (od_Lat e)" "isFinite (od_Lon e)" using assms by (simp_all add: finite_track_snoc)
  then show ?thesis
    using nonneg_answers_track [of es] nonneg_answers_visit [of "foldl visit [] es" e] by (auto simp: calc_svc_answer)
qed

theorem calculator_nonneg_witness:
  "finite_track ([fix_a] @ [fix_b]) \<and>
   (\<exists>v. fst (ca_CalculateDist calc_svc (snd (Calculate_all calc_svc calc_start [fix_a])) fix_b) = Inr v \<and> fnonneg v)"
proof -
  have "finite_track ([fix_a] @ [fix_b])" by (simp add: finite_track_def fix_a_def fix_b_def float_eval)
  then show ?thesis using calculator_nonneg by blast
qed

text \<open>The distance between two points is the same in both directions.\<close>

theorem calcDist_symmetric: "calcDist x1 y1 x2 y2 = calcDist x2 y2 x1 y1"
  by (rule calcDist_sym)

text \<open>An OBU that has not moved is charged nothing: the distance of a finite point to itself is 0.\<close>

theorem calcDist_standstill:
  assumes "isFinite x" "isFinite y" shows "calcDist x y x y = fzero"
  by (rule calcDist_same [OF assms])

theorem calcDist_standstill_witness:
  "isFinite (F64 0x4008000000000000) \<and> calcDist (F64 0x4008000000000000) fzero (F64 0x4008000000000000) fzero = fzero"
proof -
  have "isFinite (F64 0x4008000000000000)" "isFinite fzero" by (simp_all add: float_eval)
  then show ?thesis using calcDist_standstill by blast
qed

end
