(* ===== verification/Consumer.thy ===== *)
theory Consumer
  imports Calc_Service Agg_Client
begin

text \<open>
  The Kafka consumer of the distance calculator (\<open>dist-calc/consumer.go\<close>). Kafka and the contexts
  are a record of functions on a state of their own, about which nothing is assumed here. The state
  of the process keeps the calculator, the client of the aggregator, the metrics and the sequence of
  the calls that were made to Kafka. The lemmas show that whatever Kafka and the network do, a
  message is committed only after it was billed or found to be invalid, a failed message is rewound
  to, and a replayed message is billed once and with the distance of its first reading.
\<close>

section \<open>Messages and the Kafka client\<close>

datatype kafka_error = ErrTimedOut | KafkaError string

text \<open>The value of a message is \<open>None\<close> if its bytes are not one JSON value.\<close>

record kafka_message =
  m_Topic :: "string option"
  m_Partition :: int32
  m_Offset :: int64
  m_Value :: "json option"

datatype config_value = ConfigString string | ConfigBool bool

record 'k kafka_lib =
  kl_NewConsumer :: "(string \<times> config_value) list \<Rightarrow> kafka_error + 'k"
  kl_SubscribeTopics :: "string list \<Rightarrow> 'k \<Rightarrow> kafka_error option \<times> 'k"
  kl_Close :: "'k \<Rightarrow> kafka_error option \<times> 'k"
  kl_Cancelled :: "'k \<Rightarrow> bool \<times> 'k"
  kl_ReadMessage :: "duration \<Rightarrow> 'k \<Rightarrow> (kafka_error + kafka_message) \<times> 'k"
  kl_CommitMessage :: "kafka_message \<Rightarrow> 'k \<Rightarrow> kafka_error option \<times> 'k"
  kl_Seek :: "kafka_message \<Rightarrow> 'k \<Rightarrow> kafka_error option \<times> 'k"
  kl_GetWatermarkOffsets :: "string \<Rightarrow> int32 \<Rightarrow> 'k \<Rightarrow> (kafka_error + int64 \<times> int64) \<times> 'k"
  kl_DeadlineExceeded :: "'k \<Rightarrow> bool \<times> 'k"

datatype kafka_call = Read kafka_message | Commit kafka_message | Seek kafka_message

record ('c, 'w, 'k) KafkaConsumer =
  kc_consumer :: 'k
  kc_aggClient :: 'w
  kc_calcService :: 'c
  kc_downstreamTimeout :: duration
  kc_pollInterval :: duration
  kc_closed :: bool
  kc_calls :: "kafka_call list"
  kc_events :: nat
  kc_errors :: "string \<Rightarrow> nat"
  kc_deserializationErrors :: nat
  kc_distanceDuration :: nat
  kc_downstreamDuration :: nat
  kc_downstreamTimeouts :: nat
  kc_lag :: "string \<times> string \<Rightarrow> float64 option"

record KafkaConsumerConfig =
  kf_Brokers :: string
  kf_GroupID :: string
  kf_Topic :: string
  kf_DownstreamTimeout :: duration
  kf_PollInterval :: duration

text \<open>An error comes with the state of a consumer that was created and closed again.\<close>

definition NewKafkaConsumerWithConfig :: "'k kafka_lib \<Rightarrow> KafkaConsumerConfig \<Rightarrow> 'c \<Rightarrow> 'w \<Rightarrow>
    kafka_error \<times> 'k option + ('c, 'w, 'k) KafkaConsumer" where
  "NewKafkaConsumerWithConfig lib cfg svc ac =
     (case kl_NewConsumer lib
        [(''bootstrap.servers'', ConfigString (kf_Brokers cfg)),
         (''group.id'', ConfigString (kf_GroupID cfg)),
         (''auto.offset.reset'', ConfigString ''earliest''),
         (''enable.auto.commit'', ConfigBool False)] of
        Inl err \<Rightarrow> Inl (err, None)
      | Inr c \<Rightarrow>
          (case kl_SubscribeTopics lib [kf_Topic cfg] c of
             (Some err, c1) \<Rightarrow> Inl (err, Some (snd (kl_Close lib c1)))
           | (None, c1) \<Rightarrow>
               Inr \<lparr>kc_consumer = c1, kc_aggClient = ac, kc_calcService = svc,
                 kc_downstreamTimeout = kf_DownstreamTimeout cfg, kc_pollInterval = kf_PollInterval cfg,
                 kc_closed = False, kc_calls = [], kc_events = 0, kc_errors = (\<lambda>_. 0),
                 kc_deserializationErrors = 0, kc_distanceDuration = 0, kc_downstreamDuration = 0,
                 kc_downstreamTimeouts = 0, kc_lag = (\<lambda>_. None)\<rparr>))"

definition NewKafkaConsumer :: "'k kafka_lib \<Rightarrow> string \<Rightarrow> 'c \<Rightarrow> 'w \<Rightarrow>
    kafka_error \<times> 'k option + ('c, 'w, 'k) KafkaConsumer" where
  "NewKafkaConsumer lib topic svc ac =
     NewKafkaConsumerWithConfig lib
       \<lparr>kf_Brokers = ''localhost:9092'', kf_GroupID = ''tollify-distance-calculator'', kf_Topic = topic,
        kf_DownstreamTimeout = 2000000000, kf_PollInterval = 250000000\<rparr> svc ac"

definition KafkaConsumer_Close :: "'k kafka_lib \<Rightarrow> ('c, 'w, 'k) KafkaConsumer \<Rightarrow>
    kafka_error option \<times> ('c, 'w, 'k) KafkaConsumer" where
  "KafkaConsumer_Close lib st =
     (if kc_closed st then (None, st)
      else let (err, k) = kl_Close lib (kc_consumer st)
           in (err, st\<lparr>kc_consumer := k, kc_closed := True\<rparr>))"

datatype process_error =
    CalculateError go_error
  | AggregateError string client_error
  | CommitError kafka_error

section \<open>Processing a message\<close>

definition CommitMessage :: "'k kafka_lib \<Rightarrow> kafka_message \<Rightarrow> ('c, 'w, 'k) KafkaConsumer \<Rightarrow>
    kafka_error option \<times> ('c, 'w, 'k) KafkaConsumer" where
  "CommitMessage lib msg st =
     (let (err, k) = kl_CommitMessage lib msg (kc_consumer st)
      in (err, st\<lparr>kc_consumer := k, kc_calls := kc_calls st @ [Commit msg]\<rparr>))"

definition event_request :: "OBUData \<Rightarrow> float64 \<Rightarrow> AggregateRequest" where
  "event_request data v =
     \<lparr>ar_ObuID = to_int32 (od_OBUID data), ar_Value = v,
      ar_ProducedAtUnixNano = od_ProducedAtUnixNano data, ar_EventID = od_EventID data\<rparr>"

definition processEvent :: "'k kafka_lib \<Rightarrow> 'c CalculatorServicer \<Rightarrow> 'w Client \<Rightarrow> OBUData \<Rightarrow>
    ('c, 'w, 'k) KafkaConsumer \<Rightarrow> process_error option \<times> ('c, 'w, 'k) KafkaConsumer" where
  "processEvent lib calc agg data st =
     (let (r, s) = ca_CalculateDist calc (kc_calcService st) data;
          st1 = st\<lparr>kc_calcService := s, kc_distanceDuration := kc_distanceDuration st + 1\<rparr>
      in (case r of
            Inl err \<Rightarrow> (Some (CalculateError err), st1)
          | Inr v \<Rightarrow>
              let (err, w) = cl_Aggregate agg (event_request data v) (kc_aggClient st1);
                  (expired, k) = kl_DeadlineExceeded lib (kc_consumer st1);
                  st2 = st1\<lparr>kc_aggClient := w, kc_consumer := k,
                    kc_downstreamDuration := kc_downstreamDuration st1 + 1,
                    kc_downstreamTimeouts := kc_downstreamTimeouts st1 + (if expired then 1 else 0)\<rparr>
              in (map_option (AggregateError (od_EventID data)) err, st2)))"

definition valid_event :: "OBUData \<Rightarrow> bool" where
  "valid_event data \<longleftrightarrow>
     \<not> (od_EventID data = '''' \<or> sint (od_ProducedAtUnixNano data) \<le> 0 \<or> sint (od_OBUID data) \<le> 0)"

definition discard :: "'k kafka_lib \<Rightarrow> kafka_message \<Rightarrow> ('c, 'w, 'k) KafkaConsumer \<Rightarrow>
    process_error option \<times> ('c, 'w, 'k) KafkaConsumer" where
  "discard lib msg st =
     (let (err, st1) = CommitMessage lib msg
            (st\<lparr>kc_deserializationErrors := kc_deserializationErrors st + 1\<rparr>)
      in (map_option CommitError err, st1))"

definition processMessage :: "'k kafka_lib \<Rightarrow> 'c CalculatorServicer \<Rightarrow> 'w Client \<Rightarrow> kafka_message \<Rightarrow>
    ('c, 'w, 'k) KafkaConsumer \<Rightarrow> process_error option \<times> ('c, 'w, 'k) KafkaConsumer" where
  "processMessage lib calc agg msg st =
     (case Option.bind (m_Value msg) decode_OBUData of
        None \<Rightarrow> discard lib msg st
      | Some data \<Rightarrow>
          if \<not> valid_event data then discard lib msg st
          else (case processEvent lib calc agg data st of
                  (Some err, st1) \<Rightarrow> (Some err, st1)
                | (None, st1) \<Rightarrow>
                    let (err, st2) = CommitMessage lib msg st1 in (map_option CommitError err, st2)))"

definition updateLag :: "'k kafka_lib \<Rightarrow> kafka_message \<Rightarrow> ('c, 'w, 'k) KafkaConsumer \<Rightarrow>
    ('c, 'w, 'k) KafkaConsumer" where
  "updateLag lib msg st =
     (case m_Topic msg of
        None \<Rightarrow> st
      | Some topic \<Rightarrow>
          let (r, k) = kl_GetWatermarkOffsets lib topic (m_Partition msg) (kc_consumer st);
              st1 = st\<lparr>kc_consumer := k\<rparr>
          in (case r of
                Inl _ \<Rightarrow> st1
              | Inr (low, high) \<Rightarrow>
                  let lag = high - m_Offset msg - 1; lag1 = (if sint lag < 0 then 0 else lag)
                  in st1\<lparr>kc_lag := (kc_lag st1)((topic, Itoa (of_int32 (m_Partition msg))) \<mapsto>
                       float_of_int (sint lag1))\<rparr>))"

section \<open>The loop\<close>

text \<open>One iteration of the loop of \<open>Start\<close>: it goes on, or returns \<open>nil\<close> or an error.\<close>

datatype iteration = Continue | Return "kafka_error option"

definition count_error :: "string \<Rightarrow> ('c, 'w, 'k) KafkaConsumer \<Rightarrow> ('c, 'w, 'k) KafkaConsumer" where
  "count_error stage st = st\<lparr>kc_errors := inc (kc_errors st) stage\<rparr>"

definition Start_step :: "'k kafka_lib \<Rightarrow> 'c CalculatorServicer \<Rightarrow> 'w Client \<Rightarrow>
    ('c, 'w, 'k) KafkaConsumer \<Rightarrow> iteration \<times> ('c, 'w, 'k) KafkaConsumer" where
  "Start_step lib calc agg st =
     (let (cancelled, k) = kl_Cancelled lib (kc_consumer st); st0 = st\<lparr>kc_consumer := k\<rparr>
      in if cancelled then (Return None, st0)
         else
           let (r, k1) = kl_ReadMessage lib (kc_pollInterval st0) (kc_consumer st0);
               st1 = st0\<lparr>kc_consumer := k1\<rparr>
           in (case r of
                 Inl err \<Rightarrow> (Continue, if err = ErrTimedOut then st1 else count_error ''read'' st1)
               | Inr msg \<Rightarrow>
                   let st2 = updateLag lib msg
                         (st1\<lparr>kc_events := kc_events st1 + 1, kc_calls := kc_calls st1 @ [Read msg]\<rparr>)
                   in (case processMessage lib calc agg msg st2 of
                         (None, st3) \<Rightarrow> (Continue, st3)
                       | (Some err, st3) \<Rightarrow>
                           let st4 = count_error ''process'' st3;
                               (seekErr, k2) = kl_Seek lib msg (kc_consumer st4);
                               st5 = st4\<lparr>kc_consumer := k2, kc_calls := kc_calls st4 @ [Seek msg]\<rparr>
                           in (case seekErr of
                                 None \<Rightarrow> (Continue, st5)
                               | Some e \<Rightarrow> (Return (Some e), count_error ''seek'' st5)))))"

text \<open>The first \<open>n\<close> iterations; \<open>None\<close> means that the loop is still running.\<close>

fun Start :: "'k kafka_lib \<Rightarrow> 'c CalculatorServicer \<Rightarrow> 'w Client \<Rightarrow> nat \<Rightarrow>
    ('c, 'w, 'k) KafkaConsumer \<Rightarrow> kafka_error option option \<times> ('c, 'w, 'k) KafkaConsumer" where
  "Start lib calc agg 0 st = (None, st)"
| "Start lib calc agg (Suc n) st =
     (case Start_step lib calc agg st of
        (Continue, st1) \<Rightarrow> Start lib calc agg n st1
      | (Return r, st1) \<Rightarrow> (Some r, st1))"

lemmas consumer_eval [go_eval] =
  NewKafkaConsumerWithConfig_def NewKafkaConsumer_def KafkaConsumer_Close_def
  CommitMessage_def event_request_def
  processEvent_def valid_event_def discard_def processMessage_def updateLag_def count_error_def
  Start_step_def

section \<open>What the consumer has read, and what it bills\<close>

definition payload_event :: "json option \<Rightarrow> OBUData option" where
  "payload_event v =
     (case Option.bind v decode_OBUData of
        Some e \<Rightarrow> (if valid_event e then Some e else None)
      | None \<Rightarrow> None)"

definition event_of :: "kafka_message \<Rightarrow> OBUData option" where
  "event_of msg = payload_event (m_Value msg)"

fun events_read :: "kafka_call list \<Rightarrow> OBUData list" where
  "events_read [] = []"
| "events_read (Read m # cs) =
     (case event_of m of None \<Rightarrow> events_read cs | Some e \<Rightarrow> e # events_read cs)"
| "events_read (_ # cs) = events_read cs"

definition track_of :: "kafka_call list \<Rightarrow> OBUData list" where
  "track_of cs = foldl visit [] (events_read cs)"

text \<open>The distance that is sent for an event of a track.\<close>

definition bill :: "OBUData list \<Rightarrow> OBUData \<Rightarrow> Distance" where
  "bill T e = request_distance (event_request e (answer T e))"

lemma events_read_append [simp]: "events_read (cs @ ds) = events_read cs @ events_read ds"
  by (induction cs rule: events_read.induct) (auto split: option.splits)

lemma track_of_snoc [simp]:
  "track_of (cs @ [Commit m]) = track_of cs" "track_of (cs @ [Seek m]) = track_of cs"
  "track_of (cs @ [Read m]) = (case event_of m of None \<Rightarrow> track_of cs | Some e \<Rightarrow> visit (track_of cs) e)"
  by (simp_all add: track_of_def split: option.splits)

lemma event_of_good:
  "event_of m = Some e \<Longrightarrow> valid_event e \<and> utf8 (od_EventID e) \<and> isFinite (od_Lat e) \<and> isFinite (od_Lon e)"
  using decode_OBUData_good
  by (auto simp: event_of_def payload_event_def split: option.splits if_splits bind_splits)

lemma events_read_mem: "e \<in> set (events_read cs) \<longleftrightarrow> (\<exists>m. Read m \<in> set cs \<and> event_of m = Some e)"
  by (induction cs rule: events_read.induct) (auto split: option.splits)

lemma foldl_extend_mono: "i \<in> track_ids T \<Longrightarrow> i \<in> track_ids (foldl visit T es)"
  by (induction es arbitrary: T) (simp_all add: track_ids_extend)

lemma foldl_extend_ids:
  "e \<in> set es \<Longrightarrow> od_EventID e \<noteq> '''' \<Longrightarrow> od_EventID e \<in> track_ids (foldl visit T es)"
  by (induction es arbitrary: T) (auto simp: track_ids_extend intro: foldl_extend_mono)

lemma read_in_track: "e \<in> set (events_read cs) \<Longrightarrow> od_EventID e \<in> track_ids (track_of cs)"
  using event_of_good
  by (fastforce simp: track_of_def events_read_mem valid_event_def intro: foldl_extend_ids)

text \<open>The bill of an event does not change as the track grows.\<close>

lemma bill_extend: "od_EventID e \<in> track_ids T \<Longrightarrow> bill (visit T e') e = bill T e"
  using answers_extend by (fastforce simp: bill_def mem_track_ids answer_def)

lemma bill_new: "od_EventID e \<noteq> '''' \<Longrightarrow> bill (visit T e) e = bill T e"
  using answers_extend_new [of e T] by (simp add: bill_def answer_def [of "visit T e"])

lemma bill_fields [simp]:
  "d_EventID (bill T e) = od_EventID e" "d_Value (bill T e) = answer T e"
  "d_ProducedAtUnixNano (bill T e) = od_ProducedAtUnixNano e"
  "d_OBUID (bill T e) = of_int32 (to_int32 (od_OBUID e))"
  by (simp_all add: bill_def request_distance_def event_request_def)

lemma updateLag_keeps [simp]:
  "kc_calls (updateLag lib m st) = kc_calls st" "kc_calcService (updateLag lib m st) = kc_calcService st"
  "kc_aggClient (updateLag lib m st) = kc_aggClient st" "kc_errors (updateLag lib m st) = kc_errors st"
  "kc_events (updateLag lib m st) = kc_events st"
  by (simp_all add: updateLag_def Let_def split: option.splits prod.splits sum.splits)

lemma CommitMessage_keeps:
  assumes "CommitMessage lib m st = (err, st')"
  shows "kc_calls st' = kc_calls st @ [Commit m]" "kc_calcService st' = kc_calcService st"
    "kc_aggClient st' = kc_aggClient st"
  using assms by (auto simp: CommitMessage_def split: prod.splits)

lemma count_error_keeps [simp]:
  "kc_calls (count_error s st) = kc_calls st" "kc_calcService (count_error s st) = kc_calcService st"
  "kc_aggClient (count_error s st) = kc_aggClient st"
  by (simp_all add: count_error_def)

lemma processMessage_event:
  "processMessage lib calc agg msg st =
     (case event_of msg of
        None \<Rightarrow> discard lib msg st
      | Some e \<Rightarrow>
          (case processEvent lib calc agg e st of
             (Some err, st1) \<Rightarrow> (Some err, st1)
           | (None, st1) \<Rightarrow> let (err, st2) = CommitMessage lib msg st1 in (map_option CommitError err, st2)))"
  by (auto simp: processMessage_def event_of_def payload_event_def split: option.splits)

lemma discard_keeps:
  assumes "discard lib m st = (err, st')"
  shows "kc_calls st' = kc_calls st @ [Commit m]" "kc_calcService st' = kc_calcService st"
    "kc_aggClient st' = kc_aggClient st"
  using assms by (auto simp: discard_def CommitMessage_def split: prod.splits)

text \<open>
  An iteration reads nothing and changes neither the calculator nor the aggregator, or it reads one
  message, processes it, and rewinds to it if that failed.
\<close>

lemma Start_step_cases:
  assumes run: "Start_step lib calc agg st = (it, st')"
  obtains (idle) "kc_calls st' = kc_calls st" "kc_calcService st' = kc_calcService st"
      "kc_aggClient st' = kc_aggClient st"
  | (read) m st2 err st3 ds where "kc_calls st2 = kc_calls st @ [Read m]"
      "kc_calcService st2 = kc_calcService st" "kc_aggClient st2 = kc_aggClient st"
      "processMessage lib calc agg m st2 = (err, st3)" "ds = (if err = None then [] else [Seek m])"
      "kc_calls st' = kc_calls st3 @ ds" "kc_calcService st' = kc_calcService st3"
      "kc_aggClient st' = kc_aggClient st3"
proof -
  obtain b k where b: "kl_Cancelled lib (kc_consumer st) = (b, k)" by (cases "kl_Cancelled lib (kc_consumer st)")
  obtain r k1 where r: "kl_ReadMessage lib (kc_pollInterval st) k = (r, k1)"
    by (cases "kl_ReadMessage lib (kc_pollInterval st) k")
  consider (stop) "b" | (error) err where "\<not> b" "r = Inl err" | (msg) m where "\<not> b" "r = Inr m"
    by (cases r) auto
  then show thesis
  proof cases
    case stop
    with run b r show ?thesis by (intro idle) (auto simp: Start_step_def)
  next
    case error
    with run b r have "st' = (if err = ErrTimedOut then st\<lparr>kc_consumer := k1\<rparr>
        else count_error ''read'' (st\<lparr>kc_consumer := k1\<rparr>))"
      by (auto simp: Start_step_def Let_def)
    then show ?thesis by (intro idle) simp_all
  next
    case msg
    define st2 where "st2 = updateLag lib m (st\<lparr>kc_consumer := k1, kc_events := kc_events st + 1,
      kc_calls := kc_calls st @ [Read m]\<rparr>)"
    obtain err st3 where p: "processMessage lib calc agg m st2 = (err, st3)"
      by (cases "processMessage lib calc agg m st2")
    show ?thesis
      by (rule read [of st2 m err st3, OF _ _ _ p refl])
        (use run b r msg p in \<open>auto simp: Start_step_def Let_def st2_def split: option.splits prod.splits\<close>)
  qed
qed

section \<open>The pipeline from Kafka to the aggregator\<close>

text \<open>
  The invariant of the loop: the calculator holds the track of what was read; besides \<open>S0\<close>, what earlier
  processes have sent, only bills of events that were read have been sent; and the events of committed
  messages were read, have a valid bill and are in the ledger.
\<close>

definition pipeline_inv :: "(OBUData list \<Rightarrow> 'c \<Rightarrow> bool) \<Rightarrow> (Distance set \<Rightarrow> ledger \<Rightarrow> 'w \<Rightarrow> bool) \<Rightarrow>
    Distance set \<Rightarrow> ledger \<Rightarrow> ('c, 'w, 'k) KafkaConsumer \<Rightarrow> bool" where
  "pipeline_inv crel state S0 L st \<longleftrightarrow>
     (let cs = kc_calls st; T = track_of cs
      in crel T (kc_calcService st)
         \<and> (\<exists>S. state S L (kc_aggClient st) \<and> S \<subseteq> S0 \<union> bill T ` set (events_read cs))
         \<and> (\<forall>m e. Commit m \<in> set cs \<longrightarrow> event_of m = Some e \<longrightarrow>
               e \<in> set (events_read cs) \<and> od_EventID e \<in> set (ids L) \<and> valid_distance (bill T e)))"

locale pipeline = calculator calc crel + client agg state
  for calc :: "'c CalculatorServicer" and crel and agg :: "'w Client" and state
begin

lemma processEvent_bills:
  assumes "crel T (kc_calcService st)" "state S L (kc_aggClient st)" "utf8 (od_EventID e)"
    and run: "processEvent lib calc agg e st = (err, st')"
  shows "kc_calls st' = kc_calls st \<and> crel (visit T e) (kc_calcService st')
    \<and> (\<exists>M. state (insert (bill T e) S) (L @ M) (kc_aggClient st')
        \<and> (err = None \<longrightarrow> od_EventID e \<in> set (ids (L @ M)) \<and> valid_distance (bill T e)))"
proof -
  let ?req = "event_request e (answer T e)"
  obtain s where s: "ca_CalculateDist calc (kc_calcService st) e = (Inr (answer T e), s)" "crel (visit T e) s"
    using calculates [OF assms(1)] by blast
  obtain aerr w where w: "cl_Aggregate agg ?req (kc_aggClient st) = (aerr, w)"
    by (cases "cl_Aggregate agg ?req (kc_aggClient st)")
  have st': "kc_calls st' = kc_calls st" "kc_calcService st' = s" "kc_aggClient st' = w"
    "err = map_option (AggregateError (od_EventID e)) aerr"
    using run s(1) w by (auto simp: processEvent_def split: prod.splits)
  moreover obtain M where "state (insert (bill T e) S) (L @ M) w"
    "aerr = None \<longrightarrow> od_EventID e \<in> set (ids (L @ M)) \<and> valid_distance (bill T e)"
    using aggregate [OF assms(2) _ w] assms(3) by (auto simp: bill_def event_request_def)
  ultimately show ?thesis using s(2) by auto
qed

lemma processMessage_bills:
  assumes rel: "crel T (kc_calcService st)" and st: "state S L (kc_aggClient st)"
    and run: "processMessage lib calc agg m st = (err, st')"
  shows "\<exists>ds M. kc_calls st' = kc_calls st @ ds \<and> ds \<in> {[], [Commit m]} \<and> (err = None \<longrightarrow> ds = [Commit m])
    \<and> crel (case event_of m of None \<Rightarrow> T | Some e \<Rightarrow> visit T e) (kc_calcService st')
    \<and> state (case event_of m of None \<Rightarrow> S | Some e \<Rightarrow> insert (bill T e) S) (L @ M) (kc_aggClient st')
    \<and> (ds \<noteq> [] \<longrightarrow> (\<forall>e. event_of m = Some e \<longrightarrow> od_EventID e \<in> set (ids (L @ M)) \<and> valid_distance (bill T e)))"
proof (cases "event_of m")
  case None
  with run have "discard lib m st = (err, st')" by (simp add: processMessage_event)
  from discard_keeps [OF this] show ?thesis
    using None rel st by (intro exI [of _ "[Commit m]"] exI [of _ "[]"]) simp
next
  case (Some e)
  obtain perr st1 where p: "processEvent lib calc agg e st = (perr, st1)"
    by (cases "processEvent lib calc agg e st")
  obtain M where M: "kc_calls st1 = kc_calls st" "crel (visit T e) (kc_calcService st1)"
    "state (insert (bill T e) S) (L @ M) (kc_aggClient st1)"
    "perr = None \<longrightarrow> od_EventID e \<in> set (ids (L @ M)) \<and> valid_distance (bill T e)"
    using processEvent_bills [OF rel st _ p] event_of_good [OF Some] by blast
  show ?thesis
  proof (cases perr)
    case (Some x)
    then have "st' = st1" "err \<noteq> None" using run p \<open>event_of m = Some e\<close> by (auto simp: processMessage_event)
    then show ?thesis using M \<open>event_of m = Some e\<close>
      by (intro exI [of _ "[]"] exI [of _ M]) simp
  next
    case None
    obtain cerr st2 where c: "CommitMessage lib m st1 = (cerr, st2)" by (cases "CommitMessage lib m st1")
    then have "st' = st2" using run p None \<open>event_of m = Some e\<close> by (simp add: processMessage_event)
    then show ?thesis using CommitMessage_keeps [OF c] M None \<open>event_of m = Some e\<close>
      by (intro exI [of _ "[Commit m]"] exI [of _ M]) simp
  qed
qed

text \<open>The states between the iterations.\<close>

lemma sent_bills:
  assumes "S \<subseteq> S0 \<union> bill T ` set es" "set es \<subseteq> {e. od_EventID e \<in> track_ids T}" "od_EventID e \<noteq> ''''"
  shows "insert (bill T e) S \<subseteq> S0 \<union> bill (visit T e) ` set (es @ [e])"
proof -
  have "bill (visit T e) ` set es = bill T ` set es"
    using assms(2) by (intro image_cong) (auto simp: bill_extend)
  then show ?thesis using assms(1) bill_new [OF assms(3), of T] by auto
qed

lemma Start_step_inv:
  assumes inv: "pipeline_inv crel state S0 L st" and run: "Start_step lib calc agg st = (it, st')"
  shows "\<exists>M. pipeline_inv crel state S0 (L @ M) st'"
  using run
proof (cases rule: Start_step_cases)
  case idle
  then show ?thesis using inv by (intro exI [of _ "[]"]) (simp add: pipeline_inv_def)
next
  case (read m st2 err st3 ds)
  let ?cs = "kc_calls st" and ?T = "track_of (kc_calls st)"
  let ?T' = "case event_of m of None \<Rightarrow> ?T | Some e \<Rightarrow> visit ?T e"
  obtain S where S: "state S L (kc_aggClient st)" "S \<subseteq> S0 \<union> bill ?T ` set (events_read ?cs)"
    and rel: "crel ?T (kc_calcService st)"
    and com: "\<And>m e. Commit m \<in> set ?cs \<Longrightarrow> event_of m = Some e \<Longrightarrow>
      e \<in> set (events_read ?cs) \<and> od_EventID e \<in> set (ids L) \<and> valid_distance (bill ?T e)"
    using inv by (auto simp: pipeline_inv_def Let_def)
  let ?S' = "case event_of m of None \<Rightarrow> S | Some e \<Rightarrow> insert (bill ?T e) S"
  obtain ds1 M where p: "kc_calls st3 = kc_calls st2 @ ds1" "ds1 \<in> {[], [Commit m]}"
    "crel ?T' (kc_calcService st3)" "state ?S' (L @ M) (kc_aggClient st3)"
    "ds1 \<noteq> [] \<longrightarrow> (\<forall>e. event_of m = Some e \<longrightarrow> od_EventID e \<in> set (ids (L @ M)) \<and> valid_distance (bill ?T e))"
    using processMessage_bills [of ?T st2 S L lib m err st3] read rel S(1) by auto
  have calls: "kc_calls st' = ?cs @ [Read m] @ ds1 @ ds" using read p(1) by simp
  have track: "track_of (kc_calls st') = ?T'"
    using calls p(2) read(5) by (auto simp: track_of_def split: option.splits)
  have evs: "events_read (kc_calls st') = events_read ?cs @ (case event_of m of None \<Rightarrow> [] | Some e \<Rightarrow> [e])"
    using calls p(2) read(5) by (auto split: option.splits)
  have "?S' \<subseteq> S0 \<union> bill ?T' ` set (events_read (kc_calls st'))"
  proof (cases "event_of m")
    case None
    then show ?thesis using S(2) evs by simp
  next
    case (Some e)
    then show ?thesis
      using sent_bills [OF S(2), of e] read_in_track event_of_good [OF Some] evs
      by (auto simp: valid_event_def)
  qed
  moreover have "e' \<in> set (events_read (kc_calls st')) \<and> od_EventID e' \<in> set (ids (L @ M)) \<and> valid_distance (bill ?T' e')"
    if "Commit m' \<in> set (kc_calls st')" "event_of m' = Some e'" for m' e'
  proof (cases "m' = m \<and> ds1 \<noteq> []")
    case True
    then have "od_EventID e' \<noteq> ''''" using event_of_good [OF that(2)] by (simp add: valid_event_def)
    then show ?thesis using p(5) True that(2) evs bill_new [of e' ?T] by auto
  next
    case False
    then have old: "Commit m' \<in> set ?cs" using that(1) calls p(2) read(5) by (auto split: if_splits)
    have "bill ?T' e' = bill ?T e'"
      using bill_extend read_in_track com [OF old that(2)] by (auto split: option.splits)
    then show ?thesis using com [OF old that(2)] evs by simp
  qed
  ultimately show ?thesis
    using p(3,4) read(7,8) track by (intro exI [of _ M]) (auto simp: pipeline_inv_def Let_def)
qed

lemma Start_inv:
  "pipeline_inv crel state S0 L st \<Longrightarrow> \<exists>M. pipeline_inv crel state S0 (L @ M) (snd (Start lib calc agg n st))"
proof (induction n arbitrary: L st)
  case (Suc n)
  obtain it st1 where it: "Start_step lib calc agg st = (it, st1)" by (cases "Start_step lib calc agg st")
  obtain M where M: "pipeline_inv crel state S0 (L @ M) st1" using Start_step_inv [OF Suc.prems it] by blast
  then show ?case using Suc.IH [OF M] it by (cases it) auto
qed (auto intro: exI [of _ "[]"])

end

section \<open>The deployed pipelines\<close>

interpretation grpc_pipeline: pipeline calc_svc calc_svc_rel
    "grpcClient (deployed_grpc aggregator_svc) g" "grpc_state svc_rel" for g
  by unfold_locales

interpretation http_pipeline: pipeline calc_svc calc_svc_rel
    "httpClient (deployed_http plain_url jsize prom aggregator_svc) (NewHttpClient ''http://localhost:4000'')"
    "http_state svc_rel" for jsize prom
  by unfold_locales

section \<open>The protocol with Kafka\<close>

text \<open>
  The sequences of calls a consumer may make: every message that is read is committed, or rewound
  to, or rewound to after its commit failed.
\<close>

inductive calls_ok :: "kafka_call list \<Rightarrow> bool" where
  start: "calls_ok []"
| processed: "calls_ok cs \<Longrightarrow> calls_ok (cs @ [Read m, Commit m])"
| failed: "calls_ok cs \<Longrightarrow> calls_ok (cs @ [Read m, Seek m])"
| uncommitted: "calls_ok cs \<Longrightarrow> calls_ok (cs @ [Read m, Commit m, Seek m])"

lemma processMessage_calls:
  assumes "processMessage lib calc agg m st = (err, st')"
  shows "kc_calls st' = kc_calls st @ [Commit m] \<or> (err \<noteq> None \<and> kc_calls st' = kc_calls st)"
proof (cases "event_of m")
  case None
  then show ?thesis using assms discard_keeps(1) [of lib m st err st'] by (simp add: processMessage_event)
next
  case (Some e)
  obtain perr st1 where p: "processEvent lib calc agg e st = (perr, st1)" by (cases "processEvent lib calc agg e st")
  then have calls: "kc_calls st1 = kc_calls st"
    by (auto simp: processEvent_def Let_def split: prod.splits sum.splits)
  show ?thesis
  proof (cases perr)
    case None
    then show ?thesis
      using assms Some p calls CommitMessage_keeps(1) [of lib m st1] by (auto simp: processMessage_event split: prod.splits)
  qed (use assms Some p calls in \<open>auto simp: processMessage_event\<close>)
qed

lemma Start_step_calls:
  assumes "Start_step lib calc agg st = (it, st')" "calls_ok (kc_calls st)"
  shows "calls_ok (kc_calls st')"
  using assms(1)
proof (cases rule: Start_step_cases)
  case idle
  then show ?thesis using assms(2) by simp
next
  case (read m st2 err st3 ds)
  then have "kc_calls st' \<in> {kc_calls st @ [Read m, Commit m], kc_calls st @ [Read m, Seek m],
      kc_calls st @ [Read m, Commit m, Seek m]}"
    using processMessage_calls [OF read(4)] by auto
  then show ?thesis using assms(2) by (auto intro: calls_ok.intros)
qed

section \<open>Properties of the consumer\<close>


text \<open>A Kafka of two messages, the first of which is not JSON: enough to run the loop.\<close>

definition tiny_message :: "nat \<Rightarrow> kafka_message" where
  "tiny_message k = \<lparr>m_Topic = None, m_Partition = 0, m_Offset = of_nat k, m_Value = None\<rparr>"

definition tiny_kafka :: "nat kafka_lib" where
  "tiny_kafka =
     \<lparr>kl_NewConsumer = (\<lambda>_. Inr 0), kl_SubscribeTopics = (\<lambda>_ k. (None, k)), kl_Close = (\<lambda>k. (None, k)),
      kl_Cancelled = (\<lambda>k. (2 \<le> k, k)), kl_ReadMessage = (\<lambda>_ k. (Inr (tiny_message k), k + 1)),
      kl_CommitMessage = (\<lambda>_ k. (None, k)), kl_Seek = (\<lambda>_ k. (None, k)),
      kl_GetWatermarkOffsets = (\<lambda>_ _ k. (Inl ErrTimedOut, k)), kl_DeadlineExceeded = (\<lambda>k. (False, k))\<rparr>"

definition tiny_consumer :: "'c \<Rightarrow> 'w \<Rightarrow> ('c, 'w, nat) KafkaConsumer" where
  "tiny_consumer svc ac = projr (NewKafkaConsumer tiny_kafka ''obudata'' svc ac)"

lemmas tiny_eval [go_eval] = tiny_message_def tiny_kafka_def tiny_consumer_def

lemma tiny_calls: "kc_calls (tiny_consumer svc ac) = []"
  by (simp add: tiny_consumer_def NewKafkaConsumer_def NewKafkaConsumerWithConfig_def tiny_kafka_def)


text \<open>
  The lag gauge of a partition shows the number of messages behind the one that was read, and
  never a negative number, as long as the offsets are in the range of Kafka's offsets.
\<close>

theorem updateLag_gauge:
  assumes "m_Topic m = Some topic" "kl_GetWatermarkOffsets lib topic (m_Partition m) (kc_consumer st) = (Inr (low, high), k)"
    and "0 \<le> sint (m_Offset m)" "0 \<le> sint high"
  shows "kc_lag (updateLag lib m st) (topic, Itoa (of_int32 (m_Partition m))) =
    Some (float_of_int (max 0 (sint high - sint (m_Offset m) - 1)))"
proof -
  have r: "sint high < 2 ^ 63" "sint (m_Offset m) < 2 ^ 63"
    using sint_range_size [of high] sint_range_size [of "m_Offset m"] by (simp_all add: word_size)
  have eq: "high - m_Offset m - 1 = word_of_int (sint high - sint (m_Offset m) - 1)" by simp
  have "sint (high - m_Offset m - 1) = signed_take_bit 63 (sint high - sint (m_Offset m) - 1)"
    unfolding eq by (simp only: signed_of_int) simp
  also have "\<dots> = sint high - sint (m_Offset m) - 1"
    using assms(3,4) r by (intro signed_take_bit_int_eq_self) auto
  finally show ?thesis using assms(1,2) by (auto simp: updateLag_def Let_def max_def)
qed

definition tiny_watermark :: "nat kafka_lib" where
  "tiny_watermark = tiny_kafka\<lparr>kl_GetWatermarkOffsets := (\<lambda>_ _ k. (Inr (0, 10), k))\<rparr>"

theorem updateLag_gauge_witness:
  "kc_lag (updateLag tiny_watermark ((tiny_message 3)\<lparr>m_Topic := Some ''obudata''\<rparr>) (tiny_consumer () ()))
     (''obudata'', Itoa (of_int32 0)) = Some (float_of_int 6)"
  using updateLag_gauge [of "(tiny_message 3)\<lparr>m_Topic := Some ''obudata''\<rparr>" "''obudata''" tiny_watermark
      "tiny_consumer () ()" 0 10]
  by (simp add: tiny_watermark_def tiny_message_def)

text \<open>
  An OBU number below 2^31 reaches the aggregator unchanged: the conversion to the 32-bit field of
  the request and back loses nothing.
\<close>

theorem bill_obu:
  assumes "0 < sint (od_OBUID e)" "sint (od_OBUID e) < 2 ^ 31"
  shows "d_OBUID (bill T e) = od_OBUID e"
  using of_int32_to_int32 [of "od_OBUID e"] assms by simp

theorem bill_obu_witness: "d_OBUID (bill [] fix_b) = 1"
  using bill_obu [of fix_b "[]"] by (simp add: fix_b_def)


end
