(* ===== verification/Calc_Main.thy ===== *)
theory Calc_Main
  imports Consumer Go_Parse
begin

text \<open>
  The process of the distance calculator (\<open>dist-calc/main.go\<close>): its settings, the choice of the client,
  the consumer, and what is closed at the end. The environment is a function; the two libraries of the
  clients work on the same world. The lemmas show which settings are accepted and that nothing is
  called before they are.
\<close>

section \<open>Settings\<close>

text \<open>What \<open>log.Fatal\<close> ends the process with.\<close>

datatype calc_fatal =
    BadRequestTimeout
  | BadProtocol string
  | ClientFailed string
  | ConsumerFailed kafka_error

definition downstreamTimeout :: "(string \<Rightarrow> string) \<Rightarrow> calc_fatal + duration" where
  "downstreamTimeout getenv =
     (case ParseDuration (envOr getenv ''AGGREGATOR_REQUEST_TIMEOUT'' ''2s'') of
        None \<Rightarrow> Inl BadRequestTimeout
      | Some d \<Rightarrow> if sint d \<le> 0 then Inl BadRequestTimeout else Inr d)"

definition protocol :: "(string \<Rightarrow> string) \<Rightarrow> (string \<Rightarrow> string) \<Rightarrow> string" where
  "protocol tbl getenv = ToLower tbl (envOr getenv ''AGGREGATOR_PROTOCOL'' ''grpc'')"

definition calculator_client :: "(string \<Rightarrow> string) \<Rightarrow> (string \<Rightarrow> string) \<Rightarrow> 'n http_lib \<Rightarrow> 'n grpc_lib \<Rightarrow> duration \<Rightarrow>
    calc_fatal + 'n client_state Client" where
  "calculator_client tbl getenv hlib glib timeout =
     (let p = protocol tbl getenv
      in if p = ''http''
         then Inr (httpClient hlib (NewHttpClientWithTimeout
                (envOr getenv ''AGGREGATOR_HTTP_ADDR'' ''http://localhost:4000'') timeout))
         else if p = ''grpc''
         then (case NewGrpcClientWithTimeout glib (envOr getenv ''AGGREGATOR_GRPC_ADDR'' ''localhost:3001'') timeout of
                 Inl err \<Rightarrow> Inl (ClientFailed err)
               | Inr g \<Rightarrow> Inr (grpcClient glib g))
         else Inl (BadProtocol p))"

definition calculator_config :: "(string \<Rightarrow> string) \<Rightarrow> duration \<Rightarrow> KafkaConsumerConfig" where
  "calculator_config getenv timeout =
     \<lparr>kf_Brokers = envOr getenv ''KAFKA_BROKERS'' ''localhost:9092'',
      kf_GroupID = envOr getenv ''KAFKA_GROUP_ID'' ''tollify-distance-calculator'',
      kf_Topic = envOr getenv ''KAFKA_TOPIC'' ''obudata'',
      kf_DownstreamTimeout = timeout, kf_PollInterval = 250000000\<rparr>"

section \<open>The process\<close>

text \<open>
  The deferred calls at the end: the consumer is closed, then the client. A consumer that is still
  running after \<open>n\<close> iterations has not closed anything.
\<close>

definition calculator_shutdown :: "'k kafka_lib \<Rightarrow> 'w Client \<Rightarrow> ('c, 'w, 'k) KafkaConsumer \<Rightarrow> ('c, 'w, 'k) KafkaConsumer" where
  "calculator_shutdown klib ac st =
     (let (err, st1) = KafkaConsumer_Close klib st; (cerr, w) = cl_Close ac (kc_aggClient st1)
      in st1\<lparr>kc_aggClient := w\<rparr>)"

text \<open>
  The server for the metrics, and what the process logs: \<open>serve\<close> gives the error of its \<open>ListenAndServe\<close>, where
  \<open>None\<close> stands for \<open>ErrServerClosed\<close>, and \<open>msg\<close> the texts of Kafka's errors.
\<close>

definition calculator_metrics :: "(string \<Rightarrow> string) \<Rightarrow> http_server" where
  "calculator_metrics getenv = \<lparr>sv_Addr = envOr getenv ''CALCULATOR_METRICS_ADDR'' '':9102'', sv_ReadHeaderTimeout = 5000000000\<rparr>"

definition calculator_log :: "(kafka_error \<Rightarrow> string) \<Rightarrow> string option \<Rightarrow> kafka_error option option \<Rightarrow> string list" where
  "calculator_log msg serveErr r =
     log_error ''metrics server'' serveErr
     @ log_error ''consumer stopped''
         (map_option (\<lambda>e. ''rewind failed after processing error: '' @ msg e) (Option.bind r (\<lambda>e. e)))"

definition calculator_main :: "(string \<Rightarrow> string) \<Rightarrow> (string \<Rightarrow> string) \<Rightarrow> 'n http_lib \<Rightarrow> 'n grpc_lib \<Rightarrow> 'k kafka_lib \<Rightarrow>
    (kafka_error \<Rightarrow> string) \<Rightarrow> (http_server \<Rightarrow> string option) \<Rightarrow> nat \<Rightarrow> 'n client_state \<Rightarrow>
    calc_fatal + kafka_error option option \<times> string list \<times> (calc_state, 'n client_state, 'k) KafkaConsumer" where
  "calculator_main tbl getenv hlib glib klib msg serve n w =
     (case downstreamTimeout getenv of
        Inl e \<Rightarrow> Inl e
      | Inr timeout \<Rightarrow>
          (case calculator_client tbl getenv hlib glib timeout of
             Inl e \<Rightarrow> Inl e
           | Inr ac \<Rightarrow>
               (case NewKafkaConsumerWithConfig klib (calculator_config getenv timeout) calc_start w of
                  Inl (e, _) \<Rightarrow> Inl (ConsumerFailed e)
                | Inr consumer \<Rightarrow>
                    (let (r, st) = Start klib calc_svc ac n consumer; logs = calculator_log msg (serve (calculator_metrics getenv)) r
                     in Inr (r, logs, if r = None then st else calculator_shutdown klib ac st)))))"

lemmas calc_main_eval [go_eval] =
  downstreamTimeout_def protocol_def calculator_client_def calculator_config_def calculator_shutdown_def
  calculator_metrics_def calculator_log_def calculator_main_def

section \<open>What a run consists of\<close>

lemma calculator_mainE:
  assumes "calculator_main tbl getenv hlib glib klib msg serve n w = Inr (r, logs, st')"
  obtains timeout ac consumer st where
    "downstreamTimeout getenv = Inr timeout" "calculator_client tbl getenv hlib glib timeout = Inr ac"
    "NewKafkaConsumerWithConfig klib (calculator_config getenv timeout) calc_start w = Inr consumer"
    "Start klib calc_svc ac n consumer = (r, st)" "st' = (if r = None then st else calculator_shutdown klib ac st)"
    "logs = calculator_log msg (serve (calculator_metrics getenv)) r"
proof -
  obtain timeout where t: "downstreamTimeout getenv = Inr timeout"
    using assms by (auto simp: calculator_main_def split: sum.splits)
  obtain ac where ac: "calculator_client tbl getenv hlib glib timeout = Inr ac"
    using assms t by (auto simp: calculator_main_def split: sum.splits)
  obtain consumer where c: "NewKafkaConsumerWithConfig klib (calculator_config getenv timeout) calc_start w = Inr consumer"
    using assms t ac by (auto simp: calculator_main_def split: sum.splits)
  obtain q st where s: "Start klib calc_svc ac n consumer = (q, st)" by (cases "Start klib calc_svc ac n consumer")
  then have "q = r" "st' = (if r = None then st else calculator_shutdown klib ac st)"
    "logs = calculator_log msg (serve (calculator_metrics getenv)) r"
    using assms t ac c by (auto simp: calculator_main_def Let_def)
  then show ?thesis using that t ac c s by blast
qed

lemma calculator_shutdown_keeps:
  "kc_calls (calculator_shutdown klib ac st) = kc_calls st"
  "kc_aggClient (calculator_shutdown klib ac st) = snd (cl_Close ac (kc_aggClient st))"
  by (simp_all add: calculator_shutdown_def KafkaConsumer_Close_def case_prod_beta Let_def)

section \<open>Settings that are accepted\<close>

text \<open>
  C27: The calculator runs only with a positive request timeout and with protocol \<open>http\<close> or \<open>grpc\<close>, in
  any case of letters; it ends with an error that says so otherwise, whatever Kafka and the network
  would do. An unset environment gives gRPC to \<open>localhost:3001\<close> with a timeout of two seconds.
\<close>

theorem calculator_settings:
  "(calculator_main tbl getenv hlib glib klib msg serve n w = Inl BadRequestTimeout \<longleftrightarrow>
     \<not> (\<exists>d. ParseDuration (envOr getenv ''AGGREGATOR_REQUEST_TIMEOUT'' ''2s'') = Some d \<and> 0 < sint d))
   \<and> (calculator_main tbl getenv hlib glib klib msg serve n w = Inl (BadProtocol p) \<longleftrightarrow>
     (\<exists>d. ParseDuration (envOr getenv ''AGGREGATOR_REQUEST_TIMEOUT'' ''2s'') = Some d \<and> 0 < sint d)
     \<and> protocol tbl getenv = p \<and> p \<notin> {''http'', ''grpc''})
   \<and> downstreamTimeout (\<lambda>_. '''') = Inr 2000000000
   \<and> calculator_client tbl (\<lambda>_. '''') hlib glib 2000000000 =
       (case gl_NewClient glib ''localhost:3001'' of
          None \<Rightarrow> Inr (grpcClient glib grpc_local) | Some err \<Rightarrow> Inl (ClientFailed err))"
proof (intro conjI)
  show "calculator_main tbl getenv hlib glib klib msg serve n w = Inl BadRequestTimeout \<longleftrightarrow>
     \<not> (\<exists>d. ParseDuration (envOr getenv ''AGGREGATOR_REQUEST_TIMEOUT'' ''2s'') = Some d \<and> 0 < sint d)"
    by (auto simp: calculator_main_def calculator_client_def downstreamTimeout_def Let_def
        split: option.splits sum.splits if_splits prod.splits)
  show "calculator_main tbl getenv hlib glib klib msg serve n w = Inl (BadProtocol p) \<longleftrightarrow>
     (\<exists>d. ParseDuration (envOr getenv ''AGGREGATOR_REQUEST_TIMEOUT'' ''2s'') = Some d \<and> 0 < sint d)
     \<and> protocol tbl getenv = p \<and> p \<notin> {''http'', ''grpc''}"
    by (auto simp: calculator_main_def calculator_client_def downstreamTimeout_def Let_def
        split: option.splits sum.splits if_splits prod.splits)
  show "downstreamTimeout (\<lambda>_. '''') = Inr 2000000000"
    by (simp add: go_eval float_eval duration_parts.simps)
  have "protocol tbl (\<lambda>_. '''') = ''grpc''"
    unfolding protocol_def envOr_def by (simp, subst ToLower_ascii) (simp_all add: go_eval)
  then show "calculator_client tbl (\<lambda>_. '''') hlib glib 2000000000 =
       (case gl_NewClient glib ''localhost:3001'' of
          None \<Rightarrow> Inr (grpcClient glib grpc_local) | Some err \<Rightarrow> Inl (ClientFailed err))"
    by (simp add: calculator_client_def NewGrpcClientWithTimeout_def grpc_local_def envOr_def split: option.splits)
qed

section \<open>Shutdown\<close>

text \<open>
  A signal arrives after some time: \<open>f\<close> bounds how often the context can still be found not to be
  cancelled, and no call to Kafka puts the signal off.
\<close>

definition cancels :: "'k kafka_lib \<Rightarrow> ('k \<Rightarrow> nat) \<Rightarrow> bool" where
  "cancels lib f \<longleftrightarrow>
     (\<forall>k. \<not> fst (kl_Cancelled lib k) \<longrightarrow> f (snd (kl_Cancelled lib k)) < f k)
     \<and> (\<forall>ts k. f (snd (kl_SubscribeTopics lib ts k)) \<le> f k) \<and> (\<forall>d k. f (snd (kl_ReadMessage lib d k)) \<le> f k)
     \<and> (\<forall>m k. f (snd (kl_CommitMessage lib m k)) \<le> f k) \<and> (\<forall>m k. f (snd (kl_Seek lib m k)) \<le> f k)
     \<and> (\<forall>t p k. f (snd (kl_GetWatermarkOffsets lib t p k)) \<le> f k) \<and> (\<forall>k. f (snd (kl_DeadlineExceeded lib k)) \<le> f k)"

lemma cancels_step:
  assumes "cancels lib f"
  shows "f (kc_consumer (updateLag lib m st)) \<le> f (kc_consumer st)"
    "f (kc_consumer (snd (CommitMessage lib m st))) \<le> f (kc_consumer st)"
    "f (kc_consumer (snd (processEvent lib calc agg e st))) \<le> f (kc_consumer st)"
  using assms
  by (auto simp: cancels_def updateLag_def CommitMessage_def processEvent_def Let_def case_prod_beta split: option.split sum.split)

lemma cancels_processMessage:
  assumes "cancels lib f" shows "f (kc_consumer (snd (processMessage lib calc agg m st))) \<le> f (kc_consumer st)"
proof -
  have drop: "f (kc_consumer (snd (discard lib m s))) \<le> f (kc_consumer s)" for s
    using cancels_step(2) [OF assms, of m "s\<lparr>kc_deserializationErrors := kc_deserializationErrors s + 1\<rparr>"]
    by (simp add: discard_def case_prod_beta)
  have event: "f (kc_consumer (snd (case processEvent lib calc agg e st of (Some err, s) \<Rightarrow> (Some err, s)
      | (None, s) \<Rightarrow> let (err, s') = CommitMessage lib m s in (map_option CommitError err, s')))) \<le> f (kc_consumer st)" for e
    using cancels_step(2) [OF assms, of m "snd (processEvent lib calc agg e st)"] cancels_step(3) [OF assms, of calc agg e st]
    by (auto simp: case_prod_beta Let_def split: option.split)
  show ?thesis using drop event by (auto simp: processMessage_def split: option.split)
qed

lemma Start_step_decreases:
  assumes "cancels lib f" "Start_step lib calc agg st = (Continue, st')"
  shows "f (kc_consumer st') < f (kc_consumer st)"
proof -
  obtain b k where c: "kl_Cancelled lib (kc_consumer st) = (b, k)" by (cases "kl_Cancelled lib (kc_consumer st)")
  have "\<not> b" using assms(2) c by (auto simp: Start_step_def)
  then have less: "f k < f (kc_consumer st)" using assms(1) c unfolding cancels_def by (metis fst_conv snd_conv)
  obtain r k1 where r: "kl_ReadMessage lib (kc_pollInterval st) k = (r, k1)" by (cases "kl_ReadMessage lib (kc_pollInterval st) k")
  then have read: "f k1 \<le> f k" using assms(1) unfolding cancels_def by (metis snd_conv)
  show ?thesis
  proof (cases r)
    case (Inl err)
    then show ?thesis using assms(2) c r \<open>\<not> b\<close> less read by (auto simp: Start_step_def count_error_def Let_def split: if_splits)
  next
    case (Inr m)
    let ?st1 = "st\<lparr>kc_consumer := k1, kc_events := kc_events st + 1, kc_calls := kc_calls st @ [Read m]\<rparr>"
    define st2 where "st2 = updateLag lib m ?st1"
    have lag: "f (kc_consumer st2) \<le> f k1" using cancels_step(1) [OF assms(1), of m ?st1] by (simp add: st2_def)
    obtain e st3 where p: "processMessage lib calc agg m st2 = (e, st3)" by (cases "processMessage lib calc agg m st2")
    then have "f (kc_consumer st3) \<le> f k1"
      using cancels_processMessage [OF assms(1), of calc agg m st2] lag by simp
    moreover have "f (snd (kl_Seek lib m (kc_consumer st3))) \<le> f (kc_consumer st3)" using assms(1) by (simp add: cancels_def)
    moreover have "kc_consumer st' \<in> {kc_consumer st3, snd (kl_Seek lib m (kc_consumer st3))}"
      using assms(2) c r Inr p \<open>\<not> b\<close>
      by (auto simp: Start_step_def st2_def count_error_def Let_def split: option.splits prod.splits)
    ultimately show ?thesis using less read by auto
  qed
qed

lemma consumer_created:
  assumes "NewKafkaConsumerWithConfig lib cfg svc ac = Inr st"
  shows "\<exists>cs k ts. kl_NewConsumer lib cs = Inr k \<and> kl_SubscribeTopics lib ts k = (None, kc_consumer st)"
proof -
  obtain cs k where k: "kl_NewConsumer lib cs = Inr k"
    and sub: "(case kl_SubscribeTopics lib [kf_Topic cfg] k of (Some err, c1) \<Rightarrow> None | (None, c1) \<Rightarrow> Some c1) = Some (kc_consumer st)"
    using assms unfolding NewKafkaConsumerWithConfig_def by (force split: sum.splits prod.splits option.splits)
  then show ?thesis by (auto split: prod.splits option.splits)
qed

lemma Start_stops:
  assumes "cancels lib f" "f (kc_consumer st) < n" shows "\<exists>r st'. Start lib calc agg n st = (Some r, st')"
  using assms(2)
proof (induction n arbitrary: st)
  case (Suc n)
  obtain i s where step: "Start_step lib calc agg st = (i, s)" by (cases "Start_step lib calc agg st")
  show ?case
  proof (cases i)
    case Continue
    then have "f (kc_consumer s) < n" using Start_step_decreases [OF assms(1)] step Suc.prems by fastforce
    then show ?thesis using Suc.IH step Continue by simp
  qed (use step in simp)
qed simp

text \<open>
  C20: The calculator stops. If a signal arrives after finitely many turns of the loop, the process ends
  within one more turn than the bound, whatever messages Kafka returns and whatever calls fail, and its
  consumer is closed.
\<close>

theorem calculator_stops:
  assumes "cancels klib f" "\<forall>cs k. kl_NewConsumer klib cs = Inr k \<longrightarrow> f k < n"
    and "calculator_main tbl getenv hlib glib klib msg serve n w = Inr (r, logs, st)"
  shows "\<exists>e. r = Some e \<and> kc_closed st"
proof -
  from assms(3) obtain timeout ac consumer s
    where new: "NewKafkaConsumerWithConfig klib (calculator_config getenv timeout) calc_start w = Inr consumer"
      and run: "Start klib calc_svc ac n consumer = (r, s)" and st: "st = (if r = None then s else calculator_shutdown klib ac s)"
    by (rule calculator_mainE)
  obtain cs k ts where k: "kl_NewConsumer klib cs = Inr k" "kl_SubscribeTopics klib ts k = (None, kc_consumer consumer)"
    using consumer_created [OF new] by blast
  then have "f (kc_consumer consumer) \<le> f k" using assms(1) unfolding cancels_def by (metis snd_conv)
  moreover have "f k < n" using assms(2) k(1) by blast
  ultimately have "f (kc_consumer consumer) < n" by simp
  from Start_stops [OF assms(1) this, of calc_svc ac] run obtain e where "r = Some e" by auto
  then show ?thesis
    using st by (simp add: calculator_shutdown_def KafkaConsumer_Close_def case_prod_beta Let_def)
qed

section \<open>What the log says\<close>

lemma processMessage_errors: "kc_errors (snd (processMessage lib calc agg m st)) = kc_errors st"
  by (auto simp: processMessage_def discard_def CommitMessage_def processEvent_def Let_def case_prod_beta split: option.split sum.split)

lemma Start_step_rewind:
  assumes "Start_step lib calc agg st = (i, st')"
  shows "kc_errors st' ''seek'' = kc_errors st ''seek'' + (if \<exists>e. i = Return (Some e) then 1 else 0)
    \<and> (\<forall>e. i = Return (Some e) \<longrightarrow> (\<exists>m. last (kc_calls st') = Seek m))"
proof -
  have "kc_errors st3 = kc_errors st2" if "processMessage lib calc agg m st2 = (r, st3)" for m st2 r st3
    using processMessage_errors [of lib calc agg m st2] that by simp
  then show ?thesis using assms
    by (auto simp: Start_step_def count_error_def inc_def Let_def updateLag_keeps split: prod.splits if_splits sum.splits option.splits)
qed

lemma Start_rewind:
  assumes "Start lib calc agg n st = (r, st')"
  shows "kc_errors st' ''seek'' = kc_errors st ''seek'' + (if \<exists>e. r = Some (Some e) then 1 else 0)
    \<and> (\<forall>e. r = Some (Some e) \<longrightarrow> (\<exists>m. last (kc_calls st') = Seek m))"
  using assms
proof (induction n arbitrary: st)
  case (Suc n)
  obtain i s where step: "Start_step lib calc agg st = (i, s)" by (cases "Start_step lib calc agg st")
  show ?case
  proof (cases i)
    case Continue
    then show ?thesis using Suc step Start_step_rewind [OF step] by simp
  next
    case (Return q)
    then show ?thesis using Suc.prems step Start_step_rewind [OF step] by auto
  qed
qed simp

lemma consumer_created_errors: "NewKafkaConsumerWithConfig lib cfg svc ac = Inr st \<Longrightarrow> kc_errors st = (\<lambda>_. 0)"
  by (auto simp: NewKafkaConsumerWithConfig_def split: sum.splits prod.splits option.splits)


section \<open>Examples of runs\<close>

text \<open>A Kafka whose process is sent a signal after \<open>n\<close> turns.\<close>

definition signal_after :: "nat \<Rightarrow> 'k kafka_lib \<Rightarrow> ('k \<times> nat) kafka_lib" where
  "signal_after n lib =
     \<lparr>kl_NewConsumer = (\<lambda>cs. map_sum id (\<lambda>k. (k, n)) (kl_NewConsumer lib cs)),
      kl_SubscribeTopics = (\<lambda>ts (k, i). let (e, k') = kl_SubscribeTopics lib ts k in (e, k', i)),
      kl_Close = (\<lambda>(k, i). let (e, k') = kl_Close lib k in (e, k', i)),
      kl_Cancelled = (\<lambda>(k, i). (i = 0, k, i - 1)),
      kl_ReadMessage = (\<lambda>d (k, i). let (r, k') = kl_ReadMessage lib d k in (r, k', i)),
      kl_CommitMessage = (\<lambda>m (k, i). let (e, k') = kl_CommitMessage lib m k in (e, k', i)),
      kl_Seek = (\<lambda>m (k, i). let (e, k') = kl_Seek lib m k in (e, k', i)),
      kl_GetWatermarkOffsets = (\<lambda>t p (k, i). let (r, k') = kl_GetWatermarkOffsets lib t p k in (r, k', i)),
      kl_DeadlineExceeded = (\<lambda>(k, i). let (b, k') = kl_DeadlineExceeded lib k in (b, k', i))\<rparr>"

lemma signal_cancels: "cancels (signal_after n lib) snd"
  by (simp add: cancels_def signal_after_def case_prod_beta Let_def)

definition quiet_http :: "'n http_lib" where
  "quiet_http = \<lparr>hl_NewRequest = (\<lambda>_ _ _. Inl ''''), hl_Do = (\<lambda>_ _ n. (Inl '''', n)), hl_Size = (\<lambda>_. 0),
     hl_CloseIdleConnections = (\<lambda>n. n)\<rparr>"

lemma default_settings: "downstreamTimeout (\<lambda>_. '''') = Inr 2000000000" "protocol tbl (\<lambda>_. '''') = ''grpc''"
proof -
  show "downstreamTimeout (\<lambda>_. '''') = Inr 2000000000" by (simp add: go_eval float_eval duration_parts.simps)
  show "protocol tbl (\<lambda>_. '''') = ''grpc''"
    unfolding protocol_def envOr_def by (simp, subst ToLower_ascii) (simp_all add: go_eval)
qed

theorem calculator_stops_witness:
  "\<exists>e logs st. calculator_main (\<lambda>s. s) (\<lambda>_. '''') quiet_http (deployed_grpc aggregator_svc) (signal_after 5 tiny_kafka) (\<lambda>_. '''') (\<lambda>_. None) 6
     (new_client_state (fresh_net [])) = Inr (Some e, logs, st) \<and> kc_closed st"
proof -
  let ?m = "calculator_main (\<lambda>s. s) (\<lambda>_. '''') quiet_http (deployed_grpc aggregator_svc) (signal_after 5 tiny_kafka) (\<lambda>_. '''') (\<lambda>_. None) 6
    (new_client_state (fresh_net []))"
  obtain r logs st where run: "?m = Inr (r, logs, st)"
    by (cases ?m) (auto simp: calculator_main_def calculator_client_def default_settings NewGrpcClientWithTimeout_def
        deployed_grpc_def NewKafkaConsumerWithConfig_def signal_after_def tiny_kafka_def split: prod.splits option.splits)
  have "\<forall>cs k. kl_NewConsumer (signal_after 5 tiny_kafka) cs = Inr k \<longrightarrow> snd k < 6"
    by (auto simp: signal_after_def tiny_kafka_def)
  from calculator_stops [OF signal_cancels this run] run show ?thesis by blast
qed

text \<open>A broker that is gone once it has delivered a message that cannot be read.\<close>

definition lost_kafka :: "nat kafka_lib" where
  "lost_kafka = tiny_kafka\<lparr>kl_CommitMessage := (\<lambda>_ k. (Some (KafkaError ''down''), k)), kl_Seek := (\<lambda>_ k. (Some (KafkaError ''down''), k))\<rparr>"


end
