(* ===== verification/Load_Config.thy ===== *)
theory Load_Config
  imports Go_Parse
begin

text \<open>
  The settings of the OBU load generator (\<open>obu/main.go\<close>): the configuration with its environment
  variables, its validation, the ramp schedule and the interval of a phase. The environment is a
  function; the assignments of \<open>flag.Parse\<close> are a function on the configuration. The lemmas show which
  configurations pass, that a spelled-out schedule is read back, and that a ticker's interval is never
  below one nanosecond.
\<close>

section \<open>Configuration\<close>

record loadConfig =
  lc_Endpoint :: string
  lc_OBUs :: go_int
  lc_Rate :: float64
  lc_Connections :: go_int
  lc_Duration :: duration
  lc_PayloadBytes :: go_int
  lc_Mode :: string
  lc_Seed :: int64
  lc_Ramp :: string
  lc_MetricsAddr :: string

record loadPhase =
  ph_duration :: duration
  ph_rate :: float64

definition envInt :: "(string \<Rightarrow> string) \<Rightarrow> string \<Rightarrow> go_int \<Rightarrow> go_int" where
  "envInt getenv key fallback = (case Atoi (getenv key) of Some v \<Rightarrow> v | None \<Rightarrow> fallback)"

text \<open>\<open>strconv.ParseInt(s, 10, 64)\<close> accepts the same strings as \<open>Atoi\<close>.\<close>

definition envInt64 :: "(string \<Rightarrow> string) \<Rightarrow> string \<Rightarrow> int64 \<Rightarrow> int64" where
  "envInt64 getenv key fallback = (case Atoi (getenv key) of Some v \<Rightarrow> v | None \<Rightarrow> fallback)"

definition envFloat :: "(string \<Rightarrow> string) \<Rightarrow> string \<Rightarrow> float64 \<Rightarrow> float64" where
  "envFloat getenv key fallback = (case ParseFloat (getenv key) of Some v \<Rightarrow> v | None \<Rightarrow> fallback)"

definition envDuration :: "(string \<Rightarrow> string) \<Rightarrow> string \<Rightarrow> duration \<Rightarrow> duration" where
  "envDuration getenv key fallback = (case ParseDuration (getenv key) of Some v \<Rightarrow> v | None \<Rightarrow> fallback)"

text \<open>\<open>parse\<close> assigns the flags of the command line, \<open>tbl\<close> is the Unicode table of \<open>strings.ToLower\<close>.\<close>

definition parseFlags :: "(string \<Rightarrow> string) \<Rightarrow> (string \<Rightarrow> string) \<Rightarrow> (loadConfig \<Rightarrow> loadConfig) \<Rightarrow> loadConfig" where
  "parseFlags tbl getenv parse =
     (let cfg = parse
        \<lparr>lc_Endpoint = envOr getenv ''RECEIVER_WS_ADDR'' ''ws://127.0.0.1:30000/ws'',
         lc_OBUs = envInt getenv ''OBU_COUNT'' 20,
         lc_Rate = envFloat getenv ''OBU_EVENT_RATE'' (float_of_int 4),
         lc_Connections = envInt getenv ''OBU_CONNECTIONS'' 1,
         lc_Duration = envDuration getenv ''OBU_TEST_DURATION'' 0,
         lc_PayloadBytes = envInt getenv ''OBU_PAYLOAD_BYTES'' 0,
         lc_Mode = envOr getenv ''OBU_LOAD_MODE'' ''fixed'',
         lc_Seed = envInt64 getenv ''OBU_RANDOM_SEED'' 1,
         lc_Ramp = envOr getenv ''OBU_RAMP_SCHEDULE'' '''',
         lc_MetricsAddr = envOr getenv ''OBU_METRICS_ADDR'' '':9100''\<rparr>
      in cfg\<lparr>lc_Mode := ToLower tbl (lc_Mode cfg)\<rparr>)"

datatype config_error =
    NotPositive
  | NegativePayload
  | BadMode string
  | RampInMaxMode
  | RateNotPositive
  | BadRampPhase string
  | BadRampDuration string
  | BadRampRate string

definition validateConfig :: "loadConfig \<Rightarrow> config_error option" where
  "validateConfig cfg =
     (if sint (lc_OBUs cfg) \<le> 0 \<or> sint (lc_Connections cfg) \<le> 0 then Some NotPositive
      else if sint (lc_PayloadBytes cfg) < 0 then Some NegativePayload
      else if lc_Mode cfg \<noteq> ''fixed'' \<and> lc_Mode cfg \<noteq> ''max'' then Some (BadMode (lc_Mode cfg))
      else if lc_Mode cfg = ''max'' \<and> lc_Ramp cfg \<noteq> '''' then Some RampInMaxMode
      else if lc_Mode cfg = ''fixed'' \<and> fle (lc_Rate cfg) fzero \<and> lc_Ramp cfg = '''' then Some RateNotPositive
      else None)"

section \<open>The ramp schedule\<close>

definition ramp_phase :: "string \<Rightarrow> config_error + loadPhase" where
  "ramp_phase raw =
     (case split_on CHR '':'' (TrimSpace raw) of
        [d, r] \<Rightarrow>
          (case ParseDuration d of
             None \<Rightarrow> Inl (BadRampDuration d)
           | Some duration \<Rightarrow>
               if sint duration \<le> 0 then Inl (BadRampDuration d)
               else (case ParseFloat r of
                       None \<Rightarrow> Inl (BadRampRate r)
                     | Some rate \<Rightarrow>
                         if fle rate fzero then Inl (BadRampRate r)
                         else Inr \<lparr>ph_duration = duration, ph_rate = rate\<rparr>))
      | _ \<Rightarrow> Inl (BadRampPhase raw))"

fun ramp_phases :: "string list \<Rightarrow> config_error + loadPhase list" where
  "ramp_phases [] = Inr []"
| "ramp_phases (raw # raws) =
     (case ramp_phase raw of
        Inl err \<Rightarrow> Inl err
      | Inr phase \<Rightarrow> (case ramp_phases raws of Inl err \<Rightarrow> Inl err | Inr phases \<Rightarrow> Inr (phase # phases)))"

definition parseRamp :: "string \<Rightarrow> config_error + loadPhase list" where
  "parseRamp v = (if TrimSpace v = '''' then Inr [] else ramp_phases (split_on CHR '','' v))"

text \<open>
  The interval of a phase's ticker. A conversion of a floating-point number that does not fit
  \<open>int64\<close> is up to the implementation of Go; \<open>conv\<close> is what it gives.
\<close>

definition float_to_int64 :: "(float64 \<Rightarrow> int64) \<Rightarrow> float64 \<Rightarrow> int64" where
  "float_to_int64 conv x =
     (if isFinite x \<and> - (2 ^ 63) \<le> ftrunc x \<and> ftrunc x < 2 ^ 63 then word_of_int (ftrunc x) else conv x)"

definition phase_interval :: "(float64 \<Rightarrow> int64) \<Rightarrow> float64 \<Rightarrow> duration" where
  "phase_interval conv rate =
     (let interval = float_to_int64 conv (fdiv (float_of_int 1000000000) rate)
      in if sint interval < 1 then 1 else interval)"

text \<open>A run without a schedule is one phase with the settings of the configuration.\<close>

definition run_phases :: "loadConfig \<Rightarrow> loadPhase list \<Rightarrow> loadPhase list" where
  "run_phases cfg phases =
     (if phases = [] then [\<lparr>ph_duration = lc_Duration cfg, ph_rate = lc_Rate cfg\<rparr>] else phases)"

lemmas config_eval [go_eval] =
  envInt_def envInt64_def envFloat_def envDuration_def parseFlags_def validateConfig_def ramp_phase_def
  parseRamp_def float_to_int64_def phase_interval_def run_phases_def

section \<open>What is read back\<close>

lemma TrimSpace_digits:
  assumes "s \<noteq> []" "is_digit (hd s)" "is_digit (last s)"
  shows "TrimSpace s = s"
proof -
  have none: "space_prefix sps (c # t) = 0"
    if "is_digit c" "\<forall>sp \<in> set sps. sp \<noteq> [] \<and> \<not> is_digit (hd sp)" for sps c t
  proof -
    have "\<not> (take (length sp) (c # t) = sp)" if "sp \<in> set sps" for sp
      using \<open>is_digit c\<close> \<open>\<forall>sp \<in> set sps. sp \<noteq> [] \<and> \<not> is_digit (hd sp)\<close> that by (cases sp) auto
    then show ?thesis by (simp add: space_prefix_def cong: filter_cong)
  qed
  have keep: "trim_left sps (c # t) = c # t"
    if "is_digit c" "\<forall>sp \<in> set sps. sp \<noteq> [] \<and> \<not> is_digit (hd sp)" for sps c t
    using none [OF that] by (simp add: trim_left.simps)
  obtain c t where s: "s = c # t" using assms(1) by (cases s) auto
  obtain d u where r: "rev s = d # u" using assms(1) by (cases "rev s") auto
  have "d = last s" using r assms(1) by (metis list.sel(1) hd_rev)
  then have "is_digit c" "is_digit d" using assms s by auto
  moreover have "\<forall>sp \<in> set spaces. sp \<noteq> [] \<and> \<not> is_digit (hd sp)"
    "\<forall>sp \<in> set (map rev spaces). sp \<noteq> [] \<and> \<not> is_digit (hd sp)"
    by (simp_all add: spaces_def is_digit_def)
  ultimately have "trim_left spaces s = s" "trim_left (map rev spaces) (rev s) = rev s"
    using keep [of c spaces t] keep [of d "map rev spaces" u] by (simp_all only: s [symmetric] r [symmetric])
  then show ?thesis by (simp add: TrimSpace_def)
qed

lemma show_nat_Cons: "\<exists>c t. show_nat n = c # t \<and> is_digit c \<and> list_all is_digit t"
  using show_nat_digits [of n] by (cases "show_nat n") auto

lemma drop_sign_digit: "is_digit c \<Longrightarrow> drop_sign (c # s) = (False, c # s)"
  by (auto simp: drop_sign_def is_digit_def)

lemma takeWhile_digits:
  "list_all is_digit ds \<Longrightarrow> \<not> is_digit c \<Longrightarrow>
    takeWhile is_digit (ds @ c # s) = ds \<and> dropWhile is_digit (ds @ c # s) = c # s"
  by (induction ds) auto

lemma ParseDuration_ns: assumes "0 < n" "n < 2 ^ 63" shows "ParseDuration (show_nat n @ ''ns'') = Some (word_of_int (int n))"
proof -
  obtain c t where c: "show_nat n = c # t" "is_digit c" "list_all is_digit t" using show_nat_Cons by blast
  then have digits: "list_all is_digit (show_nat n)" by simp
  have letters: "\<not> is_digit CHR ''n''" "\<not> is_digit CHR ''s''" by (simp_all add: is_digit_def)
  have "duration_part (show_nat n @ ''ns'') = Some (n, [])"
    using takeWhile_digits [OF digits, of "CHR ''n''" "''s''"] letters assms show_nat_digits [of n]
    by (simp add: duration_part_def read_show_nat unit_map_def)
  then have "duration_parts 0 (show_nat n @ ''ns'') = Some n"
    using assms by (subst duration_parts.simps) (simp add: duration_parts.simps [of n "[]"])
  moreover have "drop_sign (show_nat n @ ''ns'') = (False, show_nat n @ ''ns'')"
    using drop_sign_digit [OF c(2)] c(1) by simp
  ultimately show ?thesis using assms(2) c by (auto simp: ParseDuration_def)
qed

lemma scan_digits: "list_all is_digit ds \<Longrightarrow> scan_mantissa is_digit False ds = (ds, 0, [])"
  by (induction ds) (auto simp: is_digit_def)

lemma ParseFloat_int: assumes "r < 2 ^ 64" shows "ParseFloat (show_nat r) = Some (float_of_int (int r))"
proof -
  obtain c t where c: "show_nat r = c # t" "is_digit c" "list_all is_digit t" using show_nat_Cons by blast
  have no: "\<not> is_digit x" if "lower x \<in> set ''infatyx_''" for x
    using that by (auto simp: lower_def byte_in_def is_digit_def split: if_splits)
  have lower: "lower x = x" if "is_digit x" for x using that by (auto simp: lower_def byte_in_def is_digit_def)
  have sign: "drop_sign (show_nat r) = (False, show_nat r)" using drop_sign_digit [OF c(2)] c(1) by simp
  have "lower c \<noteq> CHR ''i'' \<and> lower c \<noteq> CHR ''n''" using c(2) no [of c] by auto
  then have special: "float_special (show_nat r) = None"
    unfolding float_special_def sign using c(1) by auto
  have hex: "(2 < length (show_nat r) \<and> show_nat r ! 0 = CHR ''0'' \<and> lower (show_nat r ! 1) = CHR ''x'') = False"
  proof (simp only: eq_False, rule notI)
    assume a: "2 < length (show_nat r) \<and> show_nat r ! 0 = CHR ''0'' \<and> lower (show_nat r ! 1) = CHR ''x''"
    then have "is_digit (show_nat r ! 1)" using show_nat_digits [of r] by (auto simp: list_all_length)
    with a no [of "show_nat r ! 1"] show False by auto
  qed
  have "CHR ''_'' \<notin> set (show_nat r)"
    using show_nat_digits [of r] no [of "CHR ''_''"] by (auto simp: list_all_iff lower_def byte_in_def)
  moreover have "foldl (\<lambda>n c. 10 * n + hex_val c) 0 ds = foldl (\<lambda>n c. 10 * n + digit_val c) 0 ds"
    if "list_all is_digit ds" for ds
    using that by (intro foldl_cong) (auto simp: hex_val_def list_all_iff)
  then have "foldl (\<lambda>n c. 10 * n + hex_val c) 0 (show_nat r) = r"
    using show_nat_digits [of r] read_show_nat [of r] by (simp add: read_nat_def)
  moreover have "round_dec r 0 = round_mag r 0" by (simp add: round_dec_def)
  moreover have "round_mag r 0 \<noteq> inf_mag"
    using isFinite_float_of_int [of "int r"] assms by (simp add: float_of_int_def isFinite_def)
  ultimately show ?thesis
    using scan_digits [of "show_nat r"] show_nat_digits [of r]
    unfolding ParseFloat_def special sign Let_def prod.case option.case hex by (simp add: float_of_int_def)
qed

section \<open>Properties of the settings\<close>

text \<open>A phase as a user writes it, in nanoseconds and whole events per second.\<close>

definition spell_phase :: "nat \<times> nat \<Rightarrow> string" where
  "spell_phase p = show_nat (fst p) @ ''ns:'' @ show_nat (snd p)"

lemma digits_no: "list_all is_digit ds \<Longrightarrow> \<not> is_digit c \<Longrightarrow> c \<notin> set ds"
  by (auto simp: list_all_iff)

lemma spell_phase_digits: "spell_phase p \<noteq> []" "is_digit (hd (spell_phase p))" "is_digit (last (spell_phase p))"
proof -
  have "is_digit (last (show_nat (snd p)))" "show_nat (snd p) \<noteq> []"
    using show_nat_digits [of "snd p"] by (auto simp: list_all_iff)
  then show "is_digit (last (spell_phase p))" by (simp add: spell_phase_def)
  show "spell_phase p \<noteq> []" "is_digit (hd (spell_phase p))"
    using show_nat_Cons [of "fst p"] by (auto simp: spell_phase_def)
qed

lemma ramp_phase_spelled:
  assumes "0 < n" "n < 2 ^ 63" "0 < r" "r < 2 ^ 64"
  shows "ramp_phase (spell_phase (n, r)) =
    Inr \<lparr>ph_duration = word_of_int (int n), ph_rate = float_of_int (int r)\<rparr>"
proof -
  have letters: "\<not> is_digit CHR '':''" "\<not> is_digit CHR '',''" by (simp_all add: is_digit_def)
  have "CHR '':'' \<notin> set (show_nat n @ ''ns'')" "CHR '':'' \<notin> set (show_nat r)"
    using digits_no [of "show_nat n" "CHR '':''"] digits_no [of "show_nat r" "CHR '':''"]
      show_nat_digits [of n] show_nat_digits [of r] letters by auto
  then have split: "split_on CHR '':'' (spell_phase (n, r)) = [show_nat n @ ''ns'', show_nat r]"
    using split_on_append(1) [of "CHR '':''" "show_nat n @ ''ns''" "show_nat r"]
      split_on_append(2) [of "CHR '':''" "show_nat r"] by (simp add: spell_phase_def)
  have "sint (word_of_int (int n) :: int64) = int n"
    using assms by (simp add: signed_of_nat signed_take_bit_int_eq_self)
  moreover have "\<not> fle (float_of_int (int r)) fzero"
  proof -
    have "mval 0x3FF0000000000000 = 1" by (simp add: mval_def sig_of_def exp_of_def power_int_def power_divide)
    then have "0x3FF0000000000000 \<le> round_mag r 0" using assms by (intro round_mag_lower) (simp_all add: inf_mag_def)
    moreover have "fkey fzero = 0" by (simp add: fkey_def neg_def mag_def fzero_def)
    ultimately show ?thesis using neg_mkf mag_mkf by (simp add: fle_def fkey_def float_of_int_def)
  qed
  ultimately show ?thesis
    using assms TrimSpace_digits [OF spell_phase_digits, of "(n, r)"]
    by (simp add: ramp_phase_def split ParseDuration_ns ParseFloat_int)
qed

text \<open>
  C34: A schedule that is spelled out phase by phase, with durations in nanoseconds and whole rates, is
  read back as it was written.
\<close>

theorem parseRamp_roundtrip:
  assumes "ps \<noteq> []" "\<forall>(n, r) \<in> set ps. 0 < n \<and> n < 2 ^ 63 \<and> 0 < r \<and> r < 2 ^ 64"
  shows "parseRamp (join CHR '','' (map spell_phase ps)) =
    Inr (map (\<lambda>(n, r). \<lparr>ph_duration = word_of_int (int n), ph_rate = float_of_int (int r)\<rparr>) ps)"
proof -
  let ?v = "join CHR '','' (map spell_phase ps)"
  have "CHR '','' \<notin> set (spell_phase p)" for p
    using digits_no [of _ "CHR '',''"] show_nat_digits by (auto simp: spell_phase_def is_digit_def)
  then have split: "split_on CHR '','' ?v = map spell_phase ps"
    using assms(1) by (intro split_on_join) auto
  have ends: "is_digit (hd (join c (map spell_phase ps))) \<and> is_digit (last (join c (map spell_phase ps)))
      \<and> join c (map spell_phase ps) \<noteq> []" if "ps \<noteq> []" for ps c
    using that
  proof (induction ps rule: induct_list012)
    case (3 p q ps)
    then show ?case using spell_phase_digits [of p] by simp
  qed (use spell_phase_digits in auto)
  have "ramp_phases (map spell_phase qs) =
      Inr (map (\<lambda>(n, r). \<lparr>ph_duration = word_of_int (int n), ph_rate = float_of_int (int r)\<rparr>) qs)"
    if "\<forall>(n, r) \<in> set qs. 0 < n \<and> n < 2 ^ 63 \<and> 0 < r \<and> r < 2 ^ 64" for qs
    using that by (induction qs) (auto simp: ramp_phase_spelled)
  then show ?thesis
    using split ends [OF assms(1), of "CHR '',''"] TrimSpace_digits [of ?v] assms(2) by (simp add: parseRamp_def)
qed

theorem parseRamp_roundtrip_witness:
  "parseRamp ''30000000000ns:100,60000000000ns:500'' =
     Inr [\<lparr>ph_duration = 30000000000, ph_rate = float_of_int 100\<rparr>,
          \<lparr>ph_duration = 60000000000, ph_rate = float_of_int 500\<rparr>]"
  using parseRamp_roundtrip [of "[(30000000000, 100), (60000000000, 500)]"]
  by (simp add: spell_phase_def go_eval)

text \<open>
  In a schedule that is accepted every phase has a positive duration and a rate that is positive or
  NaN, and the interval of its ticker is at least one nanosecond whatever an out-of-range conversion
  gives, so \<open>time.NewTicker\<close> does not panic.
\<close>

theorem parseRamp_sound:
  assumes "parseRamp v = Inr ps" "p \<in> set ps"
  shows "0 < sint (ph_duration p) \<and> (flt fzero (ph_rate p) \<or> isNaN (ph_rate p))
    \<and> 1 \<le> sint (phase_interval conv (ph_rate p))"
proof -
  have "0 < sint (ph_duration q) \<and> \<not> fle (ph_rate q) fzero" if "ramp_phase raw = Inr q" for raw q
    using that by (auto simp: ramp_phase_def split: list.splits option.splits if_splits)
  then have "\<forall>q \<in> set qs. 0 < sint (ph_duration q) \<and> \<not> fle (ph_rate q) fzero" if "ramp_phases raws = Inr qs" for raws qs
    using that by (induction raws arbitrary: qs) (auto split: sum.splits)
  then have "0 < sint (ph_duration p) \<and> \<not> fle (ph_rate p) fzero"
    using assms by (auto simp: parseRamp_def split: if_splits)
  moreover have "\<not> isNaN fzero" by (simp add: isNaN_def mag_def fzero_def)
  ultimately show ?thesis by (auto simp: fle_def flt_def phase_interval_def Let_def)
qed

theorem parseRamp_sound_witness:
  "parseRamp ''30s:100, 1m:5e2'' =
      Inr [\<lparr>ph_duration = 30000000000, ph_rate = float_of_int 100\<rparr>,
           \<lparr>ph_duration = 60000000000, ph_rate = float_of_int 500\<rparr>]
   \<and> 1 \<le> sint (phase_interval (\<lambda>_. 0) (float_of_int 500))"
proof
  show *: "parseRamp ''30s:100, 1m:5e2'' =
      Inr [\<lparr>ph_duration = 30000000000, ph_rate = float_of_int 100\<rparr>,
           \<lparr>ph_duration = 60000000000, ph_rate = float_of_int 500\<rparr>]"
    by (simp add: go_eval float_eval trim_left.simps duration_parts.simps)
  show "1 \<le> sint (phase_interval (\<lambda>_. 0) (float_of_int 500))"
    using parseRamp_sound [OF *, of "\<lparr>ph_duration = 60000000000, ph_rate = float_of_int 500\<rparr>" "\<lambda>_. 0"] by simp
qed

text \<open>
  A rate that is not a number passes every check, both in the schedule and as the fixed rate; the
  interval it gives is whatever the platform converts NaN to, at least one nanosecond.
\<close>

theorem nan_rate_accepted:
  "parseRamp ''30s:nan'' = Inr [\<lparr>ph_duration = 30000000000, ph_rate = NaN\<rparr>]
   \<and> validateConfig (parseFlags tbl (\<lambda>k. if k = ''OBU_EVENT_RATE'' then ''NaN'' else '''') (\<lambda>cfg. cfg)) = None
   \<and> phase_interval conv NaN = (if sint (conv NaN) < 1 then 1 else conv NaN)"
proof (intro conjI)
  show "parseRamp ''30s:nan'' = Inr [\<lparr>ph_duration = 30000000000, ph_rate = NaN\<rparr>]"
    by (simp add: go_eval float_eval trim_left.simps duration_parts.simps)
  have "ToLower tbl ''fixed'' = ''fixed''" by (subst ToLower_ascii) (simp_all add: go_eval)
  then show "validateConfig (parseFlags tbl (\<lambda>k. if k = ''OBU_EVENT_RATE'' then ''NaN'' else '''') (\<lambda>cfg. cfg)) = None"
    by (simp add: go_eval float_eval)
  have "fdiv (float_of_int 1000000000) NaN = NaN" by (simp add: fdiv_def Let_def)
  moreover have "\<not> isFinite NaN" using isFinite_not isNaN_NaN by blast
  ultimately show "phase_interval conv NaN = (if sint (conv NaN) < 1 then 1 else conv NaN)"
    by (simp add: phase_interval_def float_to_int64_def)
qed

end
