(* ===== verification/Load_Generator.thy ===== *)
theory Load_Generator
  imports Load_Config Ledger "HOL-Library.Sublist"
begin

text \<open>
  The OBU load generator (\<open>obu/main.go\<close>) as a system of goroutines over shared memory. The dispatcher of
  fixed mode, a writer per connection and the workers of maximum throughput each have a program
  counter; one action is one atomic operation of one goroutine (an atomic counter, a channel operation,
  a write to a connection), or the cancellation of the context. The clock, the random numbers, the
  select that is taken and the outcome of a write are chosen from outside. The lemmas are invariants of
  every interleaving: the counters and the hash summary account for every event, identifiers are
  unique, and the events of an OBU stay in order on one connection.
\<close>

section \<open>Connections\<close>

record ('c, 'w) dialer =
  dl_Dial :: "string \<Rightarrow> 'w \<Rightarrow> (string + 'c) \<times> 'w"
  dl_WriteClose :: "'c \<Rightarrow> 'w \<Rightarrow> 'w"
  dl_Close :: "'c \<Rightarrow> 'w \<Rightarrow> 'w"

text \<open>The world of the connections with the gauge of the active ones.\<close>

record 'w dialled =
  oc_world :: 'w
  oc_activeConnections :: int

definition closeConnection :: "('c, 'w) dialer \<Rightarrow> 'w dialled \<Rightarrow> 'c option \<Rightarrow> 'w dialled" where
  "closeConnection lib st conn =
     (case conn of
        None \<Rightarrow> st
      | Some c \<Rightarrow> st\<lparr>oc_world := dl_Close lib c (dl_WriteClose lib c (oc_world st)),
          oc_activeConnections := oc_activeConnections st - 1\<rparr>)"

definition closeConnections :: "('c, 'w) dialer \<Rightarrow> 'c option list \<Rightarrow> 'w dialled \<Rightarrow> 'w dialled" where
  "closeConnections lib conns st = foldl (closeConnection lib) st conns"

text \<open>The loop from connection \<open>i\<close> on, with \<open>k\<close> connections to go.\<close>

fun dial_from :: "('c, 'w) dialer \<Rightarrow> string \<Rightarrow> nat \<Rightarrow> nat \<Rightarrow> 'c option list \<Rightarrow> 'w dialled \<Rightarrow>
    (string + 'c option list) \<times> 'w dialled" where
  "dial_from lib endpoint i 0 conns st = (Inr conns, st)"
| "dial_from lib endpoint i (Suc k) conns st =
     (case dl_Dial lib endpoint (oc_world st) of
        (Inl err, w) \<Rightarrow>
          (Inl (''connect WebSocket '' @ show_nat i @ '': '' @ err), closeConnections lib conns (st\<lparr>oc_world := w\<rparr>))
      | (Inr c, w) \<Rightarrow>
          dial_from lib endpoint (i + 1) k (conns @ [Some c])
            (st\<lparr>oc_world := w, oc_activeConnections := oc_activeConnections st + 1\<rparr>))"

definition dialConnections :: "('c, 'w) dialer \<Rightarrow> loadConfig \<Rightarrow> 'w dialled \<Rightarrow>
    (string + 'c option list) \<times> 'w dialled" where
  "dialConnections lib cfg st = dial_from lib (lc_Endpoint cfg) 0 (nat (sint (lc_Connections cfg))) [] st"

section \<open>Shared state\<close>

record loadStats =
  ls_attempted :: uint64
  ls_written :: uint64
  ls_failed :: uint64
  ls_sequence :: uint64
  ls_hashXOR :: uint64
  ls_hashSum :: uint64
  ls_runID :: int64

text \<open>
  Where a goroutine stands in \<open>recordSuccess\<close>, from \<open>AddWritten\<close> to \<open>IncWritten\<close>, or in \<open>recordFailure\<close>.
  \<open>SwapXOR f old\<close> is about to compare the hash with \<open>old\<close>, the value that was loaded.
\<close>

datatype record_pc =
    AddWritten string
  | AddSum uint64
  | LoadXOR uint64
  | SwapXOR uint64 uint64
  | IncWritten
  | AddFailed
  | IncFailures

text \<open>
  The dispatcher of fixed mode: between phases, at the select of a phase, after a tick, after the load
  of the sequence number, with an event in hand, recording a drop, and closing the channels. In
  maximum throughput the main goroutine only waits.
\<close>

datatype main_pc =
    StartPhases "loadPhase list"
  | InPhase loadPhase "loadPhase list"
  | Ticked loadPhase "loadPhase list"
  | Chosen go_int loadPhase "loadPhase list"
  | Attempt OBUData loadPhase "loadPhase list"
  | CountAttempt OBUData loadPhase "loadPhase list"
  | Sending OBUData loadPhase "loadPhase list"
  | Dropping record_pc loadPhase "loadPhase list"
  | EndPhase "loadPhase list"
  | Closing nat
  | Waiting
  | Returned

text \<open>
  The goroutine of a connection: a writer of fixed mode at its select, or a worker of maximum
  throughput at the head of its loop with the index of its next OBU. The last argument of \<open>Writing\<close>
  and \<open>Succeeding\<close> says which of the two goes on.
\<close>

datatype worker_pc =
    Receiving
  | Checking nat
  | Producing nat
  | Created OBUData nat
  | CountCreated OBUData nat
  | Writing OBUData "nat option"
  | Succeeding record_pc "nat option"
  | Failing record_pc
  | Finished

text \<open>
  \<open>ld_sent\<close> holds the events that were written to each connection, \<open>ld_created\<close> is the history of all
  events in the order of their sequence numbers.
\<close>

record load_state =
  ld_stats :: loadStats
  ld_eventsAttempted :: nat
  ld_eventsWritten :: nat
  ld_writeFailures :: nat
  ld_offeredRate :: float64
  ld_cancelled :: bool
  ld_jobs :: "OBUData list list"
  ld_closed :: "bool list"
  ld_sent :: "OBUData list list"
  ld_created :: "OBUData list"
  ld_main :: main_pc
  ld_workers :: "worker_pc list"

section \<open>Events\<close>

text \<open>\<open>now\<close> is the reading of the clock, \<open>r\<close> and \<open>q\<close> are two results of \<open>rng.Float64\<close>.\<close>

definition eventForOBU :: "loadConfig \<Rightarrow> int64 \<Rightarrow> float64 \<Rightarrow> float64 \<Rightarrow> string \<Rightarrow> go_int \<Rightarrow> loadStats \<Rightarrow>
    OBUData \<times> loadStats" where
  "eventForOBU cfg now r q payload obuID stats =
     (let sequence = ls_sequence stats + 1
      in (\<lparr>od_EventID = Itoa (lc_Seed cfg) @ ''-'' @ Itoa (ls_runID stats) @ ''-'' @ show_nat (unat sequence),
           od_ProducedAtUnixNano = now, od_OBUID = obuID,
           od_Lat = fmul r (float_of_int 100), od_Lon = fmul q (float_of_int 100), od_Payload = payload\<rparr>,
          stats\<lparr>ls_sequence := sequence\<rparr>))"

text \<open>The OBU that \<open>nextEvent\<close> chooses.\<close>

definition nextOBU :: "loadConfig \<Rightarrow> loadStats \<Rightarrow> go_int" where
  "nextOBU cfg stats = (let sequence = ls_sequence stats + 1 in (sequence - 1) mod lc_OBUs cfg + 1)"

definition padding :: "loadConfig \<Rightarrow> string" where
  "padding cfg = replicate (nat (sint (lc_PayloadBytes cfg))) CHR ''x''"

text \<open>The index of a connection, with Go's signed remainder.\<close>

definition connectionIndex :: "nat \<Rightarrow> OBUData \<Rightarrow> nat" where
  "connectionIndex n data = nat (sint (od_OBUID data - 1) smod int n)"

text \<open>The documented range of \<open>rng.Float64\<close>.\<close>

definition unit_draw :: "float64 \<Rightarrow> bool" where
  "unit_draw r \<longleftrightarrow> fle fzero r \<and> flt r (float_of_int 1)"

text \<open>
  The OBUs of a worker: from \<open>i + 1\<close> in steps of \<open>n\<close> up to the last one. The sum of both is far below the
  range of an \<open>int\<close>.
\<close>

function assigned_from :: "nat \<Rightarrow> nat \<Rightarrow> nat \<Rightarrow> go_int list" where
  "assigned_from obus n obuID =
     (if n = 0 \<or> obus < obuID then [] else of_nat obuID # assigned_from obus n (obuID + n))"
  by auto
termination by (relation "measure (\<lambda>(obus, n, obuID). obus + 1 - obuID)") auto

declare assigned_from.simps [simp del]

definition assignedOBUs :: "loadConfig \<Rightarrow> nat \<Rightarrow> nat \<Rightarrow> go_int list" where
  "assignedOBUs cfg n i = assigned_from (nat (sint (lc_OBUs cfg))) n (i + 1)"

section \<open>Atomic steps\<close>

text \<open>What the environment decides: the branch of a select, the inputs of an event, the outcome of a write.\<close>

datatype choice = Proceed | Tick | CtxDone | Draw int64 float64 float64 | WriteOK | WriteError

fun record_step :: "record_pc \<Rightarrow> load_state \<Rightarrow> record_pc option \<times> load_state" where
  "record_step (AddWritten eventID) st =
     (Some (AddSum (EventIDFingerprint eventID)),
      st\<lparr>ld_stats := (ld_stats st)\<lparr>ls_written := ls_written (ld_stats st) + 1\<rparr>\<rparr>)"
| "record_step (AddSum f) st =
     (Some (LoadXOR f), st\<lparr>ld_stats := (ld_stats st)\<lparr>ls_hashSum := ls_hashSum (ld_stats st) + f\<rparr>\<rparr>)"
| "record_step (LoadXOR f) st = (Some (SwapXOR f (ls_hashXOR (ld_stats st))), st)"
| "record_step (SwapXOR f old) st =
     (if ls_hashXOR (ld_stats st) = old
      then (Some IncWritten, st\<lparr>ld_stats := (ld_stats st)\<lparr>ls_hashXOR := old XOR f\<rparr>\<rparr>)
      else (Some (LoadXOR f), st))"
| "record_step IncWritten st = (None, st\<lparr>ld_eventsWritten := ld_eventsWritten st + 1\<rparr>)"
| "record_step AddFailed st =
     (Some IncFailures, st\<lparr>ld_stats := (ld_stats st)\<lparr>ls_failed := ls_failed (ld_stats st) + 1\<rparr>\<rparr>)"
| "record_step IncFailures st = (None, st\<lparr>ld_writeFailures := ld_writeFailures st + 1\<rparr>)"

definition count_attempt :: "load_state \<Rightarrow> load_state" where
  "count_attempt st = st\<lparr>ld_stats := (ld_stats st)\<lparr>ls_attempted := ls_attempted (ld_stats st) + 1\<rparr>\<rparr>"

definition new_event :: "loadConfig \<Rightarrow> choice \<Rightarrow> go_int \<Rightarrow> load_state \<Rightarrow> (OBUData \<times> load_state) option" where
  "new_event cfg c obuID st =
     (case c of
        Draw now r q \<Rightarrow>
          if unit_draw r \<and> unit_draw q
          then let (data, stats) = eventForOBU cfg now r q (padding cfg) obuID (ld_stats st)
               in Some (data, st\<lparr>ld_stats := stats, ld_created := ld_created st @ [data]\<rparr>)
          else None
      | _ \<Rightarrow> None)"

fun main_step :: "loadConfig \<Rightarrow> choice \<Rightarrow> main_pc \<Rightarrow> load_state \<Rightarrow> (main_pc \<times> load_state) option" where
  "main_step cfg c (StartPhases []) st = Some (Closing 0, st)"
| "main_step cfg c (StartPhases (p # ps)) st = Some (InPhase p ps, st\<lparr>ld_offeredRate := ph_rate p\<rparr>)"
| "main_step cfg c (InPhase p ps) st =
     (case c of
        CtxDone \<Rightarrow> if ld_cancelled st \<or> 0 < sint (ph_duration p) then Some (EndPhase ps, st) else None
      | Tick \<Rightarrow> Some (Ticked p ps, st)
      | _ \<Rightarrow> None)"
| "main_step cfg c (Ticked p ps) st = Some (Chosen (nextOBU cfg (ld_stats st)) p ps, st)"
| "main_step cfg c (Chosen obuID p ps) st =
     map_option (\<lambda>(data, st'). (Attempt data p ps, st')) (new_event cfg c obuID st)"
| "main_step cfg c (Attempt data p ps) st = Some (CountAttempt data p ps, count_attempt st)"
| "main_step cfg c (CountAttempt data p ps) st =
     Some (Sending data p ps, st\<lparr>ld_eventsAttempted := ld_eventsAttempted st + 1\<rparr>)"
| "main_step cfg c (Sending data p ps) st =
     (let i = connectionIndex (length (ld_jobs st)) data
      in if length (ld_jobs st ! i) < 1024
         then Some (InPhase p ps, st\<lparr>ld_jobs := (ld_jobs st)[i := ld_jobs st ! i @ [data]]\<rparr>)
         else Some (Dropping AddFailed p ps, st))"
| "main_step cfg c (Dropping r p ps) st =
     (case record_step r st of
        (Some r', st') \<Rightarrow> Some (Dropping r' p ps, st')
      | (None, st') \<Rightarrow> Some (InPhase p ps, st'))"
| "main_step cfg c (EndPhase ps) st = Some (if ld_cancelled st then Closing 0 else StartPhases ps, st)"
| "main_step cfg c (Closing k) st =
     (if k < length (ld_jobs st) then Some (Closing (k + 1), st\<lparr>ld_closed := (ld_closed st)[k := True]\<rparr>)
      else Some (Waiting, st))"
| "main_step cfg c Waiting st =
     (if list_all (\<lambda>w. w = Finished) (ld_workers st) then Some (Returned, st) else None)"
| "main_step cfg c Returned st = None"

fun worker_step :: "loadConfig \<Rightarrow> choice \<Rightarrow> nat \<Rightarrow> worker_pc \<Rightarrow> load_state \<Rightarrow> (worker_pc \<times> load_state) option" where
  "worker_step cfg c i Receiving st =
     (case c of
        CtxDone \<Rightarrow> if ld_cancelled st then Some (Finished, st) else None
      | Proceed \<Rightarrow>
          (case ld_jobs st ! i of
             data # rest \<Rightarrow> Some (Writing data None, st\<lparr>ld_jobs := (ld_jobs st)[i := rest]\<rparr>)
           | [] \<Rightarrow> if ld_closed st ! i then Some (Finished, st) else None)
      | _ \<Rightarrow> None)"
| "worker_step cfg c i (Checking k) st = Some (if ld_cancelled st then Finished else Producing k, st)"
| "worker_step cfg c i (Producing k) st =
     (let obuIDs = assignedOBUs cfg (length (ld_workers st)) i
      in map_option (\<lambda>(data, st'). (Created data ((k + 1) mod length obuIDs), st'))
           (new_event cfg c (obuIDs ! k) st))"
| "worker_step cfg c i (Created data k) st = Some (CountCreated data k, count_attempt st)"
| "worker_step cfg c i (CountCreated data k) st =
     Some (Writing data (Some k), st\<lparr>ld_eventsAttempted := ld_eventsAttempted st + 1\<rparr>)"
| "worker_step cfg c i (Writing data resume) st =
     (case c of
        WriteOK \<Rightarrow>
          if encode_OBUData data = None then None
          else Some (Succeeding (AddWritten (od_EventID data)) resume,
                 st\<lparr>ld_sent := (ld_sent st)[i := ld_sent st ! i @ [data]]\<rparr>)
      | WriteError \<Rightarrow> Some (Failing AddFailed, st)
      | _ \<Rightarrow> None)"
| "worker_step cfg c i (Succeeding r resume) st =
     (case record_step r st of
        (Some r', st') \<Rightarrow> Some (Succeeding r' resume, st')
      | (None, st') \<Rightarrow> Some (case resume of None \<Rightarrow> Receiving | Some k \<Rightarrow> Checking k, st'))"
| "worker_step cfg c i (Failing r) st =
     (case record_step r st of
        (Some r', st') \<Rightarrow> Some (Failing r', st')
      | (None, st') \<Rightarrow> Some (Finished, st'))"
| "worker_step cfg c i Finished st = None"

datatype action = Cancel | Main choice | Work nat choice

fun load_act :: "loadConfig \<Rightarrow> action \<Rightarrow> load_state \<Rightarrow> load_state option" where
  "load_act cfg Cancel st = Some (st\<lparr>ld_cancelled := True\<rparr>)"
| "load_act cfg (Main c) st =
     map_option (\<lambda>(pc, st'). st'\<lparr>ld_main := pc\<rparr>) (main_step cfg c (ld_main st) st)"
| "load_act cfg (Work i c) st =
     (if i < length (ld_workers st)
      then map_option (\<lambda>(pc, st'). st'\<lparr>ld_workers := (ld_workers st')[i := pc]\<rparr>)
             (worker_step cfg c i (ld_workers st ! i) st)
      else None)"

section \<open>Runs\<close>

definition new_stats :: "int64 \<Rightarrow> loadStats" where
  "new_stats runID = \<lparr>ls_attempted = 0, ls_written = 0, ls_failed = 0, ls_sequence = 0, ls_hashXOR = 0,
     ls_hashSum = 0, ls_runID = runID\<rparr>"

definition runFixedRate :: "loadConfig \<Rightarrow> loadPhase list \<Rightarrow> nat \<Rightarrow> loadStats \<Rightarrow> load_state" where
  "runFixedRate cfg phases n stats =
     \<lparr>ld_stats = stats, ld_eventsAttempted = 0, ld_eventsWritten = 0, ld_writeFailures = 0,
      ld_offeredRate = fzero, ld_cancelled = False, ld_jobs = replicate n [], ld_closed = replicate n False,
      ld_sent = replicate n [], ld_created = [], ld_main = StartPhases (run_phases cfg phases),
      ld_workers = replicate n Receiving\<rparr>"

definition runMaximumThroughput :: "loadConfig \<Rightarrow> nat \<Rightarrow> loadStats \<Rightarrow> load_state" where
  "runMaximumThroughput cfg n stats =
     \<lparr>ld_stats = stats, ld_eventsAttempted = 0, ld_eventsWritten = 0, ld_writeFailures = 0,
      ld_offeredRate = float_of_int (- 1), ld_cancelled = False, ld_jobs = replicate n [],
      ld_closed = replicate n False, ld_sent = replicate n [], ld_created = [], ld_main = Waiting,
      ld_workers = map (\<lambda>i. if assignedOBUs cfg n i = [] then Finished else Checking 0) [0..<n]\<rparr>"

definition load_start :: "loadConfig \<Rightarrow> loadPhase list \<Rightarrow> nat \<Rightarrow> int64 \<Rightarrow> load_state" where
  "load_start cfg phases n runID =
     (if lc_Mode cfg = ''max'' then runMaximumThroughput cfg n (new_stats runID)
      else runFixedRate cfg phases n (new_stats runID))"

fun load_run :: "loadConfig \<Rightarrow> action list \<Rightarrow> load_state \<Rightarrow> load_state option" where
  "load_run cfg [] st = Some st"
| "load_run cfg (a # as) st = Option.bind (load_act cfg a st) (load_run cfg as)"

text \<open>What is reachable, under any interleaving and any environment.\<close>

inductive load_reach :: "loadConfig \<Rightarrow> load_state \<Rightarrow> load_state \<Rightarrow> bool" for cfg st where
  reach_refl: "load_reach cfg st st"
| reach_step: "load_reach cfg st st' \<Longrightarrow> load_act cfg a st' = Some st'' \<Longrightarrow> load_reach cfg st st''"

lemma load_run_reach: "load_run cfg as st' = Some st'' \<Longrightarrow> load_reach cfg st st' \<Longrightarrow> load_reach cfg st st''"
  by (induction as arbitrary: st') (auto split: bind_splits intro: reach_step)

section \<open>The summary of a run\<close>

record load_summary =
  su_Mode :: string
  su_OBUs :: go_int
  su_Connections :: go_int
  su_ConfiguredRate :: float64
  su_ElapsedSeconds :: float64
  su_EventsAttempted :: uint64
  su_EventsWritten :: uint64
  su_WriteFailures :: uint64
  su_AchievedWriteRate :: float64
  su_EventIDHashXOR :: uint64
  su_EventIDHashSum :: uint64

definition printSummary :: "loadConfig \<Rightarrow> loadStats \<Rightarrow> duration \<Rightarrow> load_summary" where
  "printSummary cfg stats elapsed =
     \<lparr>su_Mode = lc_Mode cfg, su_OBUs = lc_OBUs cfg, su_Connections = lc_Connections cfg,
      su_ConfiguredRate = lc_Rate cfg, su_ElapsedSeconds = Seconds elapsed,
      su_EventsAttempted = ls_attempted stats, su_EventsWritten = ls_written stats,
      su_WriteFailures = ls_failed stats,
      su_AchievedWriteRate = fdiv (float_of_int (uint (ls_written stats))) (Seconds elapsed),
      su_EventIDHashXOR = ls_hashXOR stats, su_EventIDHashSum = ls_hashSum stats\<rparr>"

lemmas load_eval [go_eval] =
  closeConnection_def closeConnections_def dialConnections_def eventForOBU_def nextOBU_def padding_def
  connectionIndex_def unit_draw_def assignedOBUs_def count_attempt_def new_event_def new_stats_def
  runFixedRate_def runMaximumThroughput_def load_start_def printSummary_def

section \<open>Accounts\<close>

text \<open>
  What a goroutine owes: the contributions to the counters and hashes that it has caused and not yet
  made, and the event it holds.
\<close>

fun owed_written :: "record_pc \<Rightarrow> uint64" where
  "owed_written (AddWritten _) = 1" | "owed_written _ = 0"

fun owed_sum :: "record_pc \<Rightarrow> uint64" where
  "owed_sum (AddWritten i) = EventIDFingerprint i" | "owed_sum (AddSum f) = f" | "owed_sum _ = 0"

fun owed_xor :: "record_pc \<Rightarrow> uint64" where
  "owed_xor (AddWritten i) = EventIDFingerprint i" | "owed_xor (AddSum f) = f" | "owed_xor (LoadXOR f) = f"
| "owed_xor (SwapXOR f _) = f" | "owed_xor _ = 0"

fun owed_failed :: "record_pc \<Rightarrow> uint64" where
  "owed_failed AddFailed = 1" | "owed_failed _ = 0"

fun worker_rec :: "worker_pc \<Rightarrow> record_pc option" where
  "worker_rec (Succeeding r _) = Some r" | "worker_rec (Failing r) = Some r" | "worker_rec _ = None"

fun main_rec :: "main_pc \<Rightarrow> record_pc option" where
  "main_rec (Dropping r _ _) = Some r" | "main_rec _ = None"

fun worker_held :: "worker_pc \<Rightarrow> OBUData list" where
  "worker_held (Created d _) = [d]" | "worker_held (CountCreated d _) = [d]"
| "worker_held (Writing d _) = [d]" | "worker_held _ = []"

fun main_held :: "main_pc \<Rightarrow> OBUData list" where
  "main_held (Attempt d _ _) = [d]" | "main_held (CountAttempt d _ _) = [d]"
| "main_held (Sending d _ _) = [d]" | "main_held _ = []"

fun worker_attempt :: "worker_pc \<Rightarrow> uint64" where
  "worker_attempt (Created _ _) = 1" | "worker_attempt _ = 0"

fun main_attempt :: "main_pc \<Rightarrow> uint64" where
  "main_attempt (Attempt _ _ _) = 1" | "main_attempt _ = 0"

definition owes :: "(record_pc \<Rightarrow> uint64) \<Rightarrow> record_pc option \<Rightarrow> uint64" where
  "owes f r = (case r of None \<Rightarrow> 0 | Some r \<Rightarrow> f r)"

definition xor_list :: "uint64 list \<Rightarrow> uint64" where
  "xor_list xs = foldr (XOR) xs 0"

lemma owes_simps [simp]: "owes f None = 0" "owes f (Some r) = f r"
  by (simp_all add: owes_def)

lemma xor_list_simps [simp]: "xor_list [] = 0" "xor_list (x # xs) = x XOR xor_list xs"
  "xor_list (xs @ ys) = xor_list xs XOR xor_list ys"
  by (simp_all add: xor_list_def, induction xs) (simp_all add: xor.assoc)

lemma xor_list_concat: "xor_list (map f (concat xss)) = xor_list (map (\<lambda>xs. xor_list (map f xs)) xss)"
  by (induction xss) simp_all

lemma sum_list_concat: "sum_list (map f (concat xss)) = (sum_list (map (\<lambda>xs. sum_list (map f xs)) xss) :: uint64)"
  by (induction xss) simp_all

lemma sum_list_map_update:
  "i < length xs \<Longrightarrow> sum_list (map f (xs[i := x])) = (sum_list (map f xs) - f (xs ! i) + f x :: uint64)"
  by (induction xs arbitrary: i) (auto simp: nth_Cons split: nat.splits)

lemma xor_list_map_update:
  "i < length xs \<Longrightarrow> xor_list (map f (xs[i := x])) = xor_list (map f xs) XOR f (xs ! i) XOR f x"
proof (induction xs arbitrary: i)
  case (Cons y ys)
  then show ?case
    by (cases i) (simp_all add: xor.assoc xor.commute xor.left_commute)
qed simp

text \<open>
  Five balances, each the difference between two sides of an account: attempts, events written, the
  sum and the exclusive-or of their fingerprints, and where the events are.
\<close>

definition queued :: "load_state \<Rightarrow> uint64" where
  "queued st = sum_list (map (\<lambda>js. of_nat (length js)) (ld_jobs st))"

definition attempt_balance :: "load_state \<Rightarrow> uint64" where
  "attempt_balance st = ls_attempted (ld_stats st) + main_attempt (ld_main st)
     + sum_list (map worker_attempt (ld_workers st)) - of_nat (length (ld_created st))"

definition written_balance :: "load_state \<Rightarrow> uint64" where
  "written_balance st = ls_written (ld_stats st) + owes owed_written (main_rec (ld_main st))
     + sum_list (map (\<lambda>w. owes owed_written (worker_rec w)) (ld_workers st))
     - sum_list (map (\<lambda>s. of_nat (length s)) (ld_sent st))"

definition sum_balance :: "load_state \<Rightarrow> uint64" where
  "sum_balance st = ls_hashSum (ld_stats st) + owes owed_sum (main_rec (ld_main st))
     + sum_list (map (\<lambda>w. owes owed_sum (worker_rec w)) (ld_workers st))
     - sum_list (map (\<lambda>s. sum_list (map (\<lambda>d. EventIDFingerprint (od_EventID d)) s)) (ld_sent st))"

definition xor_balance :: "load_state \<Rightarrow> uint64" where
  "xor_balance st = ls_hashXOR (ld_stats st) XOR owes owed_xor (main_rec (ld_main st))
     XOR xor_list (map (\<lambda>w. owes owed_xor (worker_rec w)) (ld_workers st))
     XOR xor_list (map (\<lambda>s. xor_list (map (\<lambda>d. EventIDFingerprint (od_EventID d)) s)) (ld_sent st))"

definition place_balance :: "load_state \<Rightarrow> uint64" where
  "place_balance st = sum_list (map (\<lambda>s. of_nat (length s)) (ld_sent st)) + ls_failed (ld_stats st)
     + owes owed_failed (main_rec (ld_main st))
     + sum_list (map (\<lambda>w. owes owed_failed (worker_rec w)) (ld_workers st))
     + of_nat (length (main_held (ld_main st)))
     + sum_list (map (\<lambda>w. of_nat (length (worker_held w))) (ld_workers st)) + queued st
     - of_nat (length (ld_created st))"

lemmas balances = attempt_balance_def written_balance_def sum_balance_def xor_balance_def place_balance_def
  queued_def

definition load_shape :: "nat \<Rightarrow> load_state \<Rightarrow> bool" where
  "load_shape n st \<longleftrightarrow> 0 < n \<and> length (ld_jobs st) = n \<and> length (ld_closed st) = n \<and> length (ld_sent st) = n
     \<and> length (ld_workers st) = n"

definition balanced :: "load_state \<Rightarrow> bool" where
  "balanced st \<longleftrightarrow> attempt_balance st = 0 \<and> written_balance st = 0 \<and> sum_balance st = 0
     \<and> xor_balance st = 0 \<and> place_balance st = 0"

text \<open>The five balances as one value, and what a step of \<open>recordSuccess\<close> or \<open>recordFailure\<close> does to it.\<close>

definition ledger_of :: "load_state \<Rightarrow> uint64 \<times> uint64 \<times> uint64 \<times> uint64 \<times> uint64" where
  "ledger_of st = (attempt_balance st, written_balance st, sum_balance st, xor_balance st, place_balance st)"

lemma balanced_ledger: "balanced st \<longleftrightarrow> ledger_of st = (0, 0, 0, 0, 0)"
  by (simp add: balanced_def ledger_of_def)

lemmas xor_ac = xor.assoc xor.commute xor.left_commute

lemma record_step_frame:
  assumes "record_step r st = (r', st')"
  shows "ld_cancelled st' = ld_cancelled st" "ld_jobs st' = ld_jobs st" "ld_closed st' = ld_closed st"
    "ld_sent st' = ld_sent st" "ld_created st' = ld_created st" "ld_main st' = ld_main st"
    "ld_workers st' = ld_workers st" "ls_sequence (ld_stats st') = ls_sequence (ld_stats st)"
    "ls_runID (ld_stats st') = ls_runID (ld_stats st)" "ls_attempted (ld_stats st') = ls_attempted (ld_stats st)"
  using assms by (cases "(r, st)" rule: record_step.cases; auto split: if_splits)+

lemma record_step_owes:
  assumes "record_step r st = (r', st')"
  shows "ls_written (ld_stats st') + owes owed_written r' = ls_written (ld_stats st) + owed_written r"
    "ls_hashSum (ld_stats st') + owes owed_sum r' = ls_hashSum (ld_stats st) + owed_sum r"
    "ls_hashXOR (ld_stats st') XOR owes owed_xor r' = ls_hashXOR (ld_stats st) XOR owed_xor r"
    "ls_failed (ld_stats st') + owes owed_failed r' = ls_failed (ld_stats st) + owed_failed r"
  using assms by (cases "(r, st)" rule: record_step.cases; auto split: if_splits)+

lemma xor_move: "(a :: uint64) XOR b = c XOR d \<Longrightarrow> a = c XOR d XOR b"
  using xor.assoc [of a b b] xor.assoc [of c d b] by simp

lemma record_step_stats:
  assumes "record_step r st = (r', st')"
  shows "ls_written (ld_stats st') = ls_written (ld_stats st) + owed_written r - owes owed_written r'"
    "ls_hashSum (ld_stats st') = ls_hashSum (ld_stats st) + owed_sum r - owes owed_sum r'"
    "ls_hashXOR (ld_stats st') = ls_hashXOR (ld_stats st) XOR owed_xor r XOR owes owed_xor r'"
    "ls_failed (ld_stats st') = ls_failed (ld_stats st) + owed_failed r - owes owed_failed r'"
  using record_step_owes [OF assms] xor_move [OF record_step_owes(3) [OF assms]] by (simp_all add: algebra_simps)

lemma new_event_frame:
  assumes "new_event cfg c obuID st = Some (d, st')"
  shows "ld_created st' = ld_created st @ [d]" "ls_sequence (ld_stats st') = ls_sequence (ld_stats st) + 1"
    "ls_attempted (ld_stats st') = ls_attempted (ld_stats st)" "ls_written (ld_stats st') = ls_written (ld_stats st)"
    "ls_failed (ld_stats st') = ls_failed (ld_stats st)" "ls_hashSum (ld_stats st') = ls_hashSum (ld_stats st)"
    "ls_hashXOR (ld_stats st') = ls_hashXOR (ld_stats st)" "ls_runID (ld_stats st') = ls_runID (ld_stats st)"
    "ld_jobs st' = ld_jobs st" "ld_closed st' = ld_closed st" "ld_sent st' = ld_sent st"
    "ld_workers st' = ld_workers st" "ld_main st' = ld_main st" "ld_cancelled st' = ld_cancelled st"
  using assms by (auto simp: new_event_def eventForOBU_def Let_def split: choice.splits if_splits)

lemma worker_step_ledger:
  assumes shape: "load_shape n st" "i < n" and pc: "ld_workers st ! i = pc"
    and step: "worker_step cfg c i pc st = Some (pc', st')"
  shows "ledger_of (st'\<lparr>ld_workers := (ld_workers st')[i := pc']\<rparr>) = ledger_of st"
proof -
  have len: "i < length (ld_workers st)" "i < length (ld_sent st)" "i < length (ld_jobs st)"
    using shape by (auto simp: load_shape_def)
  note upd = sum_list_map_update xor_list_map_update
  have rec: "ledger_of (st'\<lparr>ld_workers := (ld_workers st')[i := pc']\<rparr>) = ledger_of st"
    if "record_step r st = (r', st')" "worker_rec pc = Some r" "worker_rec pc' = r'" "worker_held pc = []"
      "worker_held pc' = []" "worker_attempt pc = 0" "worker_attempt pc' = 0" for r r'
    using record_step_stats [OF that(1)] record_step_frame [OF that(1)] that(2-) pc len
    by (simp add: ledger_of_def balances upd) (simp add: xor_ac)
  show ?thesis
  proof (cases pc)
    case Receiving
    with step pc len show ?thesis
      by (auto simp: ledger_of_def balances upd xor_ac split: choice.splits if_splits list.splits)
  next
    case (Checking k)
    with step pc len show ?thesis by (auto simp: ledger_of_def balances upd xor_ac)
  next
    case (Producing k)
    with step obtain d where ev: "new_event cfg c (assignedOBUs cfg (length (ld_workers st)) i ! k) st = Some (d, st')"
      and pc': "pc' = Created d ((k + 1) mod length (assignedOBUs cfg (length (ld_workers st)) i))"
      by (auto simp: Let_def)
    show ?thesis using new_event_frame [OF ev] Producing pc len
      by (simp add: ledger_of_def balances upd pc' xor_ac)
  next
    case (Writing d resume)
    with step pc len show ?thesis
      by (auto simp: ledger_of_def balances upd xor_ac split: choice.splits if_splits)
  next
    case (Succeeding r resume)
    then have "\<exists>r'. record_step r st = (r', st') \<and> worker_rec pc' = r' \<and> worker_held pc' = [] \<and> worker_attempt pc' = 0"
      using step by (auto split: prod.splits option.splits)
    then show ?thesis using rec Succeeding by auto
  next
    case (Failing r)
    then have "\<exists>r'. record_step r st = (r', st') \<and> worker_rec pc' = r' \<and> worker_held pc' = [] \<and> worker_attempt pc' = 0"
      using step by (auto split: prod.splits option.splits)
    then show ?thesis using rec Failing by auto
  qed (use step pc len in \<open>auto simp: ledger_of_def balances upd xor_ac count_attempt_def\<close>)
qed

lemma main_step_ledger:
  assumes shape: "load_shape n st" and pc: "ld_main st = pc" and step: "main_step cfg c pc st = Some (pc', st')"
    and index: "\<And>d. main_held pc = [d] \<Longrightarrow> connectionIndex n d < n"
  shows "ledger_of (st'\<lparr>ld_main := pc'\<rparr>) = ledger_of st"
proof (cases pc)
  case (StartPhases ps)
  with step pc show ?thesis by (cases ps) (auto simp: ledger_of_def balances)
next
  case (Chosen obuID p ps)
  with step obtain d where ev: "new_event cfg c obuID st = Some (d, st')" and pc': "pc' = Attempt d p ps" by auto
  show ?thesis using new_event_frame [OF ev] Chosen pc
    by (simp add: ledger_of_def balances pc')
next
  case (Sending d p ps)
  then have "connectionIndex n d < length (ld_jobs st)" "length (ld_jobs st) = n"
    using index shape by (auto simp: load_shape_def)
  with step pc Sending show ?thesis
    by (auto simp: ledger_of_def balances sum_list_map_update Let_def split: if_splits)
next
  case (Dropping r p ps)
  then obtain r' where r: "record_step r st = (r', st')" "main_rec pc' = r'" "main_held pc' = []" "main_attempt pc' = 0"
    using step by (auto split: prod.splits option.splits)
  show ?thesis using record_step_stats [OF r(1)] record_step_frame [OF r(1)] r(2-) pc Dropping
    by (simp add: ledger_of_def balances) (simp add: xor_ac)
qed (use step pc in \<open>auto simp: ledger_of_def balances count_attempt_def split: choice.splits if_splits\<close>)

section \<open>Events and lanes\<close>

definition event_id :: "loadConfig \<Rightarrow> int64 \<Rightarrow> nat \<Rightarrow> string" where
  "event_id cfg runID k = Itoa (lc_Seed cfg) @ ''-'' @ Itoa runID @ ''-'' @ show_nat k"

definition event_ok :: "loadConfig \<Rightarrow> int64 \<Rightarrow> nat \<Rightarrow> OBUData \<Rightarrow> bool" where
  "event_ok cfg runID k d \<longleftrightarrow>
     od_EventID d = event_id cfg runID (unat (of_nat (Suc k) :: uint64))
     \<and> 0 < sint (od_OBUID d) \<and> sint (od_OBUID d) \<le> sint (lc_OBUs cfg) \<and> od_Payload d = padding cfg
     \<and> (\<exists>r q. unit_draw r \<and> unit_draw q \<and> od_Lat d = fmul r (float_of_int 100) \<and> od_Lon d = fmul q (float_of_int 100))"

definition created_ok :: "loadConfig \<Rightarrow> int64 \<Rightarrow> load_state \<Rightarrow> bool" where
  "created_ok cfg runID st \<longleftrightarrow>
     ls_runID (ld_stats st) = runID \<and> ls_sequence (ld_stats st) = of_nat (length (ld_created st))
     \<and> (\<forall>k < length (ld_created st). event_ok cfg runID k (ld_created st ! k))"

text \<open>
  Control points: the OBU that was chosen is one of the configured ones, a worker's index is in
  range, and either every goroutine belongs to fixed mode or every one to maximum throughput.
\<close>

fun resume_ok :: "nat \<Rightarrow> bool \<Rightarrow> nat option \<Rightarrow> bool" where
  "resume_ok l fixed None \<longleftrightarrow> fixed"
| "resume_ok l fixed (Some k) \<longleftrightarrow> \<not> fixed \<and> k < l"

fun worker_ok :: "nat \<Rightarrow> bool \<Rightarrow> worker_pc \<Rightarrow> bool" where
  "worker_ok l fixed Receiving \<longleftrightarrow> fixed"
| "worker_ok l fixed (Checking k) \<longleftrightarrow> \<not> fixed \<and> k < l"
| "worker_ok l fixed (Producing k) \<longleftrightarrow> \<not> fixed \<and> k < l"
| "worker_ok l fixed (Created d k) \<longleftrightarrow> \<not> fixed \<and> k < l"
| "worker_ok l fixed (CountCreated d k) \<longleftrightarrow> \<not> fixed \<and> k < l"
| "worker_ok l fixed (Writing d r) \<longleftrightarrow> resume_ok l fixed r"
| "worker_ok l fixed (Succeeding p r) \<longleftrightarrow> resume_ok l fixed r"
| "worker_ok l fixed _ \<longleftrightarrow> True"

fun main_ok :: "loadConfig \<Rightarrow> bool \<Rightarrow> main_pc \<Rightarrow> bool" where
  "main_ok cfg fixed (Chosen b _ _) \<longleftrightarrow> fixed \<and> 0 < sint b \<and> sint b \<le> sint (lc_OBUs cfg)"
| "main_ok cfg fixed Waiting \<longleftrightarrow> True"
| "main_ok cfg fixed Returned \<longleftrightarrow> True"
| "main_ok cfg fixed _ \<longleftrightarrow> fixed"

definition control_ok :: "loadConfig \<Rightarrow> bool \<Rightarrow> load_state \<Rightarrow> bool" where
  "control_ok cfg fixed st \<longleftrightarrow>
     (let n = length (ld_workers st) in
      main_ok cfg fixed (ld_main st)
      \<and> (\<forall>i < n. worker_ok (length (assignedOBUs cfg n i)) fixed (ld_workers st ! i))
      \<and> (fixed \<or> (\<forall>i < n. ld_jobs st ! i = []))
      \<and> (ld_main st = Returned \<longrightarrow> list_all (\<lambda>w. w = Finished) (ld_workers st)))"

text \<open>
  The lane of a connection: what was written to it, what its goroutine holds, what is queued for it and
  what the dispatcher is about to queue.
\<close>

definition lane :: "nat \<Rightarrow> nat \<Rightarrow> load_state \<Rightarrow> OBUData list" where
  "lane n i st = ld_sent st ! i @ worker_held (ld_workers st ! i) @ ld_jobs st ! i
     @ filter (\<lambda>d. connectionIndex n d = i) (main_held (ld_main st))"

definition lanes_ok :: "nat \<Rightarrow> load_state \<Rightarrow> bool" where
  "lanes_ok n st \<longleftrightarrow> (\<forall>i < n. subseq (lane n i st) (filter (\<lambda>d. connectionIndex n d = i) (ld_created st)))"

definition lanes_step :: "nat \<Rightarrow> load_state \<Rightarrow> load_state \<Rightarrow> bool" where
  "lanes_step n st st' \<longleftrightarrow>
     (ld_created st' = ld_created st \<and> (\<forall>i < n. subseq (lane n i st') (lane n i st)))
     \<or> (\<exists>d. ld_created st' = ld_created st @ [d]
           \<and> (\<forall>i < n. lane n i st' = lane n i st @ (if connectionIndex n d = i then [d] else [])))"

lemma lanes_ok_step: "lanes_step n st st' \<Longrightarrow> lanes_ok n st \<Longrightarrow> lanes_ok n st'"
  unfolding lanes_step_def lanes_ok_def by (auto intro: subseq_order.trans list_emb_append_mono)

lemma assigned_from_mem:
  "x \<in> set (assigned_from obus n j) \<Longrightarrow> \<exists>m. x = of_nat m \<and> j \<le> m \<and> m \<le> obus \<and> m mod n = j mod n"
proof (induction obus n j rule: assigned_from.induct)
  case (1 obus n j)
  from "1.prems" consider "x = of_nat j" "j \<le> obus" | "x \<in> set (assigned_from obus n (j + n))" "n \<noteq> 0" "j \<le> obus"
    by (subst (asm) assigned_from.simps) (auto split: if_splits)
  then show ?case
  proof cases
    case 2
    with "1.IH" show ?thesis by fastforce
  qed auto
qed

lemma sint_of_nat: "m < 2 ^ 63 \<Longrightarrow> sint (of_nat m :: go_int) = int m"
  by (simp add: signed_of_nat signed_take_bit_int_eq_self)

lemma connectionIndex_nat:
  assumes "od_OBUID d = of_nat m" "0 < m" "m < 2 ^ 63" shows "connectionIndex n d = (m - 1) mod n"
proof -
  have "od_OBUID d - 1 = of_nat (m - 1)" using assms by simp
  then have "sint (od_OBUID d - 1) = int (m - 1)" using assms sint_of_nat [of "m - 1"] by simp
  then show ?thesis
    by (simp add: connectionIndex_def signed_modulo_int_def sgn_if nat_mod_distrib minus_div_mult_eq_mod
        flip: zmod_int)
qed

lemma obu_nat: "0 < sint (b :: go_int) \<Longrightarrow> \<exists>m. b = of_nat m \<and> 0 < m \<and> m < 2 ^ 63 \<and> sint b = int m"
proof -
  assume b: "0 < sint b"
  have "sint b < 2 ^ 63" using sint_range_size [of b] by (simp add: word_size)
  moreover have "of_nat (nat (sint b)) = (word_of_int (int (nat (sint b))) :: go_int)" by simp
  then have "b = of_nat (nat (sint b))" using b by simp
  ultimately show ?thesis using b by (intro exI [of _ "nat (sint b)"]) auto
qed

lemma created_ok_new_event:
  assumes "created_ok cfg runID st" "new_event cfg c b st = Some (d, st')" "0 < sint b" "sint b \<le> sint (lc_OBUs cfg)"
  shows "created_ok cfg runID st'" "od_OBUID d = b"
proof -
  from assms(2) obtain now r q where draw: "unit_draw r" "unit_draw q"
    and d: "d = fst (eventForOBU cfg now r q (padding cfg) b (ld_stats st))"
    by (auto simp: new_event_def Let_def case_prod_beta split: choice.splits if_splits)
  note frame = new_event_frame [OF assms(2)]
  show obu: "od_OBUID d = b" by (simp add: d eventForOBU_def Let_def)
  have stats: "ls_runID (ld_stats st) = runID" "ls_sequence (ld_stats st) = of_nat (length (ld_created st))"
    using assms(1) by (simp_all add: created_ok_def)
  have "od_EventID d = event_id cfg runID (unat (of_nat (Suc (length (ld_created st))) :: uint64))"
    by (simp add: d eventForOBU_def Let_def event_id_def stats add.commute)
  moreover have "\<exists>r q. unit_draw r \<and> unit_draw q \<and> od_Lat d = fmul r (float_of_int 100) \<and> od_Lon d = fmul q (float_of_int 100)"
    using draw by (auto simp: d eventForOBU_def Let_def)
  moreover have "od_Payload d = padding cfg" by (simp add: d eventForOBU_def Let_def)
  ultimately have "event_ok cfg runID (length (ld_created st)) d"
    using assms(3,4) obu by (simp add: event_ok_def)
  then show "created_ok cfg runID st'"
    using assms(1) by (simp add: created_ok_def frame nth_append less_Suc_eq)
qed

lemma main_held_max: "main_ok cfg False m \<Longrightarrow> main_held m = []"
  by (cases m) auto

text \<open>What a step of a worker leaves alone, and what it does with the events.\<close>

lemma worker_step_frame:
  assumes step: "worker_step cfg c i pc st = Some (pc', st')"
  shows "ld_main st' = ld_main st \<and> ld_workers st' = ld_workers st \<and> ld_closed st' = ld_closed st
    \<and> length (ld_jobs st') = length (ld_jobs st) \<and> length (ld_sent st') = length (ld_sent st)
    \<and> (ld_jobs st ! i = [] \<longrightarrow> ld_jobs st' = ld_jobs st)"
proof (cases pc)
  case (Producing k)
  with step obtain d where "new_event cfg c (assignedOBUs cfg (length (ld_workers st)) i ! k) st = Some (d, st')"
    by (auto simp: Let_def)
  from new_event_frame [OF this] show ?thesis by simp
qed (use step record_step_frame in \<open>auto simp: count_attempt_def split: choice.splits if_splits list.splits prod.splits option.splits\<close>)

lemma worker_step_control:
  assumes ctrl: "control_ok cfg fixed st" and shape: "load_shape n st" "i < n" and pc: "ld_workers st ! i = pc"
    and step: "worker_step cfg c i pc st = Some (pc', st')"
  shows "control_ok cfg fixed (st'\<lparr>ld_workers := (ld_workers st')[i := pc']\<rparr>)"
proof -
  let ?l = "length (assignedOBUs cfg n i)"
  have len: "length (ld_workers st) = n" "length (ld_jobs st) = n" using shape by (auto simp: load_shape_def)
  note frame = worker_step_frame [OF step]
  have ok: "worker_ok ?l fixed pc" "fixed \<or> ld_jobs st ! i = []"
    using ctrl shape(2) pc len by (auto simp: control_ok_def Let_def)
  have "worker_ok ?l fixed pc'"
    using step ok(1)
    by (cases "(cfg, c, i, pc, st)" rule: worker_step.cases)
      (auto simp: Let_def len split: choice.splits if_splits list.splits prod.splits option.splits
        intro!: mod_less_divisor)
  moreover have "ld_main st \<noteq> Returned"
  proof
    assume "ld_main st = Returned"
    then have "pc = Finished" using ctrl pc shape(2) len by (auto simp: control_ok_def Let_def list_all_length)
    then show False using step by simp
  qed
  moreover have "fixed \<or> ld_jobs st' = ld_jobs st" using ok(2) frame by auto
  ultimately show ?thesis
    using ctrl frame len shape(2) by (auto simp: control_ok_def Let_def nth_list_update)
qed

lemma worker_step_created:
  assumes created: "created_ok cfg runID st" and ctrl: "control_ok cfg fixed st" and shape: "load_shape n st" "i < n"
    and pc: "ld_workers st ! i = pc" and step: "worker_step cfg c i pc st = Some (pc', st')"
    and obus: "0 < sint (lc_OBUs cfg)"
  shows "created_ok cfg runID (st'\<lparr>ld_workers := (ld_workers st')[i := pc']\<rparr>)"
    "lanes_step n st (st'\<lparr>ld_workers := (ld_workers st')[i := pc']\<rparr>)"
proof -
  have len: "length (ld_workers st) = n" "length (ld_jobs st) = n" "length (ld_sent st) = n" "0 < n"
    using shape by (auto simp: load_shape_def)
  let ?st = "st'\<lparr>ld_workers := (ld_workers st')[i := pc']\<rparr>"
  have quiet: "created_ok cfg runID ?st \<and> lanes_step n st ?st"
    if "ld_created st' = ld_created st" "ls_sequence (ld_stats st') = ls_sequence (ld_stats st)"
      "ls_runID (ld_stats st') = ls_runID (ld_stats st)" "ld_main st' = ld_main st" "ld_workers st' = ld_workers st"
      "\<forall>j < n. j \<noteq> i \<longrightarrow> ld_sent st' ! j = ld_sent st ! j \<and> ld_jobs st' ! j = ld_jobs st ! j"
      "subseq (ld_sent st' ! i @ worker_held pc' @ ld_jobs st' ! i) (ld_sent st ! i @ worker_held pc @ ld_jobs st ! i)"
  proof
    show "created_ok cfg runID ?st" using created that(1-3) by (simp add: created_ok_def)
    have "subseq (lane n j ?st) (lane n j st)" if "j < n" for j
      using \<open>ld_main st' = ld_main st\<close> \<open>ld_workers st' = ld_workers st\<close> pc len shape(2) that
        \<open>\<forall>j < n. j \<noteq> i \<longrightarrow> ld_sent st' ! j = ld_sent st ! j \<and> ld_jobs st' ! j = ld_jobs st ! j\<close>
        list_emb_append_mono [OF \<open>subseq (ld_sent st' ! i @ worker_held pc' @ ld_jobs st' ! i)
            (ld_sent st ! i @ worker_held pc @ ld_jobs st ! i)\<close>]
      by (cases "j = i") (simp_all add: lane_def)
    then show "lanes_step n st ?st" using that(1) by (simp add: lanes_step_def)
  qed
  have "created_ok cfg runID ?st \<and> lanes_step n st ?st"
  proof (cases pc)
    case (Producing k)
    let ?os = "assignedOBUs cfg n i"
    from step Producing obtain d where ev: "new_event cfg c (?os ! k) st = Some (d, st')"
      and pc': "pc' = Created d ((k + 1) mod length ?os)"
      by (auto simp: Let_def len)
    have k: "k < length ?os" "\<not> fixed" using ctrl pc Producing shape(2) len by (auto simp: control_ok_def Let_def)
    then have idle: "main_held (ld_main st) = []" "ld_jobs st ! i = []"
      using ctrl len shape(2) main_held_max [of cfg "ld_main st"] by (auto simp: control_ok_def Let_def)
    obtain m where m: "?os ! k = of_nat m" "i + 1 \<le> m" "m \<le> nat (sint (lc_OBUs cfg))" "m mod n = (i + 1) mod n"
      using assigned_from_mem [of "?os ! k" "nat (sint (lc_OBUs cfg))" n "i + 1"] nth_mem [OF k(1)]
      by (auto simp: assignedOBUs_def)
    have "sint (lc_OBUs cfg) < 2 ^ 63" using sint_range_size [of "lc_OBUs cfg"] by (simp add: word_size)
    then have small: "m < 2 ^ 63" "0 < m" using m obus by auto
    then have sint: "sint (?os ! k) = int m" using m(1) sint_of_nat by simp
    have new: "created_ok cfg runID st'" "od_OBUID d = ?os ! k"
      using created_ok_new_event [OF created ev] m obus small sint by auto
    have "connectionIndex n d = (m - 1) mod n" using connectionIndex_nat [of d m n] new(2) m(1) small by simp
    also have "\<dots> = i"
      using m(4) small shape(2) by (cases m) (auto simp: mod_Suc split: if_splits)
    finally have conn: "connectionIndex n d = i" .
    have "lane n j ?st = lane n j st @ (if connectionIndex n d = j then [d] else [])" if "j < n" for j
      using that new_event_frame [OF ev] idle conn pc Producing len by (auto simp: lane_def pc' nth_list_update)
    then have "lanes_step n st ?st" using new_event_frame(1) [OF ev] by (auto simp: lanes_step_def)
    then show ?thesis using new(1) by (simp add: created_ok_def)
  next
    case Receiving
    with step len shape(2) show ?thesis
      by (intro quiet) (auto split: choice.splits if_splits list.splits)
  next
    case (Writing d resume)
    with step len shape(2) show ?thesis
      by (intro quiet) (auto simp: subseq_append' split: choice.splits if_splits)
  qed (rule quiet; use step record_step_frame in \<open>auto simp: count_attempt_def split: prod.splits option.splits\<close>)+
  then show "created_ok cfg runID ?st" "lanes_step n st ?st" by simp_all
qed
lemma nextOBU_range:
  assumes "0 < sint (lc_OBUs cfg)"
  shows "nextOBU cfg stats = of_nat (unat (ls_sequence stats) mod nat (sint (lc_OBUs cfg)) + 1)"
    "0 < sint (nextOBU cfg stats)" "sint (nextOBU cfg stats) \<le> sint (lc_OBUs cfg)"
proof -
  obtain m where m: "lc_OBUs cfg = of_nat m" "0 < m" "m < 2 ^ 63" "sint (lc_OBUs cfg) = int m"
    using obu_nat [OF assms] by blast
  have "ls_sequence stats mod lc_OBUs cfg = of_nat (unat (ls_sequence stats) mod m)"
    using m by (simp add: word_arith_nat_mod unat_of_nat)
  then show eq: "nextOBU cfg stats = of_nat (unat (ls_sequence stats) mod nat (sint (lc_OBUs cfg)) + 1)"
    using m by (simp add: nextOBU_def)
  have "unat (ls_sequence stats) mod m + 1 \<le> m" using m by (simp add: Suc_le_eq)
  then show "0 < sint (nextOBU cfg stats)" "sint (nextOBU cfg stats) \<le> sint (lc_OBUs cfg)"
    using eq m sint_of_nat [of "unat (ls_sequence stats) mod m + 1"] by simp_all
qed

lemma connectionIndex_less:
  assumes "0 < n" "0 < sint (od_OBUID d)" shows "connectionIndex n d < n"
  using obu_nat [OF assms(2)] connectionIndex_nat [of d] assms(1) by auto

text \<open>The event in the dispatcher's hand is the last one created.\<close>

definition hand_ok :: "load_state \<Rightarrow> bool" where
  "hand_ok st \<longleftrightarrow> (\<forall>d \<in> set (main_held (ld_main st)). 0 < sint (od_OBUID d))"

lemma main_step_ok:
  assumes ctrl: "control_ok cfg fixed st" and shape: "load_shape n st" and created: "created_ok cfg runID st"
    and hand: "hand_ok st" and pc: "ld_main st = pc" and step: "main_step cfg c pc st = Some (pc', st')"
    and obus: "0 < sint (lc_OBUs cfg)"
  shows "control_ok cfg fixed (st'\<lparr>ld_main := pc'\<rparr>) \<and> created_ok cfg runID (st'\<lparr>ld_main := pc'\<rparr>)
    \<and> hand_ok (st'\<lparr>ld_main := pc'\<rparr>) \<and> lanes_step n st (st'\<lparr>ld_main := pc'\<rparr>)"
proof -
  let ?st = "st'\<lparr>ld_main := pc'\<rparr>"
  have len: "length (ld_workers st) = n" "length (ld_jobs st) = n" "0 < n"
    using shape by (auto simp: load_shape_def)
  have quiet: "control_ok cfg fixed ?st \<and> created_ok cfg runID ?st \<and> hand_ok ?st \<and> lanes_step n st ?st"
    if "ld_created st' = ld_created st" "ls_sequence (ld_stats st') = ls_sequence (ld_stats st)"
      "ls_runID (ld_stats st') = ls_runID (ld_stats st)" "ld_workers st' = ld_workers st" "ld_sent st' = ld_sent st"
      "fixed \<or> ld_jobs st' = ld_jobs st" "main_ok cfg fixed pc'"
      "pc' = Returned \<longrightarrow> list_all (\<lambda>w. w = Finished) (ld_workers st)"
      "set (main_held pc') \<subseteq> set (main_held pc)"
      "\<forall>i < n. subseq (ld_jobs st' ! i @ filter (\<lambda>d. connectionIndex n d = i) (main_held pc'))
         (ld_jobs st ! i @ filter (\<lambda>d. connectionIndex n d = i) (main_held pc))"
  proof (intro conjI)
    show "control_ok cfg fixed ?st" using ctrl that(4,6-8) by (auto simp: control_ok_def Let_def)
    show "created_ok cfg runID ?st" using created that(1-3) by (simp add: created_ok_def)
    show "hand_ok ?st" using hand that(9) pc by (auto simp: hand_ok_def)
    have "subseq (lane n i ?st) (lane n i st)" if "i < n" for i
      using \<open>ld_workers st' = ld_workers st\<close> \<open>ld_sent st' = ld_sent st\<close> pc that
        \<open>\<forall>i < n. subseq (ld_jobs st' ! i @ filter (\<lambda>d. connectionIndex n d = i) (main_held pc'))
         (ld_jobs st ! i @ filter (\<lambda>d. connectionIndex n d = i) (main_held pc))\<close>
      by (auto simp: lane_def intro: list_emb_append_mono)
    then show "lanes_step n st ?st" using that(1) by (simp add: lanes_step_def)
  qed
  have ok: "main_ok cfg fixed pc" using ctrl pc by (simp add: control_ok_def Let_def)
  show ?thesis
  proof (cases pc)
    case (StartPhases ps)
    with step ok show ?thesis by (intro quiet) (cases ps; auto)+
  next
    case (Ticked p ps)
    with step ok nextOBU_range [OF obus] show ?thesis by (intro quiet) auto
  next
    case (Chosen b p ps)
    with step obtain d where ev: "new_event cfg c b st = Some (d, st')" and pc': "pc' = Attempt d p ps" by auto
    have b: "0 < sint b" "sint b \<le> sint (lc_OBUs cfg)" "fixed" using ok Chosen by auto
    note frame = new_event_frame [OF ev] and new = created_ok_new_event [OF created ev b(1,2)]
    have "control_ok cfg fixed ?st" using ctrl b(3) by (auto simp: control_ok_def Let_def frame pc')
    moreover have "hand_ok ?st" using new(2) b(1) by (simp add: hand_ok_def pc')
    moreover have "lanes_step n st ?st"
      using pc Chosen by (auto simp: lanes_step_def lane_def frame pc')
    ultimately show ?thesis using new(1) by (simp add: created_ok_def)
  next
    case (Sending d p ps)
    let ?i = "connectionIndex n d"
    have i: "?i < n" using hand pc Sending len(3) by (auto simp: hand_ok_def intro: connectionIndex_less)
    show ?thesis
    proof (cases "length (ld_jobs st ! ?i) < 1024")
      case True
      with step Sending len ok i show ?thesis
        by (intro quiet) (auto simp: nth_list_update Let_def)
    next
      case False
      with step Sending len ok show ?thesis by (intro quiet) (auto simp: Let_def)
    qed
  next
    case (Dropping r p ps)
    with step ok show ?thesis
      by (intro quiet) (auto simp: record_step_frame split: prod.splits option.splits)
  qed (rule quiet; use step ok in \<open>auto simp: count_attempt_def split: choice.splits if_splits\<close>)+
qed
section \<open>The invariant of a run\<close>

definition load_inv :: "loadConfig \<Rightarrow> bool \<Rightarrow> int64 \<Rightarrow> nat \<Rightarrow> load_state \<Rightarrow> bool" where
  "load_inv cfg fixed runID n st \<longleftrightarrow>
     load_shape n st \<and> balanced st \<and> control_ok cfg fixed st \<and> created_ok cfg runID st \<and> hand_ok st \<and> lanes_ok n st"

lemma main_step_shape:
  assumes "load_shape n st" "main_step cfg c pc st = Some (pc', st')"
  shows "load_shape n (st'\<lparr>ld_main := pc'\<rparr>)"
proof (cases pc)
  case (Chosen b p ps)
  with assms(2) obtain d where "new_event cfg c b st = Some (d, st')" by auto
  from new_event_frame [OF this] assms(1) show ?thesis by (simp add: load_shape_def)
next
  case (StartPhases ps)
  with assms show ?thesis by (cases ps) (auto simp: load_shape_def)
next
  case (Dropping r p ps)
  with assms show ?thesis by (auto simp: load_shape_def record_step_frame split: prod.splits option.splits)
qed (use assms in \<open>auto simp: load_shape_def count_attempt_def Let_def split: choice.splits if_splits\<close>)

lemma load_inv_step:
  assumes inv: "load_inv cfg fixed runID n st" and act: "load_act cfg a st = Some st'"
    and obus: "0 < sint (lc_OBUs cfg)"
  shows "load_inv cfg fixed runID n st'"
proof -
  have shape: "load_shape n st" and bal: "ledger_of st = (0, 0, 0, 0, 0)" and ctrl: "control_ok cfg fixed st"
    and created: "created_ok cfg runID st" and hand: "hand_ok st" and lanes: "lanes_ok n st"
    using inv by (simp_all add: load_inv_def balanced_ledger)
  show ?thesis
  proof (cases a)
    case Cancel
    then have st': "st' = st\<lparr>ld_cancelled := True\<rparr>" using act by simp
    have "load_inv cfg fixed runID n st' = load_inv cfg fixed runID n st" unfolding st'
      by (simp add: load_inv_def load_shape_def balanced_def balances control_ok_def created_ok_def hand_ok_def
          lanes_ok_def lane_def)
    then show ?thesis using inv by simp
  next
    case (Main c)
    then obtain pc' s where step: "main_step cfg c (ld_main st) st = Some (pc', s)" and st': "st' = s\<lparr>ld_main := pc'\<rparr>"
      using act by auto
    have "connectionIndex n d < n" if "main_held (ld_main st) = [d]" for d
      using hand that shape by (auto simp: hand_ok_def load_shape_def intro: connectionIndex_less)
    then have "ledger_of st' = ledger_of st" using main_step_ledger [OF shape refl step] st' by blast
    moreover have "control_ok cfg fixed st' \<and> created_ok cfg runID st' \<and> hand_ok st' \<and> lanes_step n st st'"
      using main_step_ok [OF ctrl shape created hand refl step obus] st' by blast
    ultimately show ?thesis
      using main_step_shape [OF shape step] bal lanes st' lanes_ok_step
      by (auto simp: load_inv_def balanced_ledger)
  next
    case (Work i c)
    then obtain pc' s where i: "i < length (ld_workers st)"
      and step: "worker_step cfg c i (ld_workers st ! i) st = Some (pc', s)"
      and st': "st' = s\<lparr>ld_workers := (ld_workers s)[i := pc']\<rparr>"
      using act by (auto split: if_splits)
    then have i: "i < n" using shape by (simp add: load_shape_def)
    note frame = worker_step_frame [OF step]
    have "load_shape n st'" "hand_ok st'" using shape hand frame by (simp_all add: st' load_shape_def hand_ok_def)
    then show ?thesis
      using worker_step_ledger [OF shape i refl step] worker_step_control [OF ctrl shape i refl step]
        worker_step_created [OF created ctrl shape i refl step obus] lanes_ok_step lanes bal st'
      by (auto simp: load_inv_def balanced_ledger)
  qed
qed

lemma sum_list_zero: "\<forall>x \<in> set xs. f x = (0 :: uint64) \<Longrightarrow> sum_list (map f xs) = 0"
  by (induction xs) auto

lemma xor_list_zero: "\<forall>x \<in> set xs. f x = 0 \<Longrightarrow> xor_list (map f xs) = 0"
  by (induction xs) auto

lemma balanced_idle:
  assumes "ld_stats st = new_stats runID" "ld_created st = []" "\<forall>s \<in> set (ld_sent st). s = []"
    "\<forall>js \<in> set (ld_jobs st). js = []" "\<forall>w \<in> set (ld_workers st). worker_rec w = None \<and> worker_held w = [] \<and> worker_attempt w = 0"
    "main_rec (ld_main st) = None" "main_held (ld_main st) = []" "main_attempt (ld_main st) = 0"
  shows "balanced st"
proof -
  have "sum_list (map (\<lambda>s. of_nat (length s)) (ld_sent st)) = (0 :: uint64)"
    "sum_list (map (\<lambda>js. of_nat (length js)) (ld_jobs st)) = (0 :: uint64)"
    "sum_list (map (\<lambda>s. sum_list (map (\<lambda>d. EventIDFingerprint (od_EventID d)) s)) (ld_sent st)) = 0"
    "xor_list (map (\<lambda>s. xor_list (map (\<lambda>d. EventIDFingerprint (od_EventID d)) s)) (ld_sent st)) = 0"
    using assms(3,4) by (auto intro!: sum_list_zero xor_list_zero)
  then show ?thesis using assms by (simp add: balanced_def balances new_stats_def sum_list_zero xor_list_zero)
qed

lemma load_inv_start:
  assumes "0 < n"
  shows "load_inv cfg (lc_Mode cfg \<noteq> ''max'') runID n (load_start cfg phases n runID)"
proof -
  let ?st = "load_start cfg phases n runID"
  note start = load_start_def runMaximumThroughput_def runFixedRate_def
  have "balanced ?st" by (rule balanced_idle [of _ runID]) (auto simp: start split: if_splits)
  moreover have "load_shape n ?st" using assms by (simp add: start load_shape_def)
  moreover have "control_ok cfg (lc_Mode cfg \<noteq> ''max'') ?st" by (auto simp: start control_ok_def Let_def)
  moreover have "created_ok cfg runID ?st" by (simp add: start created_ok_def new_stats_def)
  moreover have "hand_ok ?st" by (simp add: start hand_ok_def)
  moreover have "lanes_ok n ?st" by (auto simp: start lanes_ok_def lane_def)
  ultimately show ?thesis by (simp add: load_inv_def)
qed

lemma load_inv_reach:
  assumes "load_reach cfg (load_start cfg phases n runID) st" "0 < n" "0 < sint (lc_OBUs cfg)"
  shows "load_inv cfg (lc_Mode cfg \<noteq> ''max'') runID n st"
  using assms(1)
proof (induction rule: load_reach.induct)
  case reach_refl
  show ?case using assms(2) by (rule load_inv_start)
next
  case (reach_step st' a st'')
  then show ?case using load_inv_step assms(3) by blast
qed

lemma show_nat_inject: "show_nat a = show_nat b \<longleftrightarrow> a = b"
  by (metis read_show_nat)

lemma event_id_inject: "event_id cfg runID a = event_id cfg runID b \<longleftrightarrow> a = b"
  by (simp add: event_id_def show_nat_inject)

lemma created_distinct:
  assumes "created_ok cfg runID st" "length (ld_created st) < 2 ^ 64"
  shows "distinct (map od_EventID (ld_created st))"
proof -
  have "unat (of_nat (Suc k) :: uint64) = Suc k mod 2 ^ 64" for k
    using unat_of_nat [where 'a = 64, of "Suc k"] by (simp del: of_nat_Suc)
  then have "unat (of_nat (Suc k) :: uint64) \<noteq> unat (of_nat (Suc l) :: uint64)"
    if "k < length (ld_created st)" "l < length (ld_created st)" "k \<noteq> l" for k l
    using that assms(2) by (cases "Suc k = 2 ^ 64 \<or> Suc l = 2 ^ 64") (auto simp: mod_if)
  then show ?thesis
    using assms(1) by (auto simp: distinct_conv_nth created_ok_def event_ok_def event_id_inject)
qed

lemma concat_nth: "x \<in> set (concat xss) \<Longrightarrow> \<exists>i < length xss. x \<in> set (xss ! i)"
proof -
  assume "x \<in> set (concat xss)"
  then obtain xs where xs: "xs \<in> set xss" "x \<in> set xs" by auto
  then obtain i where "i < length xss" "xss ! i = xs" by (auto simp: in_set_conv_nth)
  with xs show ?thesis by blast
qed

lemma subseq_set: "subseq xs ys \<Longrightarrow> x \<in> set xs \<Longrightarrow> x \<in> set ys"
  by (induction rule: list_emb.induct) auto

lemma subseq_distinct: "subseq xs ys \<Longrightarrow> distinct ys \<Longrightarrow> distinct xs"
  by (induction rule: list_emb.induct) (auto dest: subseq_set)

lemma distinct_concat_by:
  assumes "\<forall>i < length xss. distinct (xss ! i) \<and> (\<forall>x \<in> set (xss ! i). c x = i)"
  shows "distinct (concat xss)"
  using assms
proof (induction xss rule: rev_induct)
  case (snoc xs xss)
  have old: "distinct (xss ! i) \<and> (\<forall>x \<in> set (xss ! i). c x = i)" if "i < length xss" for i
    using snoc.prems [rule_format, of i] that by (simp add: nth_append)
  have new: "distinct xs \<and> (\<forall>x \<in> set xs. c x = length xss)"
    using snoc.prems [rule_format, of "length xss"] by simp
  have "x \<notin> set xs" if "x \<in> set (concat xss)" for x
  proof
    assume "x \<in> set xs"
    then have "c x = length xss" using new by blast
    moreover obtain i where "i < length xss" "x \<in> set (xss ! i)" using concat_nth [OF \<open>x \<in> set (concat xss)\<close>] by blast
    ultimately show False using old [of i] by simp
  qed
  then have "set (concat xss) \<inter> set xs = {}" by blast
  moreover have "distinct (concat xss)" using snoc.IH old by blast
  ultimately show ?case using new unfolding concat_append distinct_append by simp
qed simp

lemma lane_sent:
  assumes "lanes_ok n st" "i < n"
  shows "subseq (ld_sent st ! i) (filter (\<lambda>d. connectionIndex n d = i) (ld_created st))"
  using assms subseq_order.trans [OF list_emb_prefix [OF subseq_order.refl]] by (auto simp: lanes_ok_def lane_def)

lemma sent_created:
  assumes "load_inv cfg fixed runID n st" "d \<in> set (concat (ld_sent st))"
  shows "\<exists>k < length (ld_created st). d = ld_created st ! k \<and> event_ok cfg runID k d"
proof -
  obtain i where i: "i < n" "d \<in> set (ld_sent st ! i)"
    using concat_nth [OF assms(2)] assms(1) by (auto simp: load_inv_def load_shape_def)
  then have "d \<in> set (ld_created st)"
    using lane_sent [of n st i] assms(1) subseq_set by (fastforce simp: load_inv_def)
  then show ?thesis using assms(1) by (auto simp: load_inv_def created_ok_def in_set_conv_nth)
qed

section \<open>Finished runs\<close>

lemma finished_stats:
  assumes inv: "load_inv cfg fixed runID n st" and main: "ld_main st = Returned"
  shows "ls_written (ld_stats st) = of_nat (length (concat (ld_sent st)))
    \<and> ls_hashXOR (ld_stats st) = foldr (XOR) (map (\<lambda>d. EventIDFingerprint (od_EventID d)) (concat (ld_sent st))) 0
    \<and> ls_hashSum (ld_stats st) = sum_list (map (\<lambda>d. EventIDFingerprint (od_EventID d)) (concat (ld_sent st)))
    \<and> ls_attempted (ld_stats st) = ls_written (ld_stats st) + ls_failed (ld_stats st) + queued st
    \<and> ls_attempted (ld_stats st) = ls_sequence (ld_stats st)"
proof -
  have "\<forall>w \<in> set (ld_workers st). w = Finished"
    using inv main by (simp add: load_inv_def control_ok_def Let_def list_all_iff)
  then have idle: "sum_list (map worker_attempt (ld_workers st)) = 0"
    "sum_list (map (\<lambda>w. owes f (worker_rec w)) (ld_workers st)) = 0"
    "xor_list (map (\<lambda>w. owes f (worker_rec w)) (ld_workers st)) = 0"
    "sum_list (map (\<lambda>w. of_nat (length (worker_held w))) (ld_workers st)) = (0 :: uint64)" for f
    by (auto intro!: sum_list_zero xor_list_zero)
  have lengths: "sum_list (map (\<lambda>s. of_nat (length s)) xss) = (of_nat (length (concat xss)) :: uint64)" for xss :: "OBUData list list"
    by (induction xss) auto
  have bal: "balanced st" and seq: "ls_sequence (ld_stats st) = of_nat (length (ld_created st))"
    using inv by (simp_all add: load_inv_def created_ok_def)
  have "ls_hashXOR (ld_stats st) XOR xor_list (map (\<lambda>d. EventIDFingerprint (od_EventID d)) (concat (ld_sent st))) = 0"
    using bal main by (simp add: balanced_def xor_balance_def idle xor_list_concat)
  then have "ls_hashXOR (ld_stats st) = xor_list (map (\<lambda>d. EventIDFingerprint (od_EventID d)) (concat (ld_sent st)))"
    using xor_move [of _ _ 0 0] by simp
  then show ?thesis
    using bal main seq
    by (simp add: balanced_def attempt_balance_def written_balance_def sum_balance_def place_balance_def idle
        lengths sum_list_concat xor_list_def)
qed

lemma sent_distinct:
  assumes "load_inv cfg fixed runID n st" "length (ld_created st) < 2 ^ 64"
  shows "distinct (map od_EventID (concat (ld_sent st)))"
proof -
  have ids: "distinct (map od_EventID (ld_created st))"
    using created_distinct assms by (auto simp: load_inv_def)
  have lane: "subseq (ld_sent st ! i) (filter (\<lambda>d. connectionIndex n d = i) (ld_created st))" if "i < n" for i
    using lane_sent that assms(1) by (auto simp: load_inv_def)
  have "distinct (ld_sent st ! i) \<and> (\<forall>d \<in> set (ld_sent st ! i). connectionIndex n d = i)" if "i < n" for i
    using subseq_distinct [OF lane [OF that]] subseq_set [OF lane [OF that]] ids
    by (auto simp: distinct_map)
  then have "distinct (concat (ld_sent st))"
    using assms(1) by (intro distinct_concat_by [of _ "connectionIndex n"]) (simp add: load_inv_def load_shape_def)
  moreover have "set (concat (ld_sent st)) \<subseteq> set (ld_created st)" using sent_created [OF assms(1)] by (force simp: set_conv_nth)
  ultimately show "distinct (map od_EventID (concat (ld_sent st)))"
    using ids inj_on_subset by (auto simp: distinct_map simp del: set_concat)
qed

section \<open>An example run\<close>

text \<open>Two OBUs over two connections: both writers load the hash before the first one swaps it.\<close>

definition demo_cfg :: loadConfig where
  "demo_cfg = \<lparr>lc_Endpoint = ''ws://127.0.0.1:30000/ws'', lc_OBUs = 2, lc_Rate = float_of_int 4, lc_Connections = 2,
     lc_Duration = 1000000000, lc_PayloadBytes = 0, lc_Mode = ''fixed'', lc_Seed = 1, lc_Ramp = '''',
     lc_MetricsAddr = '':9100''\<rparr>"

definition demo_tick :: "int64 \<Rightarrow> action list" where
  "demo_tick now = [Main Tick, Main Proceed, Main (Draw now fzero fzero), Main Proceed, Main Proceed, Main Proceed]"

definition demo_actions :: "action list" where
  "demo_actions = [Main Proceed] @ demo_tick 100 @ demo_tick 200 @
     [Work 0 Proceed, Work 1 Proceed, Work 0 WriteOK, Work 1 WriteOK,
      Work 0 Proceed, Work 1 Proceed, Work 0 Proceed, Work 1 Proceed, Work 0 Proceed, Work 1 Proceed,
      Work 0 Proceed, Work 1 Proceed, Work 1 Proceed, Work 1 Proceed, Work 0 Proceed, Work 1 Proceed,
      Main CtxDone, Main Proceed, Main Proceed, Main Proceed, Main Proceed, Main Proceed,
      Work 0 Proceed, Work 1 Proceed, Main Proceed]"

definition demo_end :: load_state where
  "demo_end = the (load_run demo_cfg demo_actions (load_start demo_cfg [] 2 7))"

lemma replicate_two: "replicate 2 x = [x, x]"
  by (simp add: numeral_2_eq_2)

lemma demo_run: "load_run demo_cfg demo_actions (load_start demo_cfg [] 2 7) = Some demo_end" "ld_main demo_end = Returned"
  "length (ld_created demo_end) = 2" "map (map od_OBUID) (ld_sent demo_end) = [[1], [2]]" "queued demo_end = 0"
proof -
  have "\<exists>st. load_run demo_cfg demo_actions (load_start demo_cfg [] 2 7) = Some st \<and> ld_main st = Returned
      \<and> length (ld_created st) = 2 \<and> map (map od_OBUID) (ld_sent st) = [[1], [2]] \<and> queued st = 0"
    by (simp add: demo_actions_def demo_tick_def demo_cfg_def go_eval float_eval replicate_two signed_modulo_int_def
        signed_divide_int_def queued_def)
  then show "load_run demo_cfg demo_actions (load_start demo_cfg [] 2 7) = Some demo_end" "ld_main demo_end = Returned"
    "length (ld_created demo_end) = 2" "map (map od_OBUID) (ld_sent demo_end) = [[1], [2]]" "queued demo_end = 0"
    by (auto simp: demo_end_def)
qed

lemma demo_reach: "load_reach demo_cfg (load_start demo_cfg [] 2 7) demo_end"
  using load_run_reach [OF demo_run(1) reach_refl] .

section \<open>Properties of the load generator\<close>

text \<open>
  C10: The counters of a finished run account for every event, under any interleaving of the
  goroutines: the events written and their two hashes are those of the frames on the connections,
  although the exclusive-or is maintained by a compare-and-swap loop; every attempt was written,
  counted as a failure, or left in a channel whose writer had stopped.
\<close>

theorem load_run_accounts:
  assumes "load_reach cfg (load_start cfg phases n runID) st" "0 < n" "0 < sint (lc_OBUs cfg)"
    and "ld_main st = Returned"
  shows "ls_written (ld_stats st) = of_nat (length (concat (ld_sent st)))
    \<and> ls_hashXOR (ld_stats st) = foldr (XOR) (map (\<lambda>d. EventIDFingerprint (od_EventID d)) (concat (ld_sent st))) 0
    \<and> ls_hashSum (ld_stats st) = sum_list (map (\<lambda>d. EventIDFingerprint (od_EventID d)) (concat (ld_sent st)))
    \<and> ls_attempted (ld_stats st) = ls_written (ld_stats st) + ls_failed (ld_stats st) + queued st
    \<and> ls_attempted (ld_stats st) = ls_sequence (ld_stats st)"
  using finished_stats [OF load_inv_reach [OF assms(1-3)] assms(4)] .

theorem load_run_accounts_witness:
  "ls_written (ld_stats demo_end) = of_nat (length (concat (ld_sent demo_end)))
   \<and> ls_attempted (ld_stats demo_end) = ls_written (ld_stats demo_end) + ls_failed (ld_stats demo_end)"
  using load_run_accounts [OF demo_reach _ _ demo_run(2)] demo_run(5) by (simp add: demo_cfg_def)

text \<open>
  C18: Every event on a connection has an identifier of its own, made of the seed, the run and a sequence
  number, an OBU among the configured ones and the configured padding, whatever the interleaving.
\<close>

theorem load_events_unique:
  assumes "load_reach cfg (load_start cfg phases n runID) st" "0 < n" "0 < sint (lc_OBUs cfg)"
    and "length (ld_created st) < 2 ^ 64"
  shows "distinct (map od_EventID (concat (ld_sent st)))
    \<and> (\<forall>d \<in> set (concat (ld_sent st)). \<exists>k \<le> length (ld_created st). od_EventID d = event_id cfg runID (k mod 2 ^ 64)
          \<and> 0 < sint (od_OBUID d) \<and> sint (od_OBUID d) \<le> sint (lc_OBUs cfg) \<and> od_Payload d = padding cfg)"
proof
  have inv: "load_inv cfg (lc_Mode cfg \<noteq> ''max'') runID n st" by (rule load_inv_reach [OF assms(1-3)])
  then show "distinct (map od_EventID (concat (ld_sent st)))" using assms(4) by (rule sent_distinct)
  show "\<forall>d \<in> set (concat (ld_sent st)). \<exists>k \<le> length (ld_created st). od_EventID d = event_id cfg runID (k mod 2 ^ 64)
      \<and> 0 < sint (od_OBUID d) \<and> sint (od_OBUID d) \<le> sint (lc_OBUs cfg) \<and> od_Payload d = padding cfg"
  proof
    fix d assume "d \<in> set (concat (ld_sent st))"
    then obtain k where k: "k < length (ld_created st)" "event_ok cfg runID k d" using sent_created [OF inv] by blast
    moreover have "unat (of_nat (Suc k) :: uint64) = Suc k mod 2 ^ 64"
      using unat_of_nat [where 'a = 64, of "Suc k"] by (simp del: of_nat_Suc)
    ultimately show "\<exists>k \<le> length (ld_created st). od_EventID d = event_id cfg runID (k mod 2 ^ 64)
        \<and> 0 < sint (od_OBUID d) \<and> sint (od_OBUID d) \<le> sint (lc_OBUs cfg) \<and> od_Payload d = padding cfg"
      by (intro exI [of _ "Suc k"]) (auto simp: event_ok_def)
  qed
qed

theorem load_events_unique_witness:
  "distinct (map od_EventID (concat (ld_sent demo_end))) \<and> map (map od_OBUID) (ld_sent demo_end) = [[1], [2]]"
  using load_events_unique [OF demo_reach] demo_run(3,4) by (simp add: demo_cfg_def)

text \<open>
  C19: The events of an OBU travel over one connection, in the order in which they were created, in
  both modes and under any interleaving.
\<close>

theorem load_obu_order:
  assumes "load_reach cfg (load_start cfg phases n runID) st" "0 < n" "0 < sint (lc_OBUs cfg)" "i < n"
  shows "subseq (filter (\<lambda>d. od_OBUID d = b) (ld_sent st ! i)) (filter (\<lambda>d. od_OBUID d = b) (ld_created st))
    \<and> (\<forall>d \<in> set (ld_sent st ! i). nat (sint (od_OBUID d) - 1) mod n = i)"
proof
  have inv: "load_inv cfg (lc_Mode cfg \<noteq> ''max'') runID n st" by (rule load_inv_reach [OF assms(1-3)])
  have lane: "subseq (ld_sent st ! i) (filter (\<lambda>d. connectionIndex n d = i) (ld_created st))"
    using lane_sent assms(4) inv by (auto simp: load_inv_def)
  have "subseq (filter (\<lambda>d. od_OBUID d = b) (ld_sent st ! i))
      (filter (\<lambda>d. od_OBUID d = b) (filter (\<lambda>d. connectionIndex n d = i) (ld_created st)))"
    using lane by (rule subseq_filter)
  moreover have "subseq (filter (\<lambda>d. od_OBUID d = b) (filter (\<lambda>d. connectionIndex n d = i) xs)) (filter (\<lambda>d. od_OBUID d = b) xs)" for xs
    by (rule subseq_filter) (rule subseq_filter_left)
  ultimately show "subseq (filter (\<lambda>d. od_OBUID d = b) (ld_sent st ! i)) (filter (\<lambda>d. od_OBUID d = b) (ld_created st))"
    using subseq_order.trans by blast
  show "\<forall>d \<in> set (ld_sent st ! i). nat (sint (od_OBUID d) - 1) mod n = i"
  proof
    fix d assume d: "d \<in> set (ld_sent st ! i)"
    then have "connectionIndex n d = i" using subseq_set [OF lane] by auto
    moreover have "d \<in> set (concat (ld_sent st))"
      using d assms(4) inv by (auto simp: load_inv_def load_shape_def intro: nth_mem)
    then have "0 < sint (od_OBUID d)" using sent_created [OF inv] by (auto simp: event_ok_def)
    then obtain m where "od_OBUID d = of_nat m" "0 < m" "m < 2 ^ 63" "sint (od_OBUID d) = int m"
      using obu_nat by blast
    ultimately show "nat (sint (od_OBUID d) - 1) mod n = i" using connectionIndex_nat [of d m n] by (simp add: nat_diff_distrib)
  qed
qed

theorem load_obu_order_witness:
  "subseq (filter (\<lambda>d. od_OBUID d = 2) (ld_sent demo_end ! 1)) (filter (\<lambda>d. od_OBUID d = 2) (ld_created demo_end))
   \<and> list_all (\<lambda>d. nat (sint (od_OBUID d) - 1) mod 2 = 1) (ld_sent demo_end ! 1)"
  using load_obu_order [OF demo_reach, of 1 2] by (simp add: demo_cfg_def list_all_iff)

text \<open>Round robin: the OBU of an event depends on its sequence number alone.\<close>

definition robin_ok :: "loadConfig \<Rightarrow> load_state \<Rightarrow> bool" where
  "robin_ok cfg st \<longleftrightarrow>
     (\<forall>k < length (ld_created st). od_OBUID (ld_created st ! k) = nextOBU cfg ((ld_stats st)\<lparr>ls_sequence := of_nat k\<rparr>))
     \<and> (\<forall>b p ps. ld_main st = Chosen b p ps \<longrightarrow> b = nextOBU cfg (ld_stats st))"

lemma robin_ok_cong:
  assumes "ld_created st' = ld_created st" "ls_sequence (ld_stats st') = ls_sequence (ld_stats st)"
    "ld_main st' = ld_main st \<or> (\<nexists>b p ps. ld_main st' = Chosen b p ps)" "robin_ok cfg st"
  shows "robin_ok cfg st'"
  using assms by (auto simp: robin_ok_def nextOBU_def)

lemma worker_step_fixed:
  assumes "worker_step cfg c i pc st = Some (pc', st')" "worker_ok l True pc"
  shows "ld_created st' = ld_created st \<and> ls_sequence (ld_stats st') = ls_sequence (ld_stats st)"
  using assms record_step_frame
  by (cases pc) (auto split: choice.splits if_splits list.splits prod.splits option.splits)

lemma robin_ok_step:
  assumes inv: "load_inv cfg True runID n st" and robin: "robin_ok cfg st" and act: "load_act cfg a st = Some st'"
    and obus: "0 < sint (lc_OBUs cfg)"
  shows "robin_ok cfg st'"
proof (cases a)
  case Cancel
  then show ?thesis using act robin by (auto simp: robin_ok_def)
next
  case (Work i c)
  then obtain pc' s where i: "i < length (ld_workers st)"
    and step: "worker_step cfg c i (ld_workers st ! i) st = Some (pc', s)"
    and st': "st' = s\<lparr>ld_workers := (ld_workers s)[i := pc']\<rparr>"
    using act by (auto split: if_splits)
  have fixed: "worker_ok (length (assignedOBUs cfg n i)) True (ld_workers st ! i)"
    using inv i by (auto simp: load_inv_def control_ok_def load_shape_def Let_def)
  have "ld_created s = ld_created st \<and> ls_sequence (ld_stats s) = ls_sequence (ld_stats st)"
    by (rule worker_step_fixed [OF step fixed])
  then show ?thesis using worker_step_frame [OF step] robin st' robin_ok_cong [of st' st cfg] by simp
next
  case (Main c)
  then obtain pc' s where step: "main_step cfg c (ld_main st) st = Some (pc', s)" and st': "st' = s\<lparr>ld_main := pc'\<rparr>"
    using act by auto
  have quiet: "robin_ok cfg st'" if "ld_created s = ld_created st" "ls_sequence (ld_stats s) = ls_sequence (ld_stats st)"
      "\<nexists>b p ps. pc' = Chosen b p ps"
    using that robin st' robin_ok_cong [of st' st cfg] by simp
  show ?thesis
  proof (cases "ld_main st")
    case (StartPhases ps)
    with step show ?thesis by (intro quiet) (cases ps; auto)+
  next
    case (Ticked p ps)
    with step robin st' show ?thesis by (auto simp: robin_ok_def)
  next
    case (Chosen b p ps)
    with step obtain d where ev: "new_event cfg c b st = Some (d, s)" and pc': "pc' = Attempt d p ps" by auto
    have created: "created_ok cfg runID st" "0 < sint b" "sint b \<le> sint (lc_OBUs cfg)"
      using inv Chosen by (auto simp: load_inv_def control_ok_def Let_def)
    have "od_OBUID d = b" using created_ok_new_event(2) [OF created(1) ev created(2,3)] .
    moreover have "b = nextOBU cfg (ld_stats st)" using robin Chosen by (auto simp: robin_ok_def)
    moreover have "ls_sequence (ld_stats st) = of_nat (length (ld_created st))" using created(1) by (simp add: created_ok_def)
    ultimately show ?thesis
      using robin new_event_frame [OF ev] st' pc'
      by (auto simp: robin_ok_def nextOBU_def nth_append less_Suc_eq)
  next
    case (Dropping r p ps)
    with step show ?thesis by (intro quiet) (auto simp: record_step_frame split: prod.splits option.splits)
  qed (rule quiet; use step in \<open>auto simp: count_attempt_def Let_def split: choice.splits if_splits\<close>)+
qed

text \<open>
  In fixed mode the OBUs take turns: the event with sequence number k + 1 is of OBU (k mod n) + 1 for
  n configured OBUs.
\<close>

theorem load_round_robin:
  assumes "load_reach cfg (load_start cfg phases n runID) st" "0 < n" "0 < sint (lc_OBUs cfg)"
    and "lc_Mode cfg \<noteq> ''max''" "k < length (ld_created st)" "k < 2 ^ 64"
  shows "od_OBUID (ld_created st ! k) = of_nat (k mod nat (sint (lc_OBUs cfg)) + 1)
    \<and> od_EventID (ld_created st ! k) = event_id cfg runID ((k + 1) mod 2 ^ 64)"
proof
  have inv: "load_inv cfg (lc_Mode cfg \<noteq> ''max'') runID n st" by (rule load_inv_reach [OF assms(1-3)])
  have "robin_ok cfg st" using assms(1)
  proof (induction rule: load_reach.induct)
    case reach_refl
    show ?case using assms(4) by (simp add: load_start_def runFixedRate_def robin_ok_def)
  next
    case (reach_step st' a st'')
    then show ?case using load_inv_reach [OF reach_step.hyps(1) assms(2,3)] assms(3,4) robin_ok_step by auto
  qed
  then have "od_OBUID (ld_created st ! k) = nextOBU cfg ((ld_stats st)\<lparr>ls_sequence := of_nat k\<rparr>)"
    using assms(5) by (simp add: robin_ok_def)
  then show "od_OBUID (ld_created st ! k) = of_nat (k mod nat (sint (lc_OBUs cfg)) + 1)"
    using nextOBU_range(1) [OF assms(3)] assms(6) by (simp add: unat_of_nat)
  have "unat (of_nat (Suc k) :: uint64) = (k + 1) mod 2 ^ 64"
    using unat_of_nat [where 'a = 64, of "Suc k"] by (simp del: of_nat_Suc)
  then show "od_EventID (ld_created st ! k) = event_id cfg runID ((k + 1) mod 2 ^ 64)"
    using inv assms(5) by (auto simp: load_inv_def created_ok_def event_ok_def)
qed

theorem load_round_robin_witness:
  "od_OBUID (ld_created demo_end ! 1) = 2 \<and> od_EventID (ld_created demo_end ! 1) = ''1-7-2''"
  using load_round_robin [OF demo_reach, of 1] demo_run(3)
  by (simp add: demo_cfg_def event_id_def go_eval show_nat.simps [of "Suc (Suc 0)"])

section \<open>Shutdown\<close>

text \<open>
  How far a goroutine is from its end once the context is cancelled, when it runs alone: a stale
  compare-and-swap costs one more round.
\<close>

fun record_rank :: "uint64 \<Rightarrow> record_pc \<Rightarrow> nat" where
  "record_rank h (AddWritten _) = 6"
| "record_rank h (AddSum _) = 5"
| "record_rank h (LoadXOR _) = 3"
| "record_rank h (SwapXOR _ old) = (if h = old then 2 else 4)"
| "record_rank h IncWritten = 1"
| "record_rank h AddFailed = 2"
| "record_rank h IncFailures = 1"

fun worker_rank :: "uint64 \<Rightarrow> worker_pc \<Rightarrow> nat" where
  "worker_rank h Finished = 0"
| "worker_rank h Receiving = 1"
| "worker_rank h (Checking _) = 1"
| "worker_rank h (Failing r) = record_rank h r"
| "worker_rank h (Succeeding r _) = record_rank h r + 1"
| "worker_rank h (Writing _ _) = 3"
| "worker_rank h (CountCreated _ _) = 4"
| "worker_rank h (Created _ _) = 5"
| "worker_rank h (Producing _) = 6"

fun main_rank :: "nat \<Rightarrow> uint64 \<Rightarrow> main_pc \<Rightarrow> nat" where
  "main_rank n h Returned = 0"
| "main_rank n h Waiting = 1"
| "main_rank n h (Closing k) = 2 + (n - k)"
| "main_rank n h (StartPhases ps) = (if ps = [] then n + 3 else n + 5)"
| "main_rank n h (EndPhase _) = n + 3"
| "main_rank n h (InPhase _ _) = n + 4"
| "main_rank n h (Dropping r _ _) = n + 4 + record_rank h r"
| "main_rank n h (Sending _ _ _) = n + 7"
| "main_rank n h (CountAttempt _ _ _) = n + 8"
| "main_rank n h (Attempt _ _ _) = n + 9"
| "main_rank n h (Chosen _ _ _) = n + 10"
| "main_rank n h (Ticked _ _) = n + 11"

lemma record_progress:
  assumes "record_step r st = (r', st')"
  shows "r' = Some q \<Longrightarrow> record_rank (ls_hashXOR (ld_stats st')) q < record_rank (ls_hashXOR (ld_stats st)) r"
    "0 < record_rank (ls_hashXOR (ld_stats st)) r"
  using assms by (cases "(r, st)" rule: record_step.cases; auto split: if_splits)+

lemma draw_event: "\<exists>d st'. new_event cfg (Draw 1 fzero fzero) b st = Some (d, st')"
proof -
  have "unit_draw fzero" by (simp add: unit_draw_def float_eval)
  then show ?thesis by (simp add: new_event_def case_prod_beta Let_def)
qed

lemma worker_progress:
  assumes "ld_cancelled st" "pc \<noteq> Finished"
  shows "\<exists>c pc' st'. worker_step cfg c i pc st = Some (pc', st') \<and> ld_cancelled st'
    \<and> worker_rank (ls_hashXOR (ld_stats st')) pc' < worker_rank (ls_hashXOR (ld_stats st)) pc"
proof (cases pc)
  case Receiving
  then show ?thesis using assms by (intro exI [of _ CtxDone]) auto
next
  case (Producing k)
  obtain d st' where ev: "new_event cfg (Draw 1 fzero fzero) (assignedOBUs cfg (length (ld_workers st)) i ! k) st = Some (d, st')"
    using draw_event by blast
  then show ?thesis using assms Producing new_event_frame [OF ev]
    by (intro exI [of _ "Draw 1 fzero fzero"]) (auto simp: Let_def)
next
  case (Writing d r)
  then show ?thesis using assms by (intro exI [of _ WriteError]) auto
next
  case (Succeeding r resume)
  obtain r' st' where r: "record_step r st = (r', st')" by (cases "record_step r st") auto
  show ?thesis using assms Succeeding r record_progress [OF r] record_step_frame(1) [OF r]
    by (cases r'; cases resume) auto
next
  case (Failing r)
  obtain r' st' where r: "record_step r st = (r', st')" by (cases "record_step r st") auto
  show ?thesis using assms Failing r record_progress [OF r] record_step_frame(1) [OF r] by (cases r') auto
qed (use assms in \<open>auto simp: count_attempt_def\<close>)

lemma load_run_append: "load_run cfg (as @ bs) st = Option.bind (load_run cfg as st) (load_run cfg bs)"
  by (induction as arbitrary: st) (auto split: bind_splits)

lemma worker_finishes:
  assumes "ld_cancelled st" "i < length (ld_workers st)"
  shows "\<exists>as st'. load_run cfg as st = Some st' \<and> ld_cancelled st' \<and> ld_main st' = ld_main st
    \<and> ld_workers st' = (ld_workers st)[i := Finished]"
  using assms
proof (induction "worker_rank (ls_hashXOR (ld_stats st)) (ld_workers st ! i)" arbitrary: st rule: less_induct)
  case less
  show ?case
  proof (cases "ld_workers st ! i = Finished")
    case True
    have "(ld_workers st)[i := Finished] = ld_workers st" using True by (metis list_update_id)
    then show ?thesis using less.prems by (intro exI [of _ "[]"]) simp
  next
    case False
    from worker_progress [OF less.prems(1) this]
    obtain c pc' s where step: "worker_step cfg c i (ld_workers st ! i) st = Some (pc', s)" "ld_cancelled s"
      and rank: "worker_rank (ls_hashXOR (ld_stats s)) pc' < worker_rank (ls_hashXOR (ld_stats st)) (ld_workers st ! i)"
      by blast
    let ?s = "s\<lparr>ld_workers := (ld_workers s)[i := pc']\<rparr>"
    have frame: "ld_main s = ld_main st" "ld_workers s = ld_workers st" using worker_step_frame [OF step(1)] by auto
    have "\<exists>as st'. load_run cfg as ?s = Some st' \<and> ld_cancelled st' \<and> ld_main st' = ld_main ?s
        \<and> ld_workers st' = (ld_workers ?s)[i := Finished]"
      using less.hyps [of ?s] rank step(2) frame less.prems(2) by simp
    then obtain as st' where "load_run cfg as ?s = Some st'" "ld_cancelled st'" "ld_main st' = ld_main st"
      "ld_workers st' = (ld_workers st)[i := Finished]"
      using frame by auto
    then show ?thesis using step(1) less.prems(2) by (intro exI [of _ "Work i c # as"]) simp
  qed
qed

lemma workers_finish:
  assumes "ld_cancelled st" "k \<le> length (ld_workers st)"
  shows "\<exists>as st'. load_run cfg as st = Some st' \<and> ld_cancelled st' \<and> ld_main st' = ld_main st
    \<and> length (ld_workers st') = length (ld_workers st) \<and> (\<forall>i < k. ld_workers st' ! i = Finished)"
  using assms(2)
proof (induction k)
  case 0
  show ?case using assms(1) by (intro exI [of _ "[]"]) simp
next
  case (Suc k)
  then obtain as s where s: "load_run cfg as st = Some s" "ld_cancelled s" "ld_main s = ld_main st"
    "length (ld_workers s) = length (ld_workers st)" "\<forall>i < k. ld_workers s ! i = Finished" by auto
  moreover obtain bs st' where "load_run cfg bs s = Some st'" "ld_cancelled st'" "ld_main st' = ld_main s"
    "ld_workers st' = (ld_workers s)[k := Finished]"
    using worker_finishes [of s k cfg] s Suc.prems by auto
  ultimately show ?case
    using Suc.prems by (intro exI [of _ "as @ bs"] exI [of _ st']) (auto simp: load_run_append nth_list_update less_Suc_eq)
qed

lemma main_progress:
  assumes "ld_cancelled st" "list_all (\<lambda>w. w = Finished) (ld_workers st)" "pc \<noteq> Returned"
  shows "\<exists>c pc' st'. main_step cfg c pc st = Some (pc', st') \<and> ld_cancelled st' \<and> ld_workers st' = ld_workers st
    \<and> length (ld_jobs st') = length (ld_jobs st)
    \<and> main_rank (length (ld_jobs st)) (ls_hashXOR (ld_stats st')) pc' < main_rank (length (ld_jobs st)) (ls_hashXOR (ld_stats st)) pc"
proof (cases pc)
  case (StartPhases ps)
  then show ?thesis using assms by (cases ps) auto
next
  case (InPhase p ps)
  then show ?thesis using assms by (intro exI [of _ CtxDone]) auto
next
  case (Chosen b p ps)
  obtain d st' where ev: "new_event cfg (Draw 1 fzero fzero) b st = Some (d, st')" using draw_event by blast
  then show ?thesis using assms Chosen new_event_frame [OF ev]
    by (intro exI [of _ "Draw 1 fzero fzero"]) auto
next
  case (Dropping r p ps)
  obtain r' st' where r: "record_step r st = (r', st')" by (cases "record_step r st") auto
  show ?thesis using assms Dropping r record_progress [OF r] record_step_frame [OF r] by (cases r') auto
qed (use assms in \<open>auto simp: count_attempt_def Let_def\<close>)

lemma main_finishes:
  assumes "ld_cancelled st" "list_all (\<lambda>w. w = Finished) (ld_workers st)"
  shows "\<exists>as st'. load_run cfg as st = Some st' \<and> ld_main st' = Returned"
  using assms
proof (induction "main_rank (length (ld_jobs st)) (ls_hashXOR (ld_stats st)) (ld_main st)" arbitrary: st rule: less_induct)
  case less
  show ?case
  proof (cases "ld_main st = Returned")
    case True
    then show ?thesis by (intro exI [of _ "[]"]) simp
  next
    case False
    from main_progress [OF less.prems this]
    obtain c pc' s where step: "main_step cfg c (ld_main st) st = Some (pc', s)" "ld_cancelled s"
        "ld_workers s = ld_workers st" "length (ld_jobs s) = length (ld_jobs st)"
      and rank: "main_rank (length (ld_jobs st)) (ls_hashXOR (ld_stats s)) pc'
        < main_rank (length (ld_jobs st)) (ls_hashXOR (ld_stats st)) (ld_main st)"
      by blast
    then obtain as st' where "load_run cfg as (s\<lparr>ld_main := pc'\<rparr>) = Some st'" "ld_main st' = Returned"
      using less.hyps [of "s\<lparr>ld_main := pc'\<rparr>"] less.prems(2) by auto
    then show ?thesis using step(1) by (intro exI [of _ "Main c # as"]) simp
  qed
qed

lemma cancel_finishes:
  "\<exists>as st'. load_run cfg (Cancel # as) st = Some st' \<and> ld_main st' = Returned"
proof -
  let ?st = "st\<lparr>ld_cancelled := True\<rparr>"
  obtain as s where s: "load_run cfg as ?st = Some s" "ld_cancelled s" "length (ld_workers s) = length (ld_workers ?st)"
    "\<forall>i < length (ld_workers ?st). ld_workers s ! i = Finished"
    using workers_finish [of ?st "length (ld_workers ?st)" cfg] by auto
  then obtain bs st' where "load_run cfg bs s = Some st'" "ld_main st' = Returned"
    using main_finishes [of s cfg] by (auto simp: list_all_length)
  then show ?thesis using s by (intro exI [of _ "as @ bs"] exI [of _ st']) (simp add: load_run_append)
qed

lemma run_to_end: "\<exists>as st'. load_run cfg as st = Some st' \<and> ld_main st' = Returned"
proof -
  obtain as st' where "load_run cfg (Cancel # as) st = Some st'" "ld_main st' = Returned"
    using cancel_finishes by blast
  then show ?thesis by blast
qed

text \<open>
  No deadlock: whatever has happened, once the context is cancelled the run can be brought to its
  end, even if every further write fails.
\<close>

theorem load_can_finish:
  "\<exists>as st'. load_run cfg (Cancel # as) st = Some st' \<and> ld_main st' = Returned"
  by (rule cancel_finishes)

section \<open>Opening and closing\<close>

lemma closeConnections_gauge:
  "oc_activeConnections (closeConnections lib conns st) = oc_activeConnections st - int (length (filter (\<lambda>c. c \<noteq> None) conns))"
  unfolding closeConnections_def
  by (induction conns arbitrary: st) (auto simp: closeConnection_def split: option.splits)

lemma closeConnections_all:
  "None \<notin> set conns \<Longrightarrow>
    oc_activeConnections (closeConnections lib conns st) = oc_activeConnections st - int (length conns)"
  using closeConnections_gauge [of lib conns st] filter_True [of conns "\<lambda>c. c \<noteq> None"] by metis

lemma dial_from_gauge:
  "None \<notin> set conns \<Longrightarrow> dial_from lib ep i k conns st = (res, st') \<Longrightarrow>
    (case res of
       Inl err \<Rightarrow> oc_activeConnections st' = oc_activeConnections st - int (length conns)
     | Inr conns' \<Rightarrow> length conns' = length conns + k \<and> None \<notin> set conns'
         \<and> oc_activeConnections st' = oc_activeConnections st + int k)"
proof (induction k arbitrary: i conns st)
  case (Suc k)
  obtain r w where dial: "dl_Dial lib ep (oc_world st) = (r, w)" by (cases "dl_Dial lib ep (oc_world st)") auto
  show ?case
  proof (cases r)
    case (Inl err)
    then show ?thesis using Suc.prems dial closeConnections_all [of conns lib "st\<lparr>oc_world := w\<rparr>"] by auto
  next
    case (Inr c)
    then show ?thesis using Suc.prems dial Suc.IH [of "conns @ [Some c]" "i + 1"] by (fastforce split: sum.splits)
  qed
qed auto

text \<open>
  Dialling is all or nothing: on an error every connection that was opened is closed and the gauge
  is back; otherwise there are as many connections as configured, the gauge counts them, and closing
  them brings it back.
\<close>

theorem dialConnections_gauge:
  "case dialConnections lib cfg st of
     (Inl err, st') \<Rightarrow> oc_activeConnections st' = oc_activeConnections st
   | (Inr conns, st') \<Rightarrow>
       length conns = nat (sint (lc_Connections cfg)) \<and> None \<notin> set conns
       \<and> oc_activeConnections st' = oc_activeConnections st + int (length conns)
       \<and> oc_activeConnections (closeConnections lib conns st') = oc_activeConnections st"
proof -
  obtain res st' where dial: "dialConnections lib cfg st = (res, st')" by (cases "dialConnections lib cfg st") auto
  from dial_from_gauge [of "[]", OF _ dial [unfolded dialConnections_def]]
  show ?thesis using dial closeConnections_all [of _ lib st'] by (cases res) auto
qed

end
