(* ===== verification/Go_Math.thy ===== *)
theory Go_Math
  imports Load_Config
begin

text \<open>
  Package \<open>math\<close> as the benchmark uses it, and exact results: integers below 2^53 and their fractions by
  powers of two are values of \<open>float64\<close>, \<open>math.Ceil\<close> and the conversion to an integer are exact on them, and a
  product that lies between such values is rounded to something between them.
\<close>

section \<open>Definitions\<close>

text \<open>
  \<open>math.Ceil\<close>: zeros, infinities and NaN are returned as they are; a value with a non-negative exponent
  is an integer.
\<close>

definition math_Ceil :: "float64 \<Rightarrow> float64" where
  "math_Ceil x =
     (let m = sig_of (mag x); e = exp_of (mag x); d = 2 ^ nat (- e)
      in if \<not> isFinite x \<or> mag x = 0 \<or> 0 \<le> e then x
         else mkf (neg x) (round_mag (m div d + (if \<not> neg x \<and> m mod d \<noteq> 0 then 1 else 0)) 0))"

text \<open>\<open>math.Round\<close>: halves are rounded away from zero.\<close>

definition math_Round :: "float64 \<Rightarrow> float64" where
  "math_Round x =
     (let m = sig_of (mag x); e = exp_of (mag x); d = 2 ^ nat (- e)
      in if \<not> isFinite x \<or> mag x = 0 \<or> 0 \<le> e then x
         else mkf (neg x) (round_mag ((2 * m + d) div (2 * d)) 0))"

lemmas math_eval [float_eval] = math_Ceil_def math_Round_def

section \<open>Exact values\<close>

lemma dyadic_representable:
  assumes "0 < m" "m < 2 ^ 53" "- 1000 \<le> e" "e \<le> 900"
  shows "\<exists>n < inf_mag. mval n = real m * 2 powi e"
proof -
  define k where "k = 53 - nbits m"
  have "nbits m \<le> 53"
  proof (rule ccontr)
    assume "\<not> nbits m \<le> 53"
    then have "(2 :: nat) ^ 53 \<le> 2 ^ (nbits m - 1)" by (intro power_increasing) auto
    then show False using nbits_bounds [OF assms(1)] assms(2) by linarith
  qed
  moreover have "0 < nbits m" using assms(1) nbits_bounds [OF assms(1)] by (cases "nbits m") auto
  ultimately have k: "nbits m + k = 53" "nbits m - 1 + k = 52" "k \<le> 52" by (auto simp: k_def)
  have "(2 :: nat) ^ (nbits m - 1) * 2 ^ k \<le> m * 2 ^ k" "m * 2 ^ k < 2 ^ nbits m * 2 ^ k"
    using nbits_bounds [OF assms(1)] by simp_all
  then have q: "2 ^ 52 \<le> m * 2 ^ k" "m * 2 ^ k < 2 ^ 53" unfolding power_add [symmetric] k(1,2) by simp_all
  define E where "E = nat (e - int k + 1074)"
  have E: "int E = e - int k + 1074" "E < 2000" using assms(3,4) k(3) by (auto simp: E_def)
  have "mval (E * 2 ^ 52 + m * 2 ^ k) = real (m * 2 ^ k) * 2 powi (e - int k)"
    using q E(1) assms(3) k(3) by (intro mval_compose) simp_all
  also have "\<dots> = real m * (2 powi int k * 2 powi (e - int k))" by (simp add: power_int_of_nat mult.assoc)
  also have "2 powi int k * 2 powi (e - int k) = (2 :: real) powi e" by (subst power_int_add [symmetric]) simp_all
  finally have "mval (E * 2 ^ 52 + m * 2 ^ k) = real m * 2 powi e" .
  moreover have "E * 2 ^ 52 + m * 2 ^ k < inf_mag" using E(2) q(2) by (simp add: inf_mag_def)
  ultimately show ?thesis by blast
qed

lemma round_mag_dyadic:
  assumes "m < 2 ^ 53" "- 1000 \<le> e" "e \<le> 900"
  shows "mval (round_mag m e) = real m * 2 powi e" "round_mag m e < inf_mag"
proof -
  have "\<exists>n < inf_mag. mval n = real m * 2 powi e"
    using dyadic_representable [OF _ assms] inf_mag_pos by (cases "m = 0") auto
  then obtain n where "n < inf_mag" "mval n = real m * 2 powi e" by blast
  then show "mval (round_mag m e) = real m * 2 powi e" "round_mag m e < inf_mag"
    using round_mag_exact [of m e n] by auto
qed

lemma float_of_nat:
  assumes "n < 2 ^ 53"
  shows "isFinite (float_of_int (int n))" "neg (float_of_int (int n)) = False" "mval (mag (float_of_int (int n))) = real n"
  using round_mag_dyadic [OF assms, of 0] by (simp_all add: float_of_int_def isFinite_def)

text \<open>A quotient is rounded within any two representable numbers around it.\<close>

lemma sig_of_pos: assumes "0 < n" shows "0 < sig_of n"
proof (rule ccontr)
  assume "\<not> 0 < sig_of n"
  then have "mval n = 0" by (simp add: mval_def)
  then have "mval n = mval 0" by simp
  with assms show False by (simp only: mval_eq_iff)
qed

lemma fdiv_between:
  assumes x: "isFinite x" "\<not> neg x" "0 < mag x" and y: "isFinite y" "\<not> neg y" "0 < mag y"
    and q: "mval a \<le> mval (mag x) / mval (mag y)" "mval (mag x) / mval (mag y) \<le> mval b" "b < inf_mag"
  shows "isFinite (fdiv x y)" "\<not> neg (fdiv x y)" "a \<le> mag (fdiv x y)" "mag (fdiv x y) \<le> b"
proof -
  define r where "r = round_quot (sig_of (mag x)) (sig_of (mag y)) (exp_of (mag x) - exp_of (mag y))"
  have v: "real (sig_of (mag x)) / real (sig_of (mag y)) * 2 powi (exp_of (mag x) - exp_of (mag y)) = mval (mag x) / mval (mag y)"
    by (simp add: mval_def power_int_diff)
  have f: "fdiv x y = mkf False r"
    using x y isFinite_not by (simp add: fdiv_def r_def Let_def)
  have "mval a \<le> mval b" using q(1,2) by linarith
  then have "a \<le> inf_mag" using q(3) by (simp add: mval_le_iff)
  then have "a \<le> r" unfolding r_def using q(1) by (intro round_quot_lower sig_of_pos x(3) y(3)) (simp_all only: v)
  moreover have "r \<le> b" unfolding r_def using q(2) by (intro round_quot_upper sig_of_pos x(3) y(3)) (simp only: v)
  moreover have "b < 2 ^ 63" using q(3) inf_mag_less by linarith
  ultimately show "isFinite (fdiv x y)" "\<not> neg (fdiv x y)" "a \<le> mag (fdiv x y)" "mag (fdiv x y) \<le> b"
    unfolding f using q(3) by (simp_all add: isFinite_def)
qed

section \<open>Conversions\<close>

lemma mval_negative_exp: "exp_of n < 0 \<Longrightarrow> mval n = real (sig_of n) / real (2 ^ nat (- exp_of n))"
  by (simp add: mval_def power_int_def field_simps)

lemma mval_nonneg_exp: "0 \<le> exp_of n \<Longrightarrow> mval n = real (sig_of n * 2 ^ nat (exp_of n))"
  by (simp add: mval_def power_int_def)

lemma ftrunc_floor: assumes "\<not> neg x" shows "ftrunc x = \<lfloor>mval (mag x)\<rfloor>"
proof (cases "0 \<le> exp_of (mag x)")
  case True
  then show ?thesis unfolding mval_nonneg_exp [OF True] floor_of_nat using assms by (simp add: ftrunc_def)
next
  case False
  then have "exp_of (mag x) < 0" by simp
  from mval_negative_exp [OF this] show ?thesis
    using assms False by (simp only: floor_divide_of_nat_eq) (simp add: ftrunc_def)
qed

lemma ceil_div:
  assumes "(K - 1) * d < m \<or> K = 0" "m \<le> K * d" "0 < (d :: nat)"
  shows "m div d + (if m mod d \<noteq> 0 then 1 else 0) = K"
proof -
  define q r where "q = m div d" and "r = m mod d"
  have m: "m = q * d + r" "r < d" using assms(3) by (simp_all add: q_def r_def)
  have "q \<le> K" using assms(2,3) m by (metis add_leD1 mult_le_cancel2)
  moreover have "q < K" if "r \<noteq> 0"
  proof (rule ccontr)
    assume "\<not> q < K"
    then have "K * d \<le> q * d" by simp
    then show False using assms(2) m(1) that by linarith
  qed
  moreover have "K - 1 \<le> q" if "K \<noteq> 0"
  proof (rule ccontr)
    assume "\<not> K - 1 \<le> q"
    then have "(q + 1) * d \<le> (K - 1) * d" by (intro mult_right_mono) simp_all
    then show False using assms(1) m that by simp
  qed
  moreover have "K - 1 < q" if "r = 0" "K \<noteq> 0"
  proof -
    have "(K - 1) * d < q * d" using assms(1) m(1) that by simp
    then show ?thesis by simp
  qed
  ultimately show ?thesis unfolding q_def [symmetric] r_def [symmetric] by (cases "r = 0"; cases "K = 0") auto
qed

lemma math_Ceil_exact:
  assumes x: "isFinite x" "\<not> neg x" and K: "real K - 1 < mval (mag x)" "mval (mag x) \<le> real K" "K < 2 ^ 53"
  shows "isFinite (math_Ceil x) \<and> \<not> neg (math_Ceil x) \<and> mval (mag (math_Ceil x)) = real K"
proof (cases "mag x = 0 \<or> 0 \<le> exp_of (mag x)")
  case True
  then have same: "math_Ceil x = x" by (auto simp: math_Ceil_def Let_def)
  from True have "\<exists>j. mval (mag x) = real j"
  proof
    assume "mag x = 0"
    then show ?thesis by (intro exI [of _ 0]) simp
  next
    assume "0 \<le> exp_of (mag x)"
    from mval_nonneg_exp [OF this] show ?thesis by blast
  qed
  then obtain j where "mval (mag x) = real j" by blast
  with K have "j = K" by linarith
  then show ?thesis using same x \<open>mval (mag x) = real j\<close> by simp
next
  case False
  define d :: nat where "d = 2 ^ nat (- exp_of (mag x))"
  have d: "0 < d" "mval (mag x) = real (sig_of (mag x)) / real d"
    using False mval_negative_exp [of "mag x"] by (simp_all add: d_def)
  have "real (sig_of (mag x)) \<le> real K * real d" "(real K - 1) * real d < real (sig_of (mag x))"
    using K(1,2) d by (simp_all add: field_simps)
  moreover have "real (K - 1) = real K - 1" if "K \<noteq> 0" using that by (cases K) simp_all
  ultimately have "sig_of (mag x) \<le> K * d" "(K - 1) * d < sig_of (mag x) \<or> K = 0"
    by (simp_all only: of_nat_mult [symmetric] of_nat_le_iff of_nat_less_iff) (metis of_nat_less_iff of_nat_mult)
  from ceil_div [OF this(2,1) d(1)]
  have "math_Ceil x = mkf False (round_mag K 0)" using False x by (simp add: math_Ceil_def d_def Let_def)
  then show ?thesis using round_mag_dyadic [OF K(3), of 0] by (simp add: isFinite_def)
qed

lemma float_to_int64_exact:
  assumes "isFinite x" "\<not> neg x" "mval (mag x) = real K" "K < 2 ^ 53"
  shows "float_to_int64 conv x = word_of_int (int K)"
  using assms by (simp add: float_to_int64_def ftrunc_floor)

section \<open>Ranks\<close>

lemma percent_ceiling:
  assumes K: "K = (p * n + 99) div 100" and n: "0 < n" and p: "0 < p" "p \<le> (100 :: nat)"
  shows "0 < K" "K \<le> n" "real p * real n \<le> 100 * real K" "100 * (real K - 1) + 1 \<le> real p * real n"
proof -
  have "100 * K \<le> p * n + 99" "p * n + 99 < 100 * K + 100" unfolding K by linarith+
  then have bounds: "100 * K < p * n + 100" "p * n \<le> 100 * K" by linarith+
  have "p * n \<le> 100 * n" using p(2) by simp
  then show "K \<le> n" using bounds(1) by linarith
  have "0 < p * n" using n p(1) by simp
  then show "0 < K" using bounds(2) by linarith
  have "real (p * n) \<le> real (100 * K)" using bounds(2) by (simp only: of_nat_le_iff)
  then show "real p * real n \<le> 100 * real K" by simp
  have "100 * K + 1 \<le> p * n + 100" using bounds(1) by linarith
  then have "real (100 * K + 1) \<le> real (p * n + 100)" by (simp only: of_nat_le_iff)
  then show "100 * (real K - 1) + 1 \<le> real p * real n" by simp
qed

text \<open>A product strictly above \<open>K - 1\<close> and at most \<open>K\<close>, by a margin that no rounding can cross.\<close>

lemma rounded_between:
  assumes m: "real K - 1 + 1 / 128 \<le> real m * 2 powi e" "real m * 2 powi e \<le> real K" and K: "0 < K" "K \<le> 2 ^ 40"
  shows "round_mag m e < inf_mag" "real K - 1 < mval (round_mag m e)" "mval (round_mag m e) \<le> real K"
proof -
  have K53: "K < 2 ^ 53" using K(2) by (rule le_less_trans) simp
  note top = round_mag_dyadic [OF K53, of 0, simplified]
  have "round_mag m e \<le> round_mag K 0"
    using m(2) top by (intro round_mag_upper) simp_all
  then show "round_mag m e < inf_mag" using top(2) by linarith
  show "mval (round_mag m e) \<le> real K"
    using mval_le_iff [THEN iffD2, OF \<open>round_mag m e \<le> round_mag K 0\<close>] top(1) by simp
  define j where "j = 128 * (K - 1) + 1"
  have "j < 2 ^ 53" using K by (simp add: j_def)
  note low = round_mag_dyadic [OF this, of "- 7", simplified]
  have j: "real j * 2 powi (- 7) = real K - 1 + 1 / 128"
    using K(1) by (simp add: j_def of_nat_diff power_int_minus field_simps)
  have "round_mag j (- 7) \<le> round_mag m e"
    using m(1) low j by (intro round_mag_lower) simp_all
  from mval_le_iff [THEN iffD2, OF this] show "real K - 1 < mval (round_mag m e)" using low(1) j by simp
qed

text \<open>
  A constant that is at most 2^-50 below a percentage, times a count of at most 2^40: the rounded product lies in
  the same unit interval as the exact one, so its ceiling is exact.
\<close>

definition percent_const :: "nat \<Rightarrow> float64 \<Rightarrow> bool" where
  "percent_const p q \<longleftrightarrow> isFinite q \<and> \<not> neg q \<and> mval (mag q) \<le> real p / 100 \<and> real p / 100 - 1 / 2 ^ 50 \<le> mval (mag q)"

lemma rank_between:
  assumes q: "percent_const p q" and n: "n \<le> 2 ^ 40" "0 < n" and p: "0 < p" "p \<le> 100" and K: "K = (p * n + 99) div 100"
  defines "r \<equiv> fmul q (float_of_int (int n))"
  shows "isFinite r" "\<not> neg r" "real K - 1 < mval (mag r)" "mval (mag r) \<le> real K" "K \<le> 2 ^ 40"
proof -
  note ceil = percent_ceiling [OF K n(2) p]
  show K40: "K \<le> 2 ^ 40" using ceil(2) n(1) by (rule order_trans)
  have N: "n < 2 ^ 53" using n(1) by (rule le_less_trans) simp
  have q': "isFinite q" "\<not> neg q" "mval (mag q) \<le> real p / 100" "real p / 100 - 1 / 2 ^ 50 \<le> mval (mag q)"
    using q by (simp_all add: percent_const_def)
  obtain m e where m: "real m * 2 powi e = mval (mag q) * real n" and f: "r = mkf False (round_mag m e)"
    unfolding r_def using fmul_finite [OF q'(1) float_of_nat(1) [OF N]] q'(2) float_of_nat(2,3) [OF N] by metis
  have "real n \<le> real (2 ^ 40)" using n(1) by (simp only: of_nat_le_iff)
  then have small: "1 / 2 ^ 50 * real n \<le> 1 / 1024" by simp
  have "mval (mag q) * real n \<le> real p / 100 * real n" using q'(3) by (intro mult_right_mono) simp_all
  then have up: "real m * 2 powi e \<le> real K" unfolding m using ceil(3) by simp
  have "(real p / 100 - 1 / 2 ^ 50) * real n \<le> mval (mag q) * real n" using q'(4) by (intro mult_right_mono) simp_all
  then have low: "real K - 1 + 1 / 128 \<le> real m * 2 powi e"
    unfolding m left_diff_distrib using ceil(4) small by simp
  note b = rounded_between [OF low up ceil(1) K40]
  then show "isFinite r" "\<not> neg r" "real K - 1 < mval (mag r)" "mval (mag r) \<le> real K"
    unfolding f by (simp_all add: isFinite_def)
qed

lemma rank_exact:
  assumes "percent_const p q" "n \<le> 2 ^ 40" "0 < n" "0 < p" "p \<le> 100"
  shows "float_to_int64 conv (math_Ceil (fmul q (float_of_int (int n)))) = word_of_int (int ((p * n + 99) div 100))"
proof -
  note r = rank_between [OF assms refl]
  have K53: "(p * n + 99) div 100 < 2 ^ 53" using r(5) by (rule le_less_trans) simp
  from math_Ceil_exact [OF r(1-4) K53] show ?thesis using K53 by (intro float_to_int64_exact) simp_all
qed

text \<open>A count reaches the rounded rank exactly if it reaches the percentage.\<close>

lemma rank_reached:
  assumes "percent_const p q" "n \<le> 2 ^ 40" "0 < n" "0 < p" "p \<le> 100" and c: "c \<le> n"
  shows "fle (fmul q (float_of_int (int n))) (float_of_int (int c)) \<longleftrightarrow> p * n \<le> 100 * c"
proof -
  define K where "K = (p * n + 99) div 100"
  note r = rank_between [OF assms(1-5) K_def]
  have C: "c < 2 ^ 53" using c assms(2) by (intro le_less_trans [of c "2 ^ 40"]) simp_all
  have "fle (fmul q (float_of_int (int n))) (float_of_int (int c)) \<longleftrightarrow> mval (mag (fmul q (float_of_int (int n)))) \<le> real c"
    using r(1,2) float_of_nat [OF C] by (simp add: fle_iff fl_def)
  also have "\<dots> \<longleftrightarrow> K \<le> c" using r(3,4) by linarith
  also have "\<dots> \<longleftrightarrow> p * n \<le> 100 * c" unfolding K_def by linarith
  finally show ?thesis .
qed

end
