(* ===== verification/Distance_Bounds.thy ===== *)
theory Distance_Bounds
  imports Calc_Service
begin

text \<open>
  How large distances get. \<open>upto_pow k x\<close> says that a \<open>float64\<close> is finite and at most 2^k in magnitude; the
  lemmas follow the bound through the operations of \<open>calcDist\<close>, roundings included. On coordinates up to
  2^500 no intermediate result overflows, so every distance is finite and not negative.
\<close>

definition upto_pow :: "nat \<Rightarrow> float64 \<Rightarrow> bool" where
  "upto_pow k x \<longleftrightarrow> isFinite x \<and> \<bar>fl x\<bar> \<le> 2 ^ k"

section \<open>Operations\<close>

lemma mval_power: "mval ((1023 + k) * 2 ^ 52) = 2 ^ k"
proof -
  have "mval ((1023 + k) * 2 ^ 52) = real (2 ^ 52) * 2 powi (int k - 52)"
    by (rule mval_compose) simp_all
  also have "\<dots> = 2 powi (52 + (int k - 52))" by (subst power_int_add) simp_all
  finally show ?thesis by simp
qed

lemma abs_fl: "\<bar>fl x\<bar> = mval (mag x)"
  using mval_nonneg by (simp add: fl_def)

lemma upto_pow_round:
  assumes "real m * 2 powi e \<le> 2 ^ k" "k < 1024" shows "upto_pow k (mkf s (round_mag m e))"
proof -
  have le: "round_mag m e \<le> (1023 + k) * 2 ^ 52" using assms(1) by (intro round_mag_upper) (simp only: mval_power)
  also have "\<dots> < inf_mag" using assms(2) by (simp add: inf_mag_def)
  finally have "isFinite (mkf s (round_mag m e))" by (simp add: isFinite_def)
  moreover have "mval (round_mag m e) \<le> 2 ^ k" using le mval_power [of k] by (metis mval_le_iff)
  ultimately show ?thesis by (simp add: upto_pow_def abs_fl)
qed

lemma upto_pow_fneg [simp]: "upto_pow k (fneg x) \<longleftrightarrow> upto_pow k x"
  by (simp add: upto_pow_def)

lemma upto_pow_fadd: assumes "upto_pow k x" "upto_pow k y" "k < 1023" shows "upto_pow (k + 1) (fadd x y)"
proof -
  obtain m e s where f: "real m * 2 powi e = \<bar>fl x + fl y\<bar>" "fadd x y = mkf s (round_mag m e)"
    using fadd_finite assms by (metis upto_pow_def)
  have "\<bar>fl x + fl y\<bar> \<le> 2 ^ k + 2 ^ k"
    using assms abs_triangle_ineq [of "fl x" "fl y"] by (simp only: upto_pow_def) linarith
  then have "\<bar>fl x + fl y\<bar> \<le> 2 ^ (k + 1)" by simp
  then show ?thesis using f assms(3) by (simp add: upto_pow_round)
qed

lemma rdiv_double: "0 < p \<Longrightarrow> rdiv p (2 ^ (nbits p - 53)) * 2 ^ (nbits p - 53) \<le> 2 * p"
proof -
  assume p: "0 < p"
  let ?d = "2 ^ (nbits p - 53) :: nat"
  have "?d \<le> 2 ^ (nbits p - 1)" by (intro power_increasing) auto
  then have d: "?d \<le> p" using nbits_bounds [OF p] by linarith
  have "p \<le> (p div ?d + 1) * ?d"
  proof -
    have "p mod ?d \<le> ?d" by (intro less_imp_le mod_less_divisor) simp
    then show ?thesis using div_mult_mod_eq [of p ?d] unfolding distrib_right mult_1 by linarith
  qed
  then have "rdiv p ?d \<le> p div ?d + 1" by (intro rdiv_upper) simp_all
  then have "rdiv p ?d * ?d \<le> (p div ?d + 1) * ?d" by (rule mult_right_mono) simp
  also have "\<dots> \<le> p + ?d" using div_times_less_eq_dividend [of p ?d] unfolding distrib_right mult_1 by linarith
  finally show ?thesis using d by linarith
qed

lemma upto_pow_fpow2: assumes "upto_pow k x" "2 * k < 1023" shows "upto_pow (2 * k + 1) (fpow2 x)"
proof (cases "mag x = 0")
  case True
  have "upto_pow (2 * k + 1) fzero" by (simp add: upto_pow_def) (simp add: isFinite_def mag_def fzero_def inf_mag_def)
  then show ?thesis using True by (simp add: fpow2_def isNaN_def)
next
  case False
  define p where "p = sig_of (mag x) * sig_of (mag x)"
  define r where "r = rdiv p (2 ^ (nbits p - 53)) * 2 ^ (nbits p - 53)"
  have "\<not> isNaN x" "\<not> isInf x" using assms(1) isFinite_not [of x] by (simp_all add: upto_pow_def)
  then have f: "fpow2 x = mkf False (round_mag r (2 * exp_of (mag x)))"
    using False unfolding fpow2_def Let_def p_def r_def by simp
  have "mval (mag x) \<noteq> 0" using False mval_eq_iff [of "mag x" 0] by simp
  then have "sig_of (mag x) \<noteq> 0" unfolding mval_def by auto
  then have "0 < p" by (simp add: p_def)
  then have "r \<le> 2 * p" unfolding r_def by (rule rdiv_double)
  then have "real r \<le> 2 * real p" by linarith
  then have "real r * 2 powi (2 * exp_of (mag x)) \<le> 2 * real p * 2 powi (2 * exp_of (mag x))"
    by (rule mult_right_mono) simp
  also have "\<dots> = 2 * (mval (mag x) * mval (mag x))"
  proof -
    have "(2 :: real) powi (2 * exp_of (mag x)) = 2 powi exp_of (mag x) * 2 powi exp_of (mag x)"
      by (simp only: mult_2 powi_split)
    then show ?thesis by (simp only: mval_def p_def of_nat_mult) (simp only: ac_simps)
  qed
  also have "\<dots> \<le> 2 * (2 ^ k * 2 ^ k)"
    using assms(1) mval_nonneg [of "mag x"] by (intro mult_left_mono mult_mono) (simp_all add: upto_pow_def abs_fl)
  also have "\<dots> = (2 :: real) ^ (2 * k + 1)" by (simp add: power_even_eq power2_eq_square)
  finally show ?thesis unfolding f using assms(2) by (intro upto_pow_round) simp_all
qed

lemma upto_pow_mono: "upto_pow k x \<Longrightarrow> k \<le> l \<Longrightarrow> upto_pow l x"
  by (auto simp: upto_pow_def intro: order.trans power_increasing)

text \<open>The distance of two points at most 2^500 away from the origin.\<close>

lemma calcDist_finite:
  assumes "upto_pow 500 x1" "upto_pow 500 y1" "upto_pow 500 x2" "upto_pow 500 y2"
  shows "isFinite (calcDist x1 y1 x2 y2)"
proof -
  have "upto_pow (500 + 1) (fsub x2 x1)" "upto_pow (500 + 1) (fsub y2 y1)"
    unfolding fsub_def using assms by (intro upto_pow_fadd; simp)+
  then have "upto_pow (2 * 501 + 1) (fpow2 (fsub x2 x1))" "upto_pow (2 * 501 + 1) (fpow2 (fsub y2 y1))"
    using upto_pow_fpow2 [of 501] by simp_all
  then have "upto_pow (2 * 501 + 1 + 1) (fadd (fpow2 (fsub x2 x1)) (fpow2 (fsub y2 y1)))" by (intro upto_pow_fadd) simp_all
  moreover have "fnonneg (fadd (fpow2 (fsub x2 x1)) (fpow2 (fsub y2 y1)))"
    using assms unfolding fsub_def
    by (intro fadd_nonneg fpow2_nonneg fadd_not_nan) (simp_all add: upto_pow_def)
  ultimately show ?thesis unfolding calcDist_def by (intro fsqrt_finite) (simp_all add: upto_pow_def)
qed

section \<open>Tracks\<close>

definition near_track :: "OBUData list \<Rightarrow> bool" where
  "near_track T \<longleftrightarrow> (\<forall>e \<in> set T. upto_pow 500 (od_Lat e) \<and> upto_pow 500 (od_Lon e))"

definition finite_answers :: "OBUData list \<Rightarrow> bool" where
  "finite_answers T \<longleftrightarrow> (\<forall>k v. answers T k = Some v \<longrightarrow> isFinite v)"

lemma leg_finite:
  assumes "near_track T" "upto_pow 500 (od_Lat e)" "upto_pow 500 (od_Lon e)" shows "isFinite (leg T e)"
proof (cases "last_point T (od_OBUID e)")
  case None
  then show ?thesis by (simp add: leg_def isFinite_def mag_def fzero_def inf_mag_def)
next
  case (Some p)
  then obtain es where es: "filter (\<lambda>d. od_OBUID d = od_OBUID e) T = es" "es \<noteq> []"
    "p = \<lparr>p_Lat = od_Lat (last es), p_Lon = od_Lon (last es)\<rparr>"
    by (auto simp: last_point_def Let_def split: if_splits)
  then have "last es \<in> set T" by (metis filter_is_subset last_in_set subsetD)
  with assms es Some show ?thesis by (simp add: leg_def near_track_def calcDist_finite)
qed

lemma near_track_visit:
  assumes "finite_answers T" "near_track T" "upto_pow 500 (od_Lat e)" "upto_pow 500 (od_Lon e)"
  shows "finite_answers (visit T e) \<and> near_track (visit T e) \<and> isFinite (answer T e)"
  using assms leg_finite [OF assms(2-4)]
  by (auto simp: finite_answers_def visit_def answers_snoc near_track_def answer_def split: option.splits)

lemma near_track_answers:
  "near_track es \<Longrightarrow> finite_answers (foldl visit [] es) \<and> near_track (foldl visit [] es)"
proof (induction es rule: rev_induct)
  case Nil
  then show ?case by (simp add: finite_answers_def near_track_def)
next
  case (snoc e es)
  have near: "near_track es" "upto_pow 500 (od_Lat e)" "upto_pow 500 (od_Lon e)"
    using snoc.prems by (simp_all add: near_track_def)
  then show ?case using near_track_visit [OF _ _ near(2,3)] snoc.IH by simp
qed

lemma near_track_finite: "near_track T \<Longrightarrow> finite_track T"
  by (auto simp: near_track_def finite_track_def upto_pow_def)

text \<open>
  C35: On coordinates of at most 2^500 in magnitude every distance of a run is finite and not negative,
  so no event can be refused because of its distance.
\<close>

theorem calculator_finite:
  assumes "near_track (es @ [e])"
  shows "\<exists>v. fst (ca_CalculateDist calc_svc (snd (Calculate_all calc_svc calc_start es)) e) = Inr v
    \<and> isFinite v \<and> fnonneg v"
proof -
  let ?T = "foldl visit [] es"
  have near: "near_track es" "upto_pow 500 (od_Lat e)" "upto_pow 500 (od_Lon e)" using assms by (auto simp: near_track_def)
  have "calc_svc_rel ?T (snd (Calculate_all calc_svc calc_start es))"
    using calc_svc.calculate_all_rel [OF calc_svc_rel_start] .
  from calc_svc.calculates [OF this, of e]
  have "fst (ca_CalculateDist calc_svc (snd (Calculate_all calc_svc calc_start es)) e) = Inr (answer ?T e)" by auto
  moreover have "isFinite (answer ?T e)" using near_track_answers [OF near(1)] near_track_visit near(2,3) by blast
  moreover have "fnonneg (answer ?T e)"
    using nonneg_answers_track [OF near_track_finite [OF near(1)]] nonneg_answers_visit near(2,3)
    by (auto simp: upto_pow_def)
  ultimately show ?thesis by blast
qed

theorem calculator_finite_witness:
  "\<exists>v. fst (ca_CalculateDist calc_svc (snd (Calculate_all calc_svc calc_start [fix_a])) fix_b) = Inr v
    \<and> isFinite v \<and> fnonneg v"
proof -
  have "upto_pow 500 fzero" "upto_pow 500 (F64 0x4008000000000000)" "upto_pow 500 (F64 0x4010000000000000)"
  proof -
    have "mval 0x4008000000000000 \<le> mval ((1023 + 500) * 2 ^ 52)" "mval 0x4010000000000000 \<le> mval ((1023 + 500) * 2 ^ 52)"
      by (simp_all only: mval_le_iff) simp_all
    then have "mval 0x4008000000000000 \<le> 2 ^ 500" "mval 0x4010000000000000 \<le> 2 ^ 500" by (simp_all only: mval_power)
    then show "upto_pow 500 fzero" "upto_pow 500 (F64 0x4008000000000000)" "upto_pow 500 (F64 0x4010000000000000)"
      unfolding upto_pow_def abs_fl by (simp_all add: isFinite_def mag_def fzero_def inf_mag_def del: one_add_one)
  qed
  then have "near_track ([fix_a] @ [fix_b])" by (simp add: near_track_def fix_a_def fix_b_def)
  then show ?thesis by (rule calculator_finite)
qed

end
