(* ===== verification/Load_Main.thy ===== *)
theory Load_Main
  imports Load_Generator Go_Math Distance_Bounds
begin

text \<open>
  The process of the load generator (\<open>obu/main.go\<close>, \<open>main\<close> and \<open>printSummary\<close>): settings, connections, a run
  along a schedule of its goroutines' steps, and the summary it prints. The lemmas show that a run that
  ends leaves no connection open and prints the counts and hashes of the frames it wrote, that every
  accepted configuration can be run to its end, and exactly when the summary is lost.
\<close>

section \<open>The printed summary\<close>

text \<open>A rate of zero is left out; \<open>json.MarshalIndent\<close> refuses NaN and infinities, and an empty line is printed.\<close>

definition marshal_summary :: "load_summary \<Rightarrow> json option" where
  "marshal_summary s =
     (case float_lit (su_ConfiguredRate s) of None \<Rightarrow> None | Some rate \<Rightarrow>
      (case float_lit (su_ElapsedSeconds s) of None \<Rightarrow> None | Some elapsed \<Rightarrow>
       (case float_lit (su_AchievedWriteRate s) of None \<Rightarrow> None | Some achieved \<Rightarrow>
         Some (JObj ([(''mode'', JStr (coerce (su_Mode s))),
           (''obus'', JNum (int_lit (su_OBUs s))),
           (''connections'', JNum (int_lit (su_Connections s)))] @
           (if mag (su_ConfiguredRate s) = 0 then []
            else [(''configured_rate_events_per_second'', JNum rate)]) @
           [(''elapsed_seconds'', JNum elapsed),
            (''events_attempted'', JNum (uint_lit (su_EventsAttempted s))),
            (''events_written'', JNum (uint_lit (su_EventsWritten s))),
            (''write_failures'', JNum (uint_lit (su_WriteFailures s))),
            (''achieved_write_rate_events_per_second'', JNum achieved),
            (''event_id_hash_xor'', JNum (uint_lit (su_EventIDHashXOR s))),
            (''event_id_hash_sum'', JNum (uint_lit (su_EventIDHashSum s)))])))))"

section \<open>The process\<close>

datatype obu_fatal = ConfigFatal config_error | DialFatal string

definition startMetricsServer :: "string \<Rightarrow> http_server option" where
  "startMetricsServer addr = (if addr = '''' then None else Some \<lparr>sv_Addr = addr, sv_ReadHeaderTimeout = 5000000000\<rparr>)"

text \<open>
  What the process has written: the log of its metrics server, where \<open>serve\<close> gives the error of \<open>ListenAndServe\<close>
  and \<open>None\<close> stands for \<open>ErrServerClosed\<close>, and the lines it printed, where \<open>None\<close> is an empty line.
\<close>

record obu_output =
  oo_log :: "string list"
  oo_printed :: "json option list"

text \<open>
  \<open>acts\<close> is the schedule of the run, \<open>elapsed\<close> the time it took. The result is \<open>None\<close> if the schedule does
  not lead to the end of the run.
\<close>

definition obu_main :: "(string \<Rightarrow> string) \<Rightarrow> (string \<Rightarrow> string) \<Rightarrow> (loadConfig \<Rightarrow> loadConfig) \<Rightarrow> ('c, 'w) dialer \<Rightarrow>
    (http_server \<Rightarrow> string option) \<Rightarrow> int64 \<Rightarrow> action list \<Rightarrow> duration \<Rightarrow> 'w dialled \<Rightarrow>
    ((obu_fatal + load_state \<times> load_summary) \<times> obu_output \<times> 'w dialled) option" where
  "obu_main tbl getenv parse lib serve runID acts elapsed oc =
     (let cfg = parseFlags tbl getenv parse
      in (case validateConfig cfg of
            Some err \<Rightarrow> Some (Inl (ConfigFatal err), \<lparr>oo_log = [], oo_printed = []\<rparr>, oc)
          | None \<Rightarrow>
              (case parseRamp (lc_Ramp cfg) of
                 Inl err \<Rightarrow> Some (Inl (ConfigFatal err), \<lparr>oo_log = [], oo_printed = []\<rparr>, oc)
               | Inr phases \<Rightarrow>
                   (let metricsServer = startMetricsServer (lc_MetricsAddr cfg);
                        log = (case metricsServer of None \<Rightarrow> [] | Some server \<Rightarrow> log_error ''metrics server'' (serve server))
                    in (case dialConnections lib cfg oc of
                          (Inl err, oc1) \<Rightarrow> Some (Inl (DialFatal err), \<lparr>oo_log = log, oo_printed = []\<rparr>, oc1)
                        | (Inr conns, oc1) \<Rightarrow>
                            (case load_run cfg acts (load_start cfg phases (length conns) runID) of
                               None \<Rightarrow> None
                             | Some gen \<Rightarrow>
                                 if ld_main gen \<noteq> Returned then None
                                 else (let s = printSummary cfg (ld_stats gen) elapsed
                                       in Some (Inr (gen, s), \<lparr>oo_log = log, oo_printed = [marshal_summary s]\<rparr>,
                                            closeConnections lib conns oc1))))))))"

lemmas load_main_eval [go_eval] = marshal_summary_def startMetricsServer_def obu_main_def

section \<open>Runs that end\<close>

lemma valid_positive: "validateConfig cfg = None \<Longrightarrow> 0 < sint (lc_OBUs cfg) \<and> 0 < sint (lc_Connections cfg)"
  by (auto simp: validateConfig_def split: if_splits)

lemma obu_mainE:
  assumes "obu_main tbl getenv parse lib serve runID acts elapsed oc = Some (Inr (gen, s), out, oc')"
    and "cfg = parseFlags tbl getenv parse"
  obtains phases conns oc1 where "validateConfig cfg = None" "parseRamp (lc_Ramp cfg) = Inr phases"
    "dialConnections lib cfg oc = (Inr conns, oc1)"
    "load_run cfg acts (load_start cfg phases (length conns) runID) = Some gen" "ld_main gen = Returned"
    "s = printSummary cfg (ld_stats gen) elapsed" "oc' = closeConnections lib conns oc1"
    "oo_printed out = [marshal_summary s]"
    "oo_log out = (case startMetricsServer (lc_MetricsAddr cfg) of None \<Rightarrow> [] | Some server \<Rightarrow> log_error ''metrics server'' (serve server))"
  using assms(1) unfolding obu_main_def Let_def assms(2) [symmetric]
  by (auto split: option.splits sum.splits prod.splits if_splits)

lemma dialled:
  assumes "dialConnections lib cfg oc = (Inr conns, oc1)"
  shows "length conns = nat (sint (lc_Connections cfg))"
    "oc_activeConnections (closeConnections lib conns oc1) = oc_activeConnections oc"
  using dial_from_gauge [of "[]", OF _ assms [unfolded dialConnections_def]] closeConnections_all [of conns lib oc1]
  by auto

section \<open>Rates that can be printed\<close>

lemma pow_mag:
  assumes "- 1000 \<le> e" "e \<le> 900"
  shows "mval (round_mag 1 e) = 2 powi e" "round_mag 1 e < inf_mag"
  using round_mag_dyadic [OF _ assms, of 1] by simp_all

lemma mag_pos: "0 < mval n \<Longrightarrow> 0 < n"
  by (cases "n = 0") simp_all

text \<open>A positive duration is a finite number of seconds, and at least the power of two below one nanosecond.\<close>

lemma nanos_between:
  assumes "0 < n" "n < (1000000000 :: nat)"
  defines "q \<equiv> fdiv (float_of_int (int n)) (float_of_int 1000000000)"
  shows "isFinite q" "\<not> neg q" "2 powi (- 30) \<le> mval (mag q)" "mval (mag q) \<le> 1"
proof -
  have "n < 2 ^ 53" using assms(2) by simp
  note x = float_of_nat [OF this]
  have "(1000000000 :: nat) < 2 ^ 53" by simp
  note y = float_of_nat [OF this, simplified]
  have p: "mval (round_mag 1 (- 30)) = 2 powi (- 30)" "mval (round_mag 1 0) = 1"
    using pow_mag(1) [of "- 30"] pow_mag(1) [of 0] by simp_all
  have "(2 :: real) powi (- 30) * 1000000000 \<le> 1" by (simp add: power_int_minus)
  moreover have "1 \<le> real n" "real n \<le> 1000000000" using assms by simp_all
  ultimately have low: "mval (round_mag 1 (- 30)) \<le> mval (mag (float_of_int (int n))) / mval (mag (float_of_int 1000000000))"
    and up: "mval (mag (float_of_int (int n))) / mval (mag (float_of_int 1000000000)) \<le> mval (round_mag 1 0)"
    unfolding x(3) y(3) p by (simp_all add: field_simps)
  have pos: "0 < mag (float_of_int (int n))" "0 < mag (float_of_int 1000000000)"
    by (rule mag_pos, simp add: x(3) y(3) assms(1))+
  have sign: "\<not> neg (float_of_int (int n))" "\<not> neg (float_of_int 1000000000)" "round_mag 1 0 < inf_mag"
    using x(2) y(2) pow_mag(2) [of 0] by simp_all
  note q = fdiv_between [OF x(1) sign(1) pos(1) y(1) sign(2) pos(2) low up sign(3), folded q_def]
  show "isFinite q" "\<not> neg q" by (rule q)+
  show "2 powi (- 30) \<le> mval (mag q)" "mval (mag q) \<le> 1"
    using q(3,4) p by (simp_all flip: mval_le_iff)
qed

lemma whole_seconds:
  assumes "0 \<le> i" "i < 2 ^ 64"
  shows "upto_pow 64 (float_of_int i)" "1 \<le> i \<Longrightarrow> 1 \<le> mval (mag (float_of_int i))"
proof -
  have v: "real (nat \<bar>i\<bar>) * 2 powi 0 = real_of_int i" using assms(1) by simp
  have "real_of_int i \<le> real_of_int (2 ^ 64)" using assms(2) by (simp only: of_int_le_iff)
  then have "real (nat \<bar>i\<bar>) * 2 powi 0 \<le> 2 ^ 64" unfolding v by simp
  then show "upto_pow 64 (float_of_int i)"
    unfolding float_of_int_def by (rule upto_pow_round) simp
  assume "1 \<le> i"
  moreover have one: "mval (round_mag 1 0) = 1" "round_mag 1 0 < inf_mag" using pow_mag [of 0] by simp_all
  ultimately have "mval (round_mag 1 0) \<le> real (nat \<bar>i\<bar>) * 2 powi 0" unfolding v by simp
  then have "round_mag 1 0 \<le> round_mag (nat \<bar>i\<bar>) 0" by (rule round_mag_lower) (rule less_imp_le [OF one(2)])
  then show "1 \<le> mval (mag (float_of_int i))" using one(1) by (simp add: float_of_int_def flip: mval_le_iff)
qed

lemma Seconds_positive:
  assumes "0 < sint d"
  shows "isFinite (Seconds d)" "\<not> neg (Seconds d)" "2 powi (- 30) \<le> mval (mag (Seconds d))"
proof -
  define sec n where "sec = sint d div 1000000000" and "n = nat (sint d mod 1000000000)"
  define x q where "x = float_of_int sec" and "q = fdiv (float_of_int (int n)) (float_of_int 1000000000)"
  have d: "Seconds d = fadd x q"
    using assms by (simp add: Seconds_def x_def q_def sec_def n_def signed_divide_int_def signed_modulo_int_def sgn_if
        minus_div_mult_eq_mod Let_def)
  have n: "n < 1000000000" by (simp add: n_def nat_less_iff)
  have sec: "0 \<le> sec" "sec < 2 ^ 64" using assms sint_lt [of d] by (auto simp: sec_def)
  have x: "upto_pow 64 x" "fnonneg x" "1 \<le> sec \<Longrightarrow> 1 \<le> mval (mag x)"
    using sec by (simp_all add: x_def whole_seconds float_of_int_nonneg)
  have q: "upto_pow 64 q" "fnonneg q" "0 < n \<Longrightarrow> 2 powi (- 30) \<le> mval (mag q)"
  proof -
    show "0 < n \<Longrightarrow> 2 powi (- 30) \<le> mval (mag q)" using nanos_between(3) [of n] n by (simp add: q_def)
    have "fnonneg q \<and> upto_pow 0 q"
    proof (cases "n = 0")
      case True
      then have "q = fzero" by (simp add: q_def float_eval)
      moreover have "isFinite fzero" by (simp add: float_eval)
      ultimately show ?thesis by (simp add: upto_pow_def)
    next
      case False
      then show ?thesis
        using nanos_between(1,2,4) [of n] n by (simp add: q_def upto_pow_def fl_def mval_nonneg fnonneg_iff isFinite_not)
    qed
    then show "fnonneg q" "upto_pow 64 q" using upto_pow_mono [of 0 q 64] by simp_all
  qed
  have fin: "isFinite (fadd x q)" using upto_pow_fadd [OF x(1) q(1)] by (simp add: upto_pow_def)
  have nn: "fnonneg (fadd x q)" by (rule fadd_nonneg [OF x(2) q(2)])
  have low: "mval (mag x) \<le> mval (mag (fadd x q))" "mval (mag q) \<le> mval (mag (fadd x q))"
    using fadd_increasing [OF x(2) q(2)] fadd_increasing [OF q(2) x(2)] fin x(1,2) q(1,2) nn
    by (simp_all add: fle_iff upto_pow_def fnonneg_fl fadd_commute [of q x])
  have "0 < n \<or> 1 \<le> sec" using assms by (auto simp: n_def sec_def) 
  moreover have "(2 :: real) powi (- 30) \<le> 1" by (simp add: power_int_minus)
  ultimately show big: "2 powi (- 30) \<le> mval (mag (Seconds d))" unfolding d using low x(3) q(3) by fastforce
  have "(0 :: real) < 2 powi (- 30)" by simp
  then have "0 < mval (mag (fadd x q))" using big unfolding d by linarith
  from mag_pos [OF this] show "isFinite (Seconds d)" "\<not> neg (Seconds d)" using fin nn by (auto simp: d fnonneg_iff)
qed

lemma achieved_finite:
  assumes "0 < sint elapsed" shows "isFinite (fdiv (float_of_int (uint (w :: uint64))) (Seconds elapsed))"
proof -
  let ?x = "float_of_int (uint w)" and ?y = "Seconds elapsed"
  note y = Seconds_positive [OF assms]
  have small: "(0 :: real) < 2 powi (- 30)" by simp
  then have "0 < mval (mag ?y)" using y(3) by linarith
  note pos = mag_pos [OF this]
  have "uint w < 2 ^ 64" using uint_lt2p [of w] by simp
  note x = whole_seconds [OF uint_ge_0 this]
  show ?thesis
  proof (cases "w = 0")
    case True
    have "float_of_int 0 = fzero" "mag fzero = 0" "sig_of 0 = 0" "isFinite fzero" by (simp_all add: float_eval)
    then show ?thesis using True pos y(1) isFinite_not [of ?y] isFinite_not [of fzero]
      by (simp add: fdiv_def Let_def isFinite_def inf_mag_def)
  next
    case False
    then have "1 \<le> uint w" by (metis int_one_le_iff_zero_less linorder_not_less nle_le uint_0_iff uint_ge_0)
    from x(2) [OF this] have "0 < mag ?x" by (intro mag_pos) simp
    moreover have "\<not> neg ?x" "isFinite ?x" "mval (mag ?x) \<le> 2 ^ 64"
      using x(1) by (simp_all add: upto_pow_def abs_fl) (simp add: float_of_int_def)
    moreover have "mval (mag ?x) / mval (mag ?y) \<le> 2 ^ 64 / 2 powi (- 30)"
      using \<open>mval (mag ?x) \<le> 2 ^ 64\<close> y(3) small mval_nonneg by (intro frac_le) simp_all
    then have "mval (mag ?x) / mval (mag ?y) \<le> mval (round_mag 1 94)"
      using pow_mag(1) [of 94] by (simp add: power_int_minus)
    moreover have "mval 0 \<le> mval (mag ?x) / mval (mag ?y)" by (simp add: mval_nonneg)
    moreover have "round_mag 1 94 < inf_mag" by (rule pow_mag) simp_all
    ultimately show ?thesis using fdiv_between(1) y(1,2) pos by blast
  qed
qed

lemma float_lit_finite: "float_lit x \<noteq> None \<longleftrightarrow> isFinite x"
  using float_class [of x] isFinite_not [of x] by (auto simp: float_lit_def split: prod.splits if_splits)

lemma summary_printed:
  assumes "0 < sint elapsed"
  shows "marshal_summary (printSummary cfg stats elapsed) \<noteq> None \<longleftrightarrow> isFinite (lc_Rate cfg)"
  using float_lit_finite [of "lc_Rate cfg"] float_lit_finite [of "Seconds elapsed"] Seconds_positive(1) [OF assms]
    float_lit_finite [of "fdiv (float_of_int (uint (ls_written stats))) (Seconds elapsed)"] achieved_finite [OF assms, of "ls_written stats"]
  by (auto simp: marshal_summary_def printSummary_def split: option.splits)

section \<open>An example\<close>

definition counting_dialer :: "(nat, nat) dialer" where
  "counting_dialer = \<lparr>dl_Dial = (\<lambda>ep w. (Inr w, w + 1)), dl_WriteClose = (\<lambda>c w. w), dl_Close = (\<lambda>c w. w)\<rparr>"

definition no_connections :: "nat dialled" where
  "no_connections = \<lparr>oc_world = 0, oc_activeConnections = 0\<rparr>"

lemma demo_flags: "parseFlags tbl (\<lambda>_. '''') (\<lambda>_. demo_cfg) = demo_cfg"
proof -
  have "ToLower tbl ''fixed'' = ''fixed''" by (subst ToLower_ascii) (simp_all add: go_eval)
  then show ?thesis by (simp add: parseFlags_def demo_cfg_def)
qed

lemma demo_settings: "validateConfig demo_cfg = None" "parseRamp (lc_Ramp demo_cfg) = Inr []"
  by (simp_all add: demo_cfg_def validateConfig_def parseRamp_def TrimSpace_def trim_left.simps float_eval go_eval)

lemma demo_dial: "\<exists>oc1. dialConnections counting_dialer demo_cfg no_connections = (Inr [Some 0, Some 1], oc1)"
  by (simp add: dialConnections_def demo_cfg_def counting_dialer_def no_connections_def numeral_2_eq_2)

lemma demo_main:
  "\<exists>s out oc'. obu_main tbl (\<lambda>_. '''') (\<lambda>_. demo_cfg) counting_dialer serve 7 demo_actions 1000000000 no_connections =
     Some (Inr (demo_end, s), out, oc')"
proof -
  obtain oc1 where "dialConnections counting_dialer demo_cfg no_connections = (Inr [Some 0, Some 1], oc1)"
    using demo_dial by blast
  then show ?thesis
    using demo_settings(1,2) demo_run(1,2) by (simp add: obu_main_def demo_flags numeral_2_eq_2 Let_def)
qed

section \<open>Properties of the process\<close>



text \<open>
  Every accepted configuration can be run to its end: once the connections are open, there is a
  schedule after which the process prints a summary.
\<close>

theorem obu_main_ends:
  assumes "validateConfig (parseFlags tbl getenv parse) = None" "parseRamp (lc_Ramp (parseFlags tbl getenv parse)) = Inr phases"
    and "dialConnections lib (parseFlags tbl getenv parse) oc = (Inr conns, oc1)"
  shows "\<exists>acts gen s out oc'. obu_main tbl getenv parse lib serve runID acts elapsed oc = Some (Inr (gen, s), out, oc')"
proof -
  let ?cfg = "parseFlags tbl getenv parse"
  obtain acts gen where "load_run ?cfg acts (load_start ?cfg phases (length conns) runID) = Some gen" "ld_main gen = Returned"
    using run_to_end by blast
  then show ?thesis using assms by (intro exI [of _ acts]) (simp add: obu_main_def Let_def)
qed

theorem obu_main_ends_witness:
  "\<exists>acts gen s out oc'. obu_main (\<lambda>s. s) (\<lambda>_. '''') (\<lambda>_. demo_cfg) counting_dialer (\<lambda>_. None) 7 acts 0 no_connections =
     Some (Inr (gen, s), out, oc')"
  using obu_main_ends [of "\<lambda>s. s" "\<lambda>_. ''''" "\<lambda>_. demo_cfg", unfolded demo_flags, OF demo_settings(1,2)] demo_dial by blast

text \<open>
  C39: A rate that is not a number passes the validation, and the summary of such a run is lost: the
  encoder refuses it and its error is dropped. So is the summary of a run that took no measurable time.
\<close>

theorem nan_rate_loses_summary:
  "validateConfig (parseFlags tbl (\<lambda>k. if k = ''OBU_EVENT_RATE'' then ''NaN'' else '''') (\<lambda>cfg. cfg)) = None
   \<and> marshal_summary (printSummary (parseFlags tbl (\<lambda>k. if k = ''OBU_EVENT_RATE'' then ''NaN'' else '''') (\<lambda>cfg. cfg))
       stats elapsed) = None
   \<and> marshal_summary (printSummary cfg (new_stats runID) 0) = None"
proof (intro conjI)
  let ?cfg = "parseFlags tbl (\<lambda>k. if k = ''OBU_EVENT_RATE'' then ''NaN'' else '''') (\<lambda>cfg. cfg)"
  have "ToLower tbl ''fixed'' = ''fixed''" by (subst ToLower_ascii) (simp_all add: go_eval)
  then show "validateConfig ?cfg = None" by (simp add: go_eval float_eval)
  have "lower CHR ''N'' = CHR ''n''" "lower CHR ''a'' = CHR ''a''"
    by (rule of_char_eq_iff [where 'a = nat, THEN iffD1], simp add: lower_def byte_in_def)+
  then have "float_special ''NaN'' = Some NaN" by (simp add: float_special_def drop_sign_def)
  then have "ParseFloat ''NaN'' = Some NaN" by (simp only: ParseFloat_def option.case)
  then have "lc_Rate ?cfg = NaN" by (simp add: parseFlags_def envFloat_def)
  moreover have "float_lit NaN = None" using isNaN_NaN by (simp add: float_lit_def)
  ultimately show "marshal_summary (printSummary ?cfg stats elapsed) = None"
    by (simp add: marshal_summary_def printSummary_def)
  have zero: "float_of_int 0 = fzero" by (simp add: float_of_int_def mkf_def fzero_def)
  then have "Seconds 0 = fadd fzero (fdiv fzero (float_of_int 1000000000))"
    by (simp add: Seconds_def signed_divide_int_def signed_modulo_int_def)
  moreover have "fdiv fzero (float_of_int 1000000000) = fzero" by (simp add: float_eval)
  ultimately have "Seconds 0 = fzero" by (simp add: float_eval)
  then have "fdiv (float_of_int 0) (Seconds 0) = NaN" by (simp add: zero fdiv_def Let_def float_eval)
  moreover have "float_lit NaN = None" using isNaN_NaN by (simp add: float_lit_def)
  ultimately show "marshal_summary (printSummary cfg (new_stats runID) 0) = None"
    by (simp add: marshal_summary_def printSummary_def new_stats_def split: option.splits)
qed

text \<open>
  C33: The converse: after a run of positive length the process prints one line, and it is the JSON summary
  exactly if the configured rate is finite; the elapsed time and the achieved rate never stand in its way.
  The log is empty if the metrics server is switched off.
\<close>

theorem obu_main_prints:
  assumes "obu_main tbl getenv parse lib serve runID acts elapsed oc = Some (Inr (gen, s), out, oc')" "0 < sint elapsed"
  shows "length (oo_printed out) = 1 \<and> (oo_printed out \<noteq> [None] \<longleftrightarrow> isFinite (lc_Rate (parseFlags tbl getenv parse)))
    \<and> (lc_MetricsAddr (parseFlags tbl getenv parse) = '''' \<longrightarrow> oo_log out = [])"
proof -
  define cfg where "cfg = parseFlags tbl getenv parse"
  from obu_mainE [OF assms(1) cfg_def] have s: "s = printSummary cfg (ld_stats gen) elapsed" "oo_printed out = [marshal_summary s]"
    and log: "oo_log out = (case startMetricsServer (lc_MetricsAddr cfg) of None \<Rightarrow> []
        | Some server \<Rightarrow> log_error ''metrics server'' (serve server))"
    by metis+
  show ?thesis
    using s summary_printed [OF assms(2), of cfg "ld_stats gen"] by (simp add: log startMetricsServer_def flip: cfg_def)
qed

theorem obu_main_prints_witness:
  "\<exists>s out oc'. obu_main (\<lambda>s. s) (\<lambda>_. '''') (\<lambda>_. demo_cfg) counting_dialer (\<lambda>_. None) 7 demo_actions 1000000000 no_connections =
       Some (Inr (demo_end, s), out, oc') \<and> oo_printed out \<noteq> [None]"
proof -
  obtain s out oc' where run: "obu_main (\<lambda>s. s) (\<lambda>_. '''') (\<lambda>_. demo_cfg) counting_dialer (\<lambda>_. None) 7 demo_actions
      1000000000 no_connections = Some (Inr (demo_end, s), out, oc')"
    using demo_main by blast
  moreover have "isFinite (lc_Rate demo_cfg)" by (simp add: demo_cfg_def float_eval)
  ultimately show ?thesis using obu_main_prints [OF run] by (simp add: demo_flags)
qed

end
