(* ===== verification/Receiver.thy ===== *)
theory Receiver
  imports Consumer Go_Parse
begin

text \<open>
  The data receiver (\<open>data_receiver\<close>): WebSocket messages are decoded, validated and published to
  Kafka under the key of their OBU. The Kafka producer and the WebSocket connection are records of
  functions on states of their own. The lemmas show that what is published is what was received, as
  the calculator's consumer reads it, and that every message is counted once.
\<close>

section \<open>Configured origins\<close>

definition parseOrigins :: "string \<Rightarrow> string set" where
  "parseOrigins v = set (filter (\<lambda>s. s \<noteq> '''') (map TrimSpace (split_on CHR '','' v)))"

text \<open>
  A handshake has an \<open>Origin\<close> header and a \<open>Host\<close>. \<open>parse_host\<close> is the host of a parsed URL (\<open>None\<close> if it
  does not parse) and \<open>equalFold\<close> the comparison under Unicode case folding.
\<close>

definition originAllowed :: "(string \<Rightarrow> string option) \<Rightarrow> (string \<Rightarrow> string \<Rightarrow> bool) \<Rightarrow> string \<Rightarrow> string \<Rightarrow>
    string set \<Rightarrow> bool" where
  "originAllowed parse_host equalFold origin host allowed =
     (if origin = '''' then True
      else if ''*'' \<in> allowed then True
      else if origin \<in> allowed then True
      else (case parse_host origin of None \<Rightarrow> False | Some h \<Rightarrow> equalFold h host))"

section \<open>The producer\<close>

record 'p DataProducer =
  dp_ProduceData :: "OBUData \<Rightarrow> 'p \<Rightarrow> string option \<times> 'p"
  dp_Close :: "'p \<Rightarrow> string option \<times> 'p"

record produced_message =
  pm_Topic :: string
  pm_Partition :: int32
  pm_Key :: string
  pm_Value :: json

datatype delivery = ContextDone string | DeliveryReport "string option" | OtherEvent string

record 'b producer_lib =
  pl_Produce :: "produced_message \<Rightarrow> 'b \<Rightarrow> string option \<times> 'b"
  pl_Delivery :: "'b \<Rightarrow> delivery \<times> 'b"
  pl_Flush :: "'b \<Rightarrow> nat \<times> 'b"
  pl_Close :: "'b \<Rightarrow> 'b"

record 'b KafkaProducer =
  kp_producer :: 'b
  kp_topic :: string
  kp_produced :: "produced_message list"
  kp_acknowledgements :: nat

text \<open>\<open>kafka.PartitionAny\<close> is -1: the partitioner hashes the key.\<close>

definition newKafkaMessage :: "string \<Rightarrow> OBUData \<Rightarrow> json \<Rightarrow> produced_message" where
  "newKafkaMessage topic data val =
     \<lparr>pm_Topic = topic, pm_Partition = -1, pm_Key = Itoa (od_OBUID data), pm_Value = val\<rparr>"

definition KafkaProducer_ProduceData :: "'b producer_lib \<Rightarrow> OBUData \<Rightarrow> 'b KafkaProducer \<Rightarrow>
    string option \<times> 'b KafkaProducer" where
  "KafkaProducer_ProduceData lib data p =
     (case encode_OBUData data of
        None \<Rightarrow> (Some ''json: unsupported value'', p)
      | Some v \<Rightarrow>
          let m = newKafkaMessage (kp_topic p) data v;
              (err, b) = pl_Produce lib m (kp_producer p);
              p1 = p\<lparr>kp_producer := b, kp_produced := kp_produced p @ [m]\<rparr>
          in (case err of
                Some e \<Rightarrow> (Some e, p1)
              | None \<Rightarrow>
                  let (ev, b1) = pl_Delivery lib (kp_producer p1); p2 = p1\<lparr>kp_producer := b1\<rparr>;
                      p3 = p2\<lparr>kp_acknowledgements := kp_acknowledgements p2 + 1\<rparr>
                  in (case ev of
                        ContextDone e \<Rightarrow> (Some e, p2)
                      | OtherEvent ty \<Rightarrow> (Some (''unexpected Kafka delivery event '' @ ty), p3)
                      | DeliveryReport e \<Rightarrow> (e, p3))))"

definition KafkaProducer_Close :: "'b producer_lib \<Rightarrow> 'b KafkaProducer \<Rightarrow> string option \<times> 'b KafkaProducer" where
  "KafkaProducer_Close lib p =
     (let (remaining, b) = pl_Flush lib (kp_producer p)
      in (if 0 < remaining
          then Some (show_nat remaining @ '' Kafka messages were not delivered before shutdown'') else None,
          p\<lparr>kp_producer := pl_Close lib b\<rparr>))"

definition kafkaProducer :: "'b producer_lib \<Rightarrow> 'b KafkaProducer DataProducer" where
  "kafkaProducer lib = \<lparr>dp_ProduceData = KafkaProducer_ProduceData lib, dp_Close = KafkaProducer_Close lib\<rparr>"

text \<open>\<open>new\<close> is \<open>kafka.NewProducer\<close> on its configuration.\<close>

definition NewKafkaProducer :: "((string \<times> config_value) list \<Rightarrow> string + 'b) \<Rightarrow> (string \<Rightarrow> string) \<Rightarrow>
    string + 'b KafkaProducer" where
  "NewKafkaProducer new getenv =
     (case new [(''bootstrap.servers'', ConfigString (envOr getenv ''KAFKA_BROKERS'' ''localhost:9092'')),
                (''acks'', ConfigString ''all'')] of
        Inl err \<Rightarrow> Inl err
      | Inr b \<Rightarrow> Inr \<lparr>kp_producer = b, kp_topic = envOr getenv ''KAFKA_TOPIC'' ''obudata'',
          kp_produced = [], kp_acknowledgements = 0\<rparr>)"

record 'p produce_logged =
  pg_next :: 'p
  pg_entries :: "(go_int \<times> float64 \<times> float64) list"

definition ProduceLog_ProduceData :: "'p DataProducer \<Rightarrow> OBUData \<Rightarrow> 'p produce_logged \<Rightarrow>
    string option \<times> 'p produce_logged" where
  "ProduceLog_ProduceData next data l =
     (let (err, p) = dp_ProduceData next data (pg_next l)
      in (err, \<lparr>pg_next = p, pg_entries = pg_entries l @ [(od_OBUID data, od_Lat data, od_Lon data)]\<rparr>))"

definition ProduceLog_Close :: "'p DataProducer \<Rightarrow> 'p produce_logged \<Rightarrow> string option \<times> 'p produce_logged" where
  "ProduceLog_Close next l = (let (err, p) = dp_Close next (pg_next l) in (err, l\<lparr>pg_next := p\<rparr>))"

definition NewProduceLogMiddleware :: "'p DataProducer \<Rightarrow> 'p produce_logged DataProducer" where
  "NewProduceLogMiddleware next =
     \<lparr>dp_ProduceData = ProduceLog_ProduceData next, dp_Close = ProduceLog_Close next\<rparr>"

section \<open>The receiver\<close>

record 'p DataReceiver =
  dr_prod :: 'p
  dr_allowedOrigins :: "string set"
  dr_readLimit :: int64
  dr_readTimeout :: duration
  dr_produceTimeout :: duration
  dr_connections :: "nat set"
  dr_activeWebSockets :: int
  dr_events :: nat
  dr_invalidEvents :: nat
  dr_enqueueFailures :: nat

definition NewDataReceiverWithProducer :: "(string \<Rightarrow> string) \<Rightarrow> 'p \<Rightarrow> 'p DataReceiver" where
  "NewDataReceiverWithProducer getenv producer =
     \<lparr>dr_prod = producer, dr_allowedOrigins = parseOrigins (getenv ''WS_ALLOWED_ORIGINS''),
      dr_readLimit = (let v = getenv ''WS_READ_LIMIT_BYTES''
        in if v \<noteq> '''' then (case Atoi v of Some i \<Rightarrow> (if 0 < sint i then i else 2 ^ 20) | None \<Rightarrow> 2 ^ 20)
           else 2 ^ 20),
      dr_readTimeout = 30000000000, dr_produceTimeout = 5000000000, dr_connections = {},
      dr_activeWebSockets = 0, dr_events = 0, dr_invalidEvents = 0, dr_enqueueFailures = 0\<rparr>"

definition NewDataReceiver :: "((string \<times> config_value) list \<Rightarrow> string + 'b) \<Rightarrow> (string \<Rightarrow> string) \<Rightarrow>
    string + 'b KafkaProducer produce_logged DataReceiver" where
  "NewDataReceiver new getenv =
     (case NewKafkaProducer new getenv of
        Inl err \<Rightarrow> Inl err
      | Inr p \<Rightarrow> Inr (NewDataReceiverWithProducer getenv \<lparr>pg_next = p, pg_entries = []\<rparr>))"

text \<open>
  A connection of package \<open>websocket\<close>: the payload of a message is \<open>None\<close> if it is not one JSON value; a
  close message is written with its code. The limits that the loop sets are kept with the number of
  times the read deadline was renewed.
\<close>

record 'c ws_lib =
  ws_ReadMessage :: "'c \<Rightarrow> (string + json option) \<times> 'c"
  ws_WriteClose :: "nat \<Rightarrow> string \<Rightarrow> 'c \<Rightarrow> 'c"
  ws_Close :: "'c \<Rightarrow> 'c"

record 'c ws_conn =
  wc_conn :: 'c
  wc_readLimit :: int64
  wc_deadlines :: nat

definition SetReadDeadline :: "'c ws_conn \<Rightarrow> 'c ws_conn" where
  "SetReadDeadline c = c\<lparr>wc_deadlines := wc_deadlines c + 1\<rparr>"

text \<open>One iteration of the receive loop, and whether the loop goes on.\<close>

definition wsReceive_step :: "'p DataProducer \<Rightarrow> 'c ws_lib \<Rightarrow> 'p DataReceiver \<Rightarrow> 'c ws_conn \<Rightarrow>
    bool \<times> 'p DataReceiver \<times> 'c ws_conn" where
  "wsReceive_step P lib dr c =
     (let (r, w) = ws_ReadMessage lib (wc_conn c); c1 = c\<lparr>wc_conn := w\<rparr>
      in (case r of
            Inl err \<Rightarrow> (False, dr, c1)
          | Inr payload \<Rightarrow>
              let c2 = SetReadDeadline c1; dr1 = dr\<lparr>dr_events := dr_events dr + 1\<rparr>;
                  invalid = dr1\<lparr>dr_invalidEvents := dr_invalidEvents dr1 + 1\<rparr>
              in (case Option.bind payload decode_OBUData of
                    None \<Rightarrow> (True, invalid, c2)
                  | Some data \<Rightarrow>
                      if od_EventID data = '''' \<or> sint (od_ProducedAtUnixNano data) \<le> 0
                         \<or> sint (od_OBUID data) \<le> 0
                      then (True, invalid, c2)
                      else
                        let (err, p) = dp_ProduceData P data (dr_prod dr1); dr2 = dr1\<lparr>dr_prod := p\<rparr>
                        in (True, if err = None then dr2
                              else dr2\<lparr>dr_enqueueFailures := dr_enqueueFailures dr2 + 1\<rparr>, c2))))"

text \<open>The loop for at most \<open>n\<close> messages; the flag says whether it has returned.\<close>

fun wsReceive_iterate :: "'p DataProducer \<Rightarrow> 'c ws_lib \<Rightarrow> nat \<Rightarrow> 'p DataReceiver \<Rightarrow> 'c ws_conn \<Rightarrow>
    bool \<times> 'p DataReceiver \<times> 'c ws_conn" where
  "wsReceive_iterate P lib 0 dr c = (False, dr, c)"
| "wsReceive_iterate P lib (Suc n) dr c =
     (case wsReceive_step P lib dr c of
        (True, dr1, c1) \<Rightarrow> wsReceive_iterate P lib n dr1 c1
      | (False, dr1, c1) \<Rightarrow> (True, dr1, c1))"

definition wsReceiveLoop :: "'p DataProducer \<Rightarrow> 'c ws_lib \<Rightarrow> nat \<Rightarrow> 'p DataReceiver \<Rightarrow> 'c \<Rightarrow>
    bool \<times> 'p DataReceiver \<times> 'c ws_conn" where
  "wsReceiveLoop P lib n dr conn =
     wsReceive_iterate P lib n dr
       (SetReadDeadline \<lparr>wc_conn = conn, wc_readLimit = dr_readLimit dr, wc_deadlines = 0\<rparr>)"

text \<open>What the handler does to the receiver before and after its loop; \<open>cid\<close> identifies the connection.\<close>

definition ws_opened :: "nat \<Rightarrow> 'p DataReceiver \<Rightarrow> 'p DataReceiver" where
  "ws_opened cid dr =
     dr\<lparr>dr_activeWebSockets := dr_activeWebSockets dr + 1, dr_connections := insert cid (dr_connections dr)\<rparr>"

definition ws_closed :: "nat \<Rightarrow> 'p DataReceiver \<Rightarrow> 'p DataReceiver" where
  "ws_closed cid dr =
     dr\<lparr>dr_activeWebSockets := dr_activeWebSockets dr - 1, dr_connections := dr_connections dr - {cid}\<rparr>"

text \<open>
  The handler of \<open>/ws\<close>. \<open>upgrade\<close> is the result of the handshake, a connection if it succeeds; the
  handler returns what it left of the connection.
\<close>

definition handleWS :: "'p DataProducer \<Rightarrow> 'c ws_lib \<Rightarrow> nat \<Rightarrow> (string + 'c) \<Rightarrow> nat \<Rightarrow> 'p DataReceiver \<Rightarrow>
    bool \<times> 'p DataReceiver \<times> 'c option" where
  "handleWS P lib n upgrade cid dr =
     (case upgrade of
        Inl err \<Rightarrow> (True, dr, None)
      | Inr conn \<Rightarrow>
          let (returned, dr2, c) = wsReceiveLoop P lib n (ws_opened cid dr) conn
          in if returned then (True, ws_closed cid dr2, Some (ws_Close lib (wc_conn c)))
             else (False, dr2, Some (wc_conn c)))"

lemmas receiver_eval [go_eval] =
  parseOrigins_def originAllowed_def newKafkaMessage_def
  KafkaProducer_ProduceData_def KafkaProducer_Close_def kafkaProducer_def NewKafkaProducer_def
  ProduceLog_ProduceData_def ProduceLog_Close_def NewProduceLogMiddleware_def
  NewDataReceiverWithProducer_def NewDataReceiver_def SetReadDeadline_def wsReceive_step_def
  wsReceiveLoop_def ws_opened_def ws_closed_def handleWS_def

section \<open>The contract of the producer\<close>

definition good_event :: "OBUData \<Rightarrow> bool" where
  "good_event e \<longleftrightarrow> valid_event e \<and> utf8 (od_EventID e) \<and> utf8 (od_Payload e) \<and> isFinite (od_Lat e) \<and> isFinite (od_Lon e)"

lemma payload_event_good: "payload_event v = Some e \<Longrightarrow> good_event e"
  using decode_OBUData_good
  by (auto simp: payload_event_def good_event_def split: option.splits if_splits bind_splits)

text \<open>\<open>published p\<close> are the events handed to Kafka, as a consumer decodes them.\<close>

locale data_producer =
  fixes P :: "'p DataProducer"
    and published :: "'p \<Rightarrow> OBUData option list"
  assumes produce: "good_event e \<Longrightarrow> published (snd (dp_ProduceData P e p)) = published p @ [Some e]"

text \<open>The payloads that the first \<open>n\<close> iterations read from a connection.\<close>

fun ws_payloads :: "'c ws_lib \<Rightarrow> nat \<Rightarrow> 'c \<Rightarrow> json option list" where
  "ws_payloads lib 0 c = []"
| "ws_payloads lib (Suc n) c =
     (case ws_ReadMessage lib c of
        (Inl err, c1) \<Rightarrow> []
      | (Inr v, c1) \<Rightarrow> v # ws_payloads lib n c1)"

fun accepted :: "json option list \<Rightarrow> OBUData list" where
  "accepted [] = []"
| "accepted (v # vs) = (case payload_event v of None \<Rightarrow> accepted vs | Some e \<Rightarrow> e # accepted vs)"

lemma wsReceive_step_event:
  "wsReceive_step P lib dr c =
     (case ws_ReadMessage lib (wc_conn c) of
        (Inl err, w) \<Rightarrow> (False, dr, c\<lparr>wc_conn := w\<rparr>)
      | (Inr v, w) \<Rightarrow>
          (True,
           case payload_event v of
             None \<Rightarrow> dr\<lparr>dr_events := dr_events dr + 1, dr_invalidEvents := dr_invalidEvents dr + 1\<rparr>
           | Some e \<Rightarrow>
               let (err, p) = dp_ProduceData P e (dr_prod dr)
               in dr\<lparr>dr_prod := p, dr_events := dr_events dr + 1,
                    dr_enqueueFailures := dr_enqueueFailures dr + (if err = None then 0 else 1)\<rparr>,
           SetReadDeadline (c\<lparr>wc_conn := w\<rparr>)))"
  by (auto simp: wsReceive_step_def payload_event_def valid_event_def Let_def
      split: prod.splits sum.splits option.splits)

lemma wc_conn_SetReadDeadline [simp]: "wc_conn (SetReadDeadline c) = wc_conn c"
  by (simp add: SetReadDeadline_def)

context data_producer
begin

lemma wsReceive_iterate_publishes:
  assumes "wsReceive_iterate P lib n dr c = (returned, dr', c')"
  shows "published (dr_prod dr') = published (dr_prod dr) @ map Some (accepted (ws_payloads lib n (wc_conn c)))
    \<and> dr_events dr' = dr_events dr + length (ws_payloads lib n (wc_conn c))
    \<and> dr_invalidEvents dr' + length (accepted (ws_payloads lib n (wc_conn c))) =
        dr_invalidEvents dr + length (ws_payloads lib n (wc_conn c))
    \<and> dr_enqueueFailures dr' \<le> dr_enqueueFailures dr + length (accepted (ws_payloads lib n (wc_conn c)))
    \<and> dr_connections dr' = dr_connections dr \<and> dr_activeWebSockets dr' = dr_activeWebSockets dr"
  using assms
proof (induction n arbitrary: dr c)
  case (Suc n)
  obtain r w where r: "ws_ReadMessage lib (wc_conn c) = (r, w)" by (cases "ws_ReadMessage lib (wc_conn c)")
  show ?case
  proof (cases r)
    case (Inl err)
    then show ?thesis using Suc.prems r by (simp add: wsReceive_step_event)
  next
    case (Inr v)
    obtain dr1 where step: "wsReceive_step P lib dr c = (True, dr1, SetReadDeadline (c\<lparr>wc_conn := w\<rparr>))"
      and dr1: "dr1 = (case payload_event v of
             None \<Rightarrow> dr\<lparr>dr_events := dr_events dr + 1, dr_invalidEvents := dr_invalidEvents dr + 1\<rparr>
           | Some e \<Rightarrow>
               let (err, p) = dp_ProduceData P e (dr_prod dr)
               in dr\<lparr>dr_prod := p, dr_events := dr_events dr + 1,
                    dr_enqueueFailures := dr_enqueueFailures dr + (if err = None then 0 else 1)\<rparr>)"
      using r Inr by (simp add: wsReceive_step_event)
    then have run: "wsReceive_iterate P lib n dr1 (SetReadDeadline (c\<lparr>wc_conn := w\<rparr>)) = (returned, dr', c')"
      using Suc.prems by simp
    show ?thesis
    proof (cases "payload_event v")
      case None
      then show ?thesis using Suc.IH [OF run] r Inr dr1 by simp
    next
      case (Some e)
      then have "published (dr_prod dr1) = published (dr_prod dr) @ [Some e]"
        using produce [OF payload_event_good [OF Some], of "dr_prod dr"] dr1 by (simp add: split_beta)
      then show ?thesis using Suc.IH [OF run] r Inr dr1 Some by (auto simp: split_beta split: if_splits)
    qed
  qed
qed simp

lemma handleWS_publishes:
  assumes "cid \<notin> dr_connections dr" "handleWS P lib n (Inr conn) cid dr = (returned, dr', left)"
  defines "vs \<equiv> ws_payloads lib n conn"
  shows "published (dr_prod dr') = published (dr_prod dr) @ map Some (accepted vs)
    \<and> dr_events dr' = dr_events dr + length vs
    \<and> dr_invalidEvents dr' + length (accepted vs) = dr_invalidEvents dr + length vs
    \<and> dr_enqueueFailures dr' \<le> dr_enqueueFailures dr + length (accepted vs)
    \<and> (returned \<longrightarrow> dr_connections dr' = dr_connections dr \<and> dr_activeWebSockets dr' = dr_activeWebSockets dr)"
proof -
  obtain dr2 c where loop: "wsReceiveLoop P lib n (ws_opened cid dr) conn = (returned, dr2, c)"
    "dr' = (if returned then ws_closed cid dr2 else dr2)"
    using assms(2) by (auto simp: handleWS_def Let_def split: prod.splits if_splits)
  show ?thesis
    using wsReceive_iterate_publishes [OF loop(1) [unfolded wsReceiveLoop_def]] loop(2) assms(1)
    by (auto simp: vs_def ws_opened_def ws_closed_def)
qed

lemma logged_producer: "data_producer (NewProduceLogMiddleware P) (\<lambda>l. published (pg_next l))"
  by unfold_locales
    (simp add: NewProduceLogMiddleware_def ProduceLog_ProduceData_def split_beta produce)

end

section \<open>The Kafka producer keeps it\<close>

definition kafka_published :: "'b KafkaProducer \<Rightarrow> OBUData option list" where
  "kafka_published p = map (\<lambda>m. payload_event (Some (pm_Value m))) (kp_produced p)"

lemma encode_good_event:
  assumes "good_event e" shows "\<exists>v. encode_OBUData e = Some v \<and> payload_event (Some v) = Some e"
  using OBUData_roundtrip [of e] assms by (auto simp: good_event_def payload_event_def)

interpretation kafka_producer: data_producer "kafkaProducer lib" kafka_published for lib
proof
  fix e :: OBUData and p :: "'a KafkaProducer"
  assume "good_event e"
  then obtain v where "encode_OBUData e = Some v" "payload_event (Some v) = Some e"
    using encode_good_event by blast
  then show "kafka_published (snd (dp_ProduceData (kafkaProducer lib) e p)) = kafka_published p @ [Some e]"
    by (auto simp: kafkaProducer_def KafkaProducer_ProduceData_def kafka_published_def newKafkaMessage_def
        Let_def split: prod.splits option.splits delivery.splits)
qed

text \<open>The producer as \<open>NewDataReceiver\<close> wraps it.\<close>

interpretation receiver_producer:
  data_producer "NewProduceLogMiddleware (kafkaProducer lib)" "\<lambda>l. kafka_published (pg_next l)" for lib
  by (rule kafka_producer.logged_producer)

text \<open>The keys of two messages are the same exactly if they come from the same OBU.\<close>

section \<open>Properties of the receiver\<close>

text \<open>
  Over one WebSocket connection, what is handed to Kafka is exactly the valid events that were
  read, in their order, and a consumer decodes each of them to the very event that was received.
  Every message is counted once as received, every other one as invalid, at most the published ones
  as failures; when the handler returns, its connection is no longer open and the gauge is back.
\<close>

theorem receiver_publishes:
  assumes "cid \<notin> dr_connections dr"
    and "handleWS (NewProduceLogMiddleware (kafkaProducer lib)) ws n (Inr conn) cid dr = (returned, dr', left)"
  shows "kafka_published (pg_next (dr_prod dr')) =
      kafka_published (pg_next (dr_prod dr)) @ map Some (accepted (ws_payloads ws n conn))
    \<and> dr_events dr' = dr_events dr + length (ws_payloads ws n conn)
    \<and> dr_invalidEvents dr' + length (accepted (ws_payloads ws n conn)) =
        dr_invalidEvents dr + length (ws_payloads ws n conn)
    \<and> dr_enqueueFailures dr' \<le> dr_enqueueFailures dr + length (accepted (ws_payloads ws n conn))
    \<and> (returned \<longrightarrow> dr_connections dr' = dr_connections dr \<and> dr_activeWebSockets dr' = dr_activeWebSockets dr)"
  using receiver_producer.handleWS_publishes [OF assms] by simp

definition list_ws :: "json option list ws_lib" where
  "list_ws = \<lparr>ws_ReadMessage = (\<lambda>vs. case vs of [] \<Rightarrow> (Inl ''websocket: close 1000 (normal)'', []) | v # vs \<Rightarrow> (Inr v, vs)),
     ws_WriteClose = (\<lambda>_ _ vs. vs), ws_Close = (\<lambda>vs. vs)\<rparr>"

definition calm_producer :: "unit producer_lib" where
  "calm_producer = \<lparr>pl_Produce = (\<lambda>_ b. (None, b)), pl_Delivery = (\<lambda>b. (DeliveryReport None, b)),
     pl_Flush = (\<lambda>b. (0, b)), pl_Close = (\<lambda>b. b)\<rparr>"

definition calm_receiver :: "unit KafkaProducer produce_logged DataReceiver" where
  "calm_receiver = projr (NewDataReceiver (\<lambda>_. Inr ()) (\<lambda>_. ''''))"

definition payload_a :: "json option" where
  "payload_a = Some (JObj [(''event_id'', JStr ''event-1''), (''produced_at_unix_nano'', JNum (IntLit False 1)),
     (''obu_id'', JNum (IntLit False 1))])"

lemma payload_event_a: "payload_event payload_a = Some fix_a"
proof -
  have "coerce ''event-1'' = ''event-1''" by (rule utf8_ascii [unfolded utf8_def]) (simp add: byte_in_def)
  then show ?thesis
    by (simp add: payload_event_def payload_a_def decode_OBUData_def decode_struct_def OBUData_fields_def
        find_field_def OBUData_zero_def valid_event_def fix_a_def set_int64_def)
qed

theorem receiver_publishes_witness:
  "\<exists>dr' left. handleWS (NewProduceLogMiddleware (kafkaProducer calm_producer)) list_ws 3 (Inr [payload_a, None]) 7
      calm_receiver = (True, dr', left)
    \<and> kafka_published (pg_next (dr_prod dr')) = [Some fix_a] \<and> dr_events dr' = 2 \<and> dr_invalidEvents dr' = 1"
proof -
  let ?h = "handleWS (NewProduceLogMiddleware (kafkaProducer calm_producer)) list_ws 3 (Inr [payload_a, None]) 7 calm_receiver"
  have start: "7 \<notin> dr_connections calm_receiver" "kafka_published (pg_next (dr_prod calm_receiver)) = []"
    "dr_events calm_receiver = 0" "dr_invalidEvents calm_receiver = 0"
    by (simp_all add: calm_receiver_def NewDataReceiver_def NewKafkaProducer_def NewDataReceiverWithProducer_def
        kafka_published_def)
  have none: "payload_event None = None" by (simp add: payload_event_def)
  have "fst ?h = True"
    by (simp add: handleWS_def wsReceiveLoop_def list_ws_def wsReceive_step_event payload_event_a none
        Let_def split_beta numeral_3_eq_3)
  then have run: "?h = (True, fst (snd ?h), snd (snd ?h))" by (simp add: prod_eq_iff)
  have "accepted (ws_payloads list_ws 3 [payload_a, None]) = [fix_a]" "length (ws_payloads list_ws 3 [payload_a, None]) = 2"
    by (simp_all add: list_ws_def numeral_3_eq_3 payload_event_a none)
  then show ?thesis using receiver_publishes [OF start(1) run] run start by fastforce
qed

text \<open>
  Two messages have the same Kafka key exactly if they come from the same OBU, so the events of
  an OBU stay in one partition and in order.
\<close>

theorem kafka_key_per_obu:
  "pm_Key (newKafkaMessage t e v) = pm_Key (newKafkaMessage t' e' v') \<longleftrightarrow> od_OBUID e = od_OBUID e'"
  by (simp add: newKafkaMessage_def Itoa_inject)

text \<open>
  A comma-separated list of origins is read back as the set of its entries, provided that no entry
  is empty, has a comma or is surrounded by white space.
\<close>

theorem parseOrigins_list:
  assumes "\<forall>s \<in> set os. s \<noteq> '''' \<and> CHR '','' \<notin> set s \<and> TrimSpace s = s"
  shows "parseOrigins (join CHR '','' os) = set os"
proof (cases os)
  case Nil
  have "TrimSpace '''' = ''''" by (simp add: TrimSpace_def trim_left.simps)
  then show ?thesis using Nil by (simp add: parseOrigins_def)
next
  case (Cons s ss)
  then have "split_on CHR '','' (join CHR '','' os) = os" using assms by (intro split_on_join) auto
  then show ?thesis using assms by (auto simp: parseOrigins_def)
qed

theorem parseOrigins_list_witness:
  "TrimSpace ''a.org'' = ''a.org'' \<and> parseOrigins (join CHR '','' [''a.org'', ''b.org'']) = {''a.org'', ''b.org''}"
proof -
  have "TrimSpace ''a.org'' = ''a.org''" "TrimSpace ''b.org'' = ''b.org''"
    by (simp_all add: TrimSpace_def trim_left.simps space_prefix_def spaces_def)
  then show ?thesis using parseOrigins_list [of "[''a.org'', ''b.org'']"] by simp
qed

end
