(* ===== verification/Receiver_Server.thy ===== *)
theory Receiver_Server
  imports Receiver
begin

text \<open>
  The data receiver with many connections at once (\<open>data_receiver/main.go\<close>): every handler of \<open>/ws\<close> is a
  goroutine in its receive loop, and one step is one iteration of one of them, the start of a handler
  or \<open>closeConnections\<close> at shutdown. The steps come in any order. The lemmas show that the set of
  connections and the gauge are always those of the handlers that run, and that every valid event is
  published exactly once, in the order in which it was read.
\<close>

section \<open>Steps\<close>

text \<open>\<open>rv_read\<close> is the history of the payloads that were read, with their connections.\<close>

record ('p, 'c) receiver_server =
  rv_receiver :: "'p DataReceiver"
  rv_conns :: "nat \<rightharpoonup> 'c ws_conn"
  rv_read :: "(nat \<times> json option) list"

datatype 'c receiver_op = Connect nat "string + 'c" | Receive nat | GoingAway

definition receiver_start :: "'p DataReceiver \<Rightarrow> ('p, 'c) receiver_server" where
  "receiver_start dr = \<lparr>rv_receiver = dr, rv_conns = Map.empty, rv_read = []\<rparr>"

text \<open>A new handler, up to its first read.\<close>

definition ws_connect :: "nat \<Rightarrow> 'c \<Rightarrow> ('p, 'c) receiver_server \<Rightarrow> ('p, 'c) receiver_server" where
  "ws_connect k conn rv =
     rv\<lparr>rv_receiver := ws_opened k (rv_receiver rv),
        rv_conns := (rv_conns rv)(k \<mapsto> SetReadDeadline
          \<lparr>wc_conn = conn, wc_readLimit = dr_readLimit (rv_receiver rv), wc_deadlines = 0\<rparr>)\<rparr>"

text \<open>One iteration of a handler; when its loop ends the handler returns.\<close>

definition ws_receive :: "'p DataProducer \<Rightarrow> 'c ws_lib \<Rightarrow> nat \<Rightarrow> 'c ws_conn \<Rightarrow> ('p, 'c) receiver_server \<Rightarrow>
    ('p, 'c) receiver_server" where
  "ws_receive P lib k c rv =
     (case wsReceive_step P lib (rv_receiver rv) c of
        (True, dr, c1) \<Rightarrow>
          rv\<lparr>rv_receiver := dr, rv_conns := (rv_conns rv)(k \<mapsto> c1),
             rv_read := rv_read rv @ [(k, projr (fst (ws_ReadMessage lib (wc_conn c))))]\<rparr>
      | (False, dr, c1) \<Rightarrow> rv\<lparr>rv_receiver := ws_closed k dr, rv_conns := (rv_conns rv)(k := None)\<rparr>)"

definition DataReceiver_closeConnections :: "'c ws_lib \<Rightarrow> ('p, 'c) receiver_server \<Rightarrow> ('p, 'c) receiver_server" where
  "DataReceiver_closeConnections lib rv =
     rv\<lparr>rv_conns := (\<lambda>k.
        if k \<in> dr_connections (rv_receiver rv)
        then map_option (\<lambda>c. c\<lparr>wc_conn := ws_Close lib (ws_WriteClose lib 1001 ''server shutting down'' (wc_conn c))\<rparr>)
               (rv_conns rv k)
        else rv_conns rv k)\<rparr>"

text \<open>A connection has an identity of its own; a handler that has returned does not read.\<close>

fun receiver_step :: "'p DataProducer \<Rightarrow> 'c ws_lib \<Rightarrow> 'c receiver_op \<Rightarrow> ('p, 'c) receiver_server \<Rightarrow>
    ('p, 'c) receiver_server option" where
  "receiver_step P lib (Connect k (Inl err)) rv = Some rv"
| "receiver_step P lib (Connect k (Inr conn)) rv =
     (if rv_conns rv k = None then Some (ws_connect k conn rv) else None)"
| "receiver_step P lib (Receive k) rv = map_option (\<lambda>c. ws_receive P lib k c rv) (rv_conns rv k)"
| "receiver_step P lib GoingAway rv = Some (DataReceiver_closeConnections lib rv)"

fun receiver_run :: "'p DataProducer \<Rightarrow> 'c ws_lib \<Rightarrow> 'c receiver_op list \<Rightarrow> ('p, 'c) receiver_server \<Rightarrow>
    ('p, 'c) receiver_server option" where
  "receiver_run P lib [] rv = Some rv"
| "receiver_run P lib (a # as) rv = Option.bind (receiver_step P lib a rv) (receiver_run P lib as)"

lemmas receiver_server_eval [go_eval] =
  receiver_start_def ws_connect_def ws_receive_def DataReceiver_closeConnections_def

section \<open>Invariants\<close>

text \<open>What a receiver has at any time, in terms of where it started from and what it has read.\<close>

definition serving :: "('p \<Rightarrow> OBUData option list) \<Rightarrow> 'p DataReceiver \<Rightarrow> ('p, 'c) receiver_server \<Rightarrow> bool" where
  "serving published dr0 rv \<longleftrightarrow>
     (let dr = rv_receiver rv; vs = map snd (rv_read rv)
      in finite (dom (rv_conns rv)) \<and> dr_connections dr = dom (rv_conns rv)
         \<and> dr_activeWebSockets dr = dr_activeWebSockets dr0 + int (card (dom (rv_conns rv)))
         \<and> published (dr_prod dr) = published (dr_prod dr0) @ map Some (accepted vs)
         \<and> dr_events dr = dr_events dr0 + length vs
         \<and> dr_invalidEvents dr + length (accepted vs) = dr_invalidEvents dr0 + length vs
         \<and> dr_enqueueFailures dr \<le> dr_enqueueFailures dr0 + length (accepted vs))"

lemma accepted_append [simp]: "accepted (vs @ ws) = accepted vs @ accepted ws"
  by (induction vs) (auto split: option.splits)

lemma serving_start: "dr_connections dr = {} \<Longrightarrow> serving published dr (receiver_start dr)"
  by (simp add: serving_def receiver_start_def)

lemma serving_connect: "serving published dr0 rv \<Longrightarrow> rv_conns rv k = None \<Longrightarrow> serving published dr0 (ws_connect k conn rv)"
  by (simp add: serving_def ws_connect_def ws_opened_def Let_def domIff)

lemma dom_closeConnections: "dom (rv_conns (DataReceiver_closeConnections lib rv)) = dom (rv_conns rv)"
  by (auto simp: DataReceiver_closeConnections_def dom_def split: if_splits)

lemma serving_closeConnections: "serving published dr0 rv \<Longrightarrow> serving published dr0 (DataReceiver_closeConnections lib rv)"
  using dom_closeConnections [of lib rv]
  by (auto simp: serving_def Let_def DataReceiver_closeConnections_def)

context data_producer
begin

lemma step_counts:
  assumes "wsReceive_step P lib dr c = (True, dr', c')"
  shows "\<exists>v w. ws_ReadMessage lib (wc_conn c) = (Inr v, w)
    \<and> published (dr_prod dr') = published (dr_prod dr) @ map Some (accepted [v])
    \<and> dr_events dr' = dr_events dr + 1 \<and> dr_invalidEvents dr' + length (accepted [v]) = dr_invalidEvents dr + 1
    \<and> dr_enqueueFailures dr' \<le> dr_enqueueFailures dr + length (accepted [v])
    \<and> dr_connections dr' = dr_connections dr \<and> dr_activeWebSockets dr' = dr_activeWebSockets dr"
proof -
  obtain v w where r: "ws_ReadMessage lib (wc_conn c) = (Inr v, w)"
    using assms by (auto simp: wsReceive_step_event split: prod.splits sum.splits)
  show ?thesis
  proof (cases "payload_event v")
    case None
    then show ?thesis using assms r by (auto simp: wsReceive_step_event)
  next
    case (Some e)
    then show ?thesis
      using assms r produce [OF payload_event_good [OF Some], of "dr_prod dr"]
      by (auto simp: wsReceive_step_event split_beta)
  qed
qed

lemma serving_receive:
  assumes "serving published dr0 rv" "rv_conns rv k = Some c"
  shows "serving published dr0 (ws_receive P lib k c rv)"
proof -
  obtain b dr c1 where step: "wsReceive_step P lib (rv_receiver rv) c = (b, dr, c1)"
    by (cases "wsReceive_step P lib (rv_receiver rv) c") auto
  show ?thesis
  proof (cases b)
    case True
    then have cont: "wsReceive_step P lib (rv_receiver rv) c = (True, dr, c1)" using step by simp
    obtain v w where "ws_ReadMessage lib (wc_conn c) = (Inr v, w)"
      "published (dr_prod dr) = published (dr_prod (rv_receiver rv)) @ map Some (accepted [v])"
      "dr_events dr = dr_events (rv_receiver rv) + 1"
      "dr_invalidEvents dr + length (accepted [v]) = dr_invalidEvents (rv_receiver rv) + 1"
      "dr_enqueueFailures dr \<le> dr_enqueueFailures (rv_receiver rv) + length (accepted [v])"
      "dr_connections dr = dr_connections (rv_receiver rv)" "dr_activeWebSockets dr = dr_activeWebSockets (rv_receiver rv)"
      using step_counts [OF cont] by blast
    moreover have "dom ((rv_conns rv)(k \<mapsto> c1)) = dom (rv_conns rv)" using assms(2) by auto
    ultimately show ?thesis using assms(1) step True by (simp add: serving_def ws_receive_def Let_def)
  next
    case False
    then have dr: "dr = rv_receiver rv"
      using step by (auto simp: wsReceive_step_event split: prod.splits sum.splits)
    have "k \<in> dom (rv_conns rv)" using assms(2) by auto
    then have "0 < card (dom (rv_conns rv))" "card (dom (rv_conns rv) - {k}) = card (dom (rv_conns rv)) - 1"
      using assms(1) by (auto simp: serving_def Let_def card_gt_0_iff)
    then show ?thesis
      using assms(1) step False dr by (simp add: serving_def ws_receive_def ws_closed_def Let_def of_nat_diff)
  qed
qed

lemma serving_run:
  "receiver_run P lib as rv = Some rv' \<Longrightarrow> serving published dr0 rv \<Longrightarrow> serving published dr0 rv'"
proof (induction as arbitrary: rv)
  case (Cons a as)
  then obtain rv1 where step: "receiver_step P lib a rv = Some rv1" and run: "receiver_run P lib as rv1 = Some rv'"
    by (auto split: bind_splits)
  have "serving published dr0 rv1"
    using step Cons.prems(2) serving_connect serving_receive serving_closeConnections
    by (cases "(P, lib, a, rv)" rule: receiver_step.cases) (auto split: if_splits)
  then show ?case by (rule Cons.IH [OF run])
qed simp

end

section \<open>A handler as a sequence of steps\<close>

lemma iterate_steps:
  assumes "wsReceive_iterate P lib n (rv_receiver rv) c = (returned, dr', c')" "rv_conns rv k = Some c"
  shows "\<exists>m \<le> n. \<exists>rv'. receiver_run P lib (replicate m (Receive k)) rv = Some rv'
    \<and> rv_receiver rv' = (if returned then ws_closed k dr' else dr')
    \<and> rv_conns rv' = (rv_conns rv)(k := if returned then None else Some c')"
  using assms
proof (induction n arbitrary: rv c)
  case 0
  then show ?case by (auto intro!: exI [of _ rv])
next
  case (Suc n)
  obtain b dr1 c1 where step: "wsReceive_step P lib (rv_receiver rv) c = (b, dr1, c1)"
    by (cases "wsReceive_step P lib (rv_receiver rv) c") auto
  let ?rv = "ws_receive P lib k c rv"
  have first: "receiver_run P lib (replicate (Suc m) (Receive k)) rv = receiver_run P lib (replicate m (Receive k)) ?rv" for m
    using Suc.prems(2) by simp
  show ?case
  proof (cases b)
    case True
    then have iter: "wsReceive_iterate P lib n (rv_receiver ?rv) c1 = (returned, dr', c')" "rv_conns ?rv k = Some c1"
      and conns: "rv_conns ?rv = (rv_conns rv)(k \<mapsto> c1)"
      using Suc.prems step by (simp_all add: ws_receive_def)
    obtain m rv' where m: "m \<le> n" "receiver_run P lib (replicate m (Receive k)) ?rv = Some rv'"
      "rv_receiver rv' = (if returned then ws_closed k dr' else dr')"
      and "rv_conns rv' = (rv_conns ?rv)(k := if returned then None else Some c')"
      using Suc.IH [OF iter] by blast
    then have "rv_conns rv' = (rv_conns rv)(k := if returned then None else Some c')" by (simp only: conns fun_upd_upd)
    with m show ?thesis using first [of m] by (intro exI [of _ "Suc m"]) auto
  next
    case False
    then have "returned" "rv_receiver ?rv = ws_closed k dr'" "rv_conns ?rv = (rv_conns rv)(k := None)"
      using Suc.prems step by (simp_all add: ws_receive_def)
    then show ?thesis using first [of 0] by (intro exI [of _ 1]) auto
  qed
qed

section \<open>Properties of the receiver as a server\<close>

lemma new_receiver_serving:
  assumes "NewDataReceiver new getenv = Inr dr0"
    and "receiver_run (NewProduceLogMiddleware (kafkaProducer lib)) ws as (receiver_start dr0) = Some rv"
  shows "kafka_published (pg_next (dr_prod dr0)) = []" "dr_activeWebSockets dr0 = 0" "dr_events dr0 = 0" "dr_invalidEvents dr0 = 0"
    "serving (\<lambda>l. kafka_published (pg_next l)) dr0 rv"
proof -
  show "kafka_published (pg_next (dr_prod dr0)) = []" "dr_activeWebSockets dr0 = 0" "dr_events dr0 = 0" "dr_invalidEvents dr0 = 0"
    using assms(1) by (auto simp: NewDataReceiver_def NewKafkaProducer_def NewDataReceiverWithProducer_def
        kafka_published_def split: sum.splits)
  have "dr_connections dr0 = {}"
    using assms(1) by (auto simp: NewDataReceiver_def NewDataReceiverWithProducer_def split: sum.splits)
  then show "serving (\<lambda>l. kafka_published (pg_next l)) dr0 rv"
    using receiver_producer.serving_run [OF assms(2)] serving_start by blast
qed


definition busy_schedule :: "json option list receiver_op list" where
  "busy_schedule = [Connect 1 (Inr [payload_a, None]), Connect 2 (Inr [None]), Receive 2, Receive 1, Receive 1, Receive 2]"


text \<open>
  The handler as one function and the handler as a goroutine that takes turns are the same: what
  \<open>handleWS\<close> does within n iterations is what a connection and at most n receive steps do.
\<close>

theorem handleWS_steps:
  assumes "handleWS P lib n (Inr conn) k (rv_receiver rv) = (returned, dr', left)" "rv_conns rv k = None"
  shows "\<exists>m \<le> n. \<exists>rv'. receiver_run P lib (Connect k (Inr conn) # replicate m (Receive k)) rv = Some rv'
    \<and> rv_receiver rv' = dr' \<and> (rv_conns rv' k = None \<longleftrightarrow> returned)"
proof -
  let ?rv = "ws_connect k conn rv"
  obtain dr2 c where loop: "wsReceiveLoop P lib n (ws_opened k (rv_receiver rv)) conn = (returned, dr2, c)"
    and dr': "dr' = (if returned then ws_closed k dr2 else dr2)"
    using assms(1) by (auto simp: handleWS_def Let_def split: prod.splits if_splits)
  have "rv_receiver ?rv = ws_opened k (rv_receiver rv)" "dr_readLimit (ws_opened k (rv_receiver rv)) = dr_readLimit (rv_receiver rv)"
    by (simp_all add: ws_connect_def ws_opened_def)
  with loop have "wsReceive_iterate P lib n (rv_receiver ?rv)
      (SetReadDeadline \<lparr>wc_conn = conn, wc_readLimit = dr_readLimit (rv_receiver rv), wc_deadlines = 0\<rparr>) = (returned, dr2, c)"
    by (simp add: wsReceiveLoop_def)
  from iterate_steps [OF this, of k]
  obtain m rv' where "m \<le> n" "receiver_run P lib (replicate m (Receive k)) ?rv = Some rv'"
    "rv_receiver rv' = dr'" "rv_conns rv' k = None \<longleftrightarrow> returned"
    by (auto simp: ws_connect_def dr')
  then show ?thesis using assms(2) by (intro exI [of _ m]) simp
qed

theorem handleWS_steps_witness:
  "\<exists>m \<le> 3. \<exists>rv'. receiver_run (NewProduceLogMiddleware (kafkaProducer calm_producer)) list_ws
      (Connect 7 (Inr [payload_a, None]) # replicate m (Receive 7)) (receiver_start calm_receiver) = Some rv'
    \<and> rv_receiver rv' = fst (snd (handleWS (NewProduceLogMiddleware (kafkaProducer calm_producer)) list_ws 3
        (Inr [payload_a, None]) 7 calm_receiver))"
proof -
  let ?h = "handleWS (NewProduceLogMiddleware (kafkaProducer calm_producer)) list_ws 3 (Inr [payload_a, None]) 7 calm_receiver"
  have "handleWS (NewProduceLogMiddleware (kafkaProducer calm_producer)) list_ws 3 (Inr [payload_a, None]) 7
      (rv_receiver (receiver_start calm_receiver)) = (fst ?h, fst (snd ?h), snd (snd ?h))"
    by (simp add: receiver_start_def)
  from handleWS_steps [OF this] show ?thesis by (auto simp: receiver_start_def)
qed

section \<open>The process\<close>

text \<open>
  \<open>main\<close>: the server takes its turns until a signal arrives; \<open>Shutdown\<close> runs \<open>closeConnections\<close>, which
  leaves the handlers some more turns; the producer is flushed and closed at the end. \<open>serveErr\<close> is what
  \<open>ListenAndServe\<close> returns, where \<open>None\<close> stands for \<open>ErrServerClosed\<close>, and \<open>stopErr\<close> is the error of \<open>Shutdown\<close>. The
  outer \<open>None\<close> means that the turns are not those of a run.
\<close>

record ('b, 'c) receiver_exit =
  rx_addr :: string
  rx_log :: "string list"
  rx_error :: "string option"
  rx_server :: "('b KafkaProducer produce_logged, 'c) receiver_server"

definition receiver_main :: "((string \<times> config_value) list \<Rightarrow> string + 'b) \<Rightarrow> (string \<Rightarrow> string) \<Rightarrow> 'b producer_lib \<Rightarrow> 'c ws_lib \<Rightarrow>
    string option \<Rightarrow> string option \<Rightarrow> 'c receiver_op list \<Rightarrow> 'c receiver_op list \<Rightarrow> (string + ('b, 'c) receiver_exit) option" where
  "receiver_main new getenv lib ws serveErr stopErr turns rest =
     (let P = NewProduceLogMiddleware (kafkaProducer lib)
      in (case NewDataReceiver new getenv of
            Inl err \<Rightarrow> Some (Inl err)
          | Inr dr0 \<Rightarrow>
              map_option (\<lambda>rv. let dr = rv_receiver rv; (err, p) = dp_Close P (dr_prod dr)
                            in Inr \<lparr>rx_addr = envOr getenv ''RECEIVER_HTTP_ADDR'' '':30000'',
                                 rx_log = log_error ''receiver server'' serveErr @ log_error ''receiver shutdown'' stopErr
                                   @ log_error ''producer shutdown'' err,
                                 rx_error = err, rx_server = rv\<lparr>rv_receiver := dr\<lparr>dr_prod := p\<rparr>\<rparr>\<rparr>)
                (receiver_run P ws (turns @ GoingAway # rest) (receiver_start dr0))))"



end
