(* ===== verification/Kafka_Log.thy ===== *)
theory Kafka_Log
  imports Consumer
begin

text \<open>
  Progress of the distance calculator on a well-behaved Kafka: one partition whose log is fixed, a
  position that reading advances and seeking sets, and a committed offset. The lemmas show that the
  consumer works through the whole log, however many calls to the aggregator fail, as long as enough
  of them are delivered.
\<close>

record kafka_log =
  lg_log :: "kafka_message list"
  lg_position :: nat
  lg_committed :: nat

definition log_kafka :: "kafka_message list \<Rightarrow> kafka_log kafka_lib" where
  "log_kafka ms =
     \<lparr>kl_NewConsumer = (\<lambda>_. Inr \<lparr>lg_log = ms, lg_position = 0, lg_committed = 0\<rparr>),
      kl_SubscribeTopics = (\<lambda>_ k. (None, k)),
      kl_Close = (\<lambda>k. (None, k)),
      kl_Cancelled = (\<lambda>k. (False, k)),
      kl_ReadMessage = (\<lambda>_ k.
        if lg_position k < length (lg_log k)
        then (Inr (lg_log k ! lg_position k), k\<lparr>lg_position := lg_position k + 1\<rparr>)
        else (Inl ErrTimedOut, k)),
      kl_CommitMessage = (\<lambda>m k. (None, k\<lparr>lg_committed := unat (m_Offset m) + 1\<rparr>)),
      kl_Seek = (\<lambda>m k. (None, k\<lparr>lg_position := unat (m_Offset m)\<rparr>)),
      kl_GetWatermarkOffsets = (\<lambda>_ _ k. (Inr (0, of_nat (length (lg_log k))), k)),
      kl_DeadlineExceeded = (\<lambda>k. (False, k))\<rparr>"

definition wf_log :: "kafka_message list \<Rightarrow> bool" where
  "wf_log ms \<longleftrightarrow> (\<forall>k < length ms. unat (m_Offset (ms ! k)) = k)"

definition log_events :: "kafka_message list \<Rightarrow> OBUData list" where
  "log_events ms = events_read (map Read ms)"

definition log_track :: "kafka_message list \<Rightarrow> OBUData list" where
  "log_track ms = foldl visit [] (log_events ms)"

lemmas log_eval [go_eval] = log_kafka_def wf_log_def log_events_def log_track_def

lemma log_events_append [simp]: "log_events (ms @ ns) = log_events ms @ log_events ns"
  by (simp add: log_events_def)

lemma log_events_single: "log_events [m] = (case event_of m of None \<Rightarrow> [] | Some e \<Rightarrow> [e])"
  by (simp add: log_events_def split: option.splits)

lemma log_events_Cons: "log_events (m # ms) = (case event_of m of None \<Rightarrow> log_events ms | Some e \<Rightarrow> e # log_events ms)"
  by (simp add: log_events_def split: option.splits)

section \<open>Calls that are delivered in the end\<close>

fun deliveries :: "net_op list \<Rightarrow> nat" where
  "deliveries [] = 0"
| "deliveries (Deliver now # ops) = Suc (deliveries ops)"
| "deliveries (_ # ops) = deliveries ops"

lemma exchange_progress:
  assumes "exchange h r sent ops v = (a, ops', v')" "0 < deliveries ops"
  shows "length ops' < length ops \<and> deliveries ops = deliveries ops' + (if a = None then 0 else 1)"
  using assms
proof (induction h r sent ops v rule: exchange.induct)
  case (5 h r sent k now ops v)
  then show ?case by fastforce
qed (auto split: prod.splits)

lemma call_progress:
  assumes "call h r nw = (a, nw')" "0 < deliveries (nt_script nw)"
  shows "length (nt_script nw') < length (nt_script nw)
    \<and> deliveries (nt_script nw) = deliveries (nt_script nw') + (if a = None then 0 else 1)"
  using assms exchange_progress [of h r "nt_sent nw" "nt_script nw" "nt_server nw"]
  by (auto simp: call_def split: prod.splits)

text \<open>
  A valid request over a script that still has a delivery: it is accepted and uses one up, or it
  fails and uses up something else.
\<close>

lemma grpc_call_progress:
  assumes st: "grpc_state svc_rel S L w" and run: "GrpcClient_Aggregate (deployed_grpc aggregator_svc) g req w = (err, w')"
    and del: "0 < deliveries (nt_script (ct_net w))" and valid: "valid_distance (request_distance req)"
    and utf8: "utf8 (ar_EventID req)"
  shows "length (nt_script (ct_net w')) < length (nt_script (ct_net w))
    \<and> deliveries (nt_script (ct_net w)) = deliveries (nt_script (ct_net w')) + (if err = None then 1 else 0)"
proof -
  obtain a nw' where c: "call (newGRPCServer aggregator_svc) req (ct_net w) = (a, nw')"
    by (cases "call (newGRPCServer aggregator_svc) req (ct_net w)")
  have w': "ct_net w' = nw'" and err: "err = (case a of None \<Rightarrow> Some (GrpcError DeadlineExceeded)
      | Some code \<Rightarrow> (if code \<noteq> OK then Some (GrpcError code) else None))"
    using run c utf8 by (auto simp: GrpcClient_Aggregate_def deployed_grpc_def split: option.splits)
  have "code = OK" if code: "a = Some code" for code
  proof -
    obtain now u K where "svc_rel K (sv_svc u)" "newGRPCServer aggregator_svc now req u = (code, nt_server nw')"
      using call_grown [of req "ct_net w" svc_rel "\<lambda>q. Some (request_distance q)" "newGRPCServer aggregator_svc"
          UNIV L a nw', OF svc.grpc_applied _ _ _ c] st code billed_mono [of S L UNIV]
      by (auto simp: grpc_state_def)
    then show ?thesis using svc.grpc_request [of K u now req] valid by simp
  qed
  then show ?thesis using call_progress [OF c del] w' err by (auto split: option.splits if_splits)
qed

section \<open>One iteration on the log\<close>

text \<open>
  The calculator between two iterations: \<open>p\<close> messages are done, the position and the committed offset
  agree, and the network can still deliver as many calls as there are events left. The message at the
  position may have been read before.
\<close>

definition draining :: "kafka_message list \<Rightarrow> nat \<Rightarrow>
    (calc_state, (AggregateRequest, svc_state agg_server) network client_state, kafka_log) KafkaConsumer \<Rightarrow> bool" where
  "draining ms p st \<longleftrightarrow>
     p \<le> length ms \<and> kc_consumer st = \<lparr>lg_log = ms, lg_position = p, lg_committed = p\<rparr>
     \<and> (\<exists>L. pipeline_inv calc_svc_rel (grpc_state svc_rel) {} L st)
     \<and> track_of (kc_calls st) \<in> {log_track (take p ms), log_track (take (p + 1) ms)}
     \<and> (\<forall>k < p. Commit (ms ! k) \<in> set (kc_calls st))
     \<and> length (log_events (drop p ms)) \<le> deliveries (nt_script (ct_net (kc_aggClient st)))"

definition acceptable :: "kafka_message list \<Rightarrow> bool" where
  "acceptable ms \<longleftrightarrow> (\<forall>e \<in> set (log_events ms). valid_distance (bill (log_track ms) e))"

lemma log_track_take_Suc:
  assumes "p < length ms"
  shows "log_track (take (Suc p) ms) =
    (case event_of (ms ! p) of None \<Rightarrow> log_track (take p ms) | Some e \<Rightarrow> visit (log_track (take p ms)) e)"
  using assms by (simp add: log_track_def take_Suc_conv_app_nth log_events_single split: option.splits)

lemma visit_visit: "od_EventID e \<noteq> '''' \<Longrightarrow> visit (visit T e) e = visit T e"
  by (simp add: visit_def [of "visit T e"] track_ids_extend)

lemma bill_foldl_visit: "od_EventID e \<in> track_ids T \<Longrightarrow> bill (foldl visit T es) e = bill T e"
  by (induction es arbitrary: T) (simp_all add: bill_extend track_ids_extend)

lemma acceptable_bill:
  assumes "acceptable ms" "p < length ms" "event_of (ms ! p) = Some e"
  shows "valid_distance (bill (log_track (take (Suc p) ms)) e)"
proof -
  have id: "od_EventID e \<noteq> ''''" using event_of_good [OF assms(3)] by (simp add: valid_event_def)
  have ms: "ms = take (Suc p) ms @ drop (Suc p) ms" by simp
  have e: "e \<in> set (log_events (take (Suc p) ms))"
    using assms(2,3) by (simp add: take_Suc_conv_app_nth log_events_single)
  then have "od_EventID e \<in> track_ids (log_track (take (Suc p) ms))"
    unfolding log_track_def using id by (intro foldl_extend_ids)
  moreover have "log_track ms = foldl visit (log_track (take (Suc p) ms)) (log_events (drop (Suc p) ms))"
    unfolding log_track_def by (subst ms) (simp only: log_events_append foldl_append)
  ultimately have "bill (log_track ms) e = bill (log_track (take (Suc p) ms)) e" by (simp add: bill_foldl_visit)
  moreover have "e \<in> set (log_events ms)" using e by (subst ms) (simp only: log_events_append set_append Un_iff simp_thms)
  ultimately show ?thesis using assms(1) by (auto simp: acceptable_def)
qed

lemma processEvent_outcome:
  assumes "ca_CalculateDist calc (kc_calcService st) e = (Inr v, s)"
    "cl_Aggregate agg (event_request e v) (kc_aggClient st) = (err, w)"
    "kl_DeadlineExceeded lib (kc_consumer st) = (b, k)"
  shows "\<exists>st1. processEvent lib calc agg e st = (map_option (AggregateError (od_EventID e)) err, st1)
    \<and> kc_aggClient st1 = w \<and> kc_consumer st1 = k \<and> kc_calls st1 = kc_calls st"
  using assms by (simp add: processEvent_def)

lemma updateLag_log [simp]: "kc_consumer (updateLag (log_kafka ms) m st) = kc_consumer st"
  by (simp add: updateLag_def log_kafka_def Let_def split: option.splits)

text \<open>What an iteration does to the log, by the outcome of processing.\<close>

lemma Start_step_log:
  assumes "kc_consumer st = \<lparr>lg_log = ms, lg_position = p, lg_committed = c\<rparr>" "p < length ms" "wf_log ms"
  shows "\<exists>st2. kc_consumer st2 = \<lparr>lg_log = ms, lg_position = Suc p, lg_committed = c\<rparr>
    \<and> kc_calls st2 = kc_calls st @ [Read (ms ! p)] \<and> kc_calcService st2 = kc_calcService st
    \<and> kc_aggClient st2 = kc_aggClient st
    \<and> (\<forall>st3. processMessage (log_kafka ms) calc agg (ms ! p) st2 = (None, st3) \<longrightarrow>
        Start_step (log_kafka ms) calc agg st = (Continue, st3))
    \<and> (\<forall>err st3. processMessage (log_kafka ms) calc agg (ms ! p) st2 = (Some err, st3) \<longrightarrow>
        (\<exists>st4. Start_step (log_kafka ms) calc agg st = (Continue, st4)
           \<and> kc_consumer st4 = (kc_consumer st3)\<lparr>lg_position := p\<rparr>
           \<and> kc_calls st4 = kc_calls st3 @ [Seek (ms ! p)] \<and> kc_aggClient st4 = kc_aggClient st3))"
proof -
  let ?k = "\<lparr>lg_log = ms, lg_position = Suc p, lg_committed = c\<rparr>"
  define st2 where "st2 = updateLag (log_kafka ms) (ms ! p) (st\<lparr>kc_consumer := ?k,
    kc_events := kc_events st + 1, kc_calls := kc_calls st @ [Read (ms ! p)]\<rparr>)"
  have "unat (m_Offset (ms ! p)) = p" using assms by (simp add: wf_log_def)
  moreover have "Start_step (log_kafka ms) calc agg st =
      (case processMessage (log_kafka ms) calc agg (ms ! p) st2 of
         (None, st3) \<Rightarrow> (Continue, st3)
       | (Some err, st3) \<Rightarrow>
           let st4 = count_error ''process'' st3
           in (Continue, st4\<lparr>kc_consumer := (kc_consumer st4)\<lparr>lg_position := unat (m_Offset (ms ! p))\<rparr>,
                kc_calls := kc_calls st4 @ [Seek (ms ! p)]\<rparr>))"
    using assms(1,2)
    by (simp add: Start_step_def log_kafka_def st2_def Let_def cong: option.case_cong)
  ultimately show ?thesis
    by (intro exI [of _ st2]) (auto simp: st2_def count_error_def)
qed

lemma draining_discard:
  assumes d: "draining ms p st" and p: "p < length ms" and wf: "wf_log ms" and none: "event_of (ms ! p) = None"
  shows "\<exists>st'. Start_step (log_kafka ms) calc_svc agg st = (Continue, st')
    \<and> kc_consumer st' = \<lparr>lg_log = ms, lg_position = Suc p, lg_committed = Suc p\<rparr>
    \<and> kc_calls st' = kc_calls st @ [Read (ms ! p), Commit (ms ! p)] \<and> kc_aggClient st' = kc_aggClient st"
proof -
  have k: "kc_consumer st = \<lparr>lg_log = ms, lg_position = p, lg_committed = p\<rparr>" using d by (simp add: draining_def)
  have off: "unat (m_Offset (ms ! p)) = p" using wf p by (simp add: wf_log_def)
  obtain st2 where st2: "kc_consumer st2 = \<lparr>lg_log = ms, lg_position = Suc p, lg_committed = p\<rparr>"
    "kc_calls st2 = kc_calls st @ [Read (ms ! p)]" "kc_aggClient st2 = kc_aggClient st"
    "\<And>st3. processMessage (log_kafka ms) calc_svc agg (ms ! p) st2 = (None, st3) \<Longrightarrow>
       Start_step (log_kafka ms) calc_svc agg st = (Continue, st3)"
    using Start_step_log [OF k p wf, of calc_svc agg] by blast
  have "processMessage (log_kafka ms) calc_svc agg (ms ! p) st2 = (None, snd (discard (log_kafka ms) (ms ! p) st2))"
    using none by (simp add: processMessage_event discard_def CommitMessage_def log_kafka_def)
  from st2(4) [OF this] st2(1-3) off show ?thesis
    by (simp add: discard_def CommitMessage_def log_kafka_def)
qed

lemma draining_event:
  fixes g :: GrpcClient
  assumes d: "draining ms p st" and p: "p < length ms" and wf: "wf_log ms" and acc: "acceptable ms"
    and e: "event_of (ms ! p) = Some e"
  defines "agg \<equiv> grpcClient (deployed_grpc aggregator_svc) g"
    and "script \<equiv> \<lambda>st. nt_script (ct_net (kc_aggClient st))"
  shows "\<exists>st' ok. Start_step (log_kafka ms) calc_svc agg st = (Continue, st')
    \<and> kc_consumer st' = (if ok then \<lparr>lg_log = ms, lg_position = Suc p, lg_committed = Suc p\<rparr>
        else \<lparr>lg_log = ms, lg_position = p, lg_committed = p\<rparr>)
    \<and> kc_calls st' = kc_calls st @ [Read (ms ! p), if ok then Commit (ms ! p) else Seek (ms ! p)]
    \<and> length (script st') < length (script st)
    \<and> deliveries (script st) = deliveries (script st') + (if ok then 1 else 0)"
proof -
  let ?T = "track_of (kc_calls st)" and ?lib = "log_kafka ms"
  have k: "kc_consumer st = \<lparr>lg_log = ms, lg_position = p, lg_committed = p\<rparr>" using d by (simp add: draining_def)
  have off: "unat (m_Offset (ms ! p)) = p" using wf p by (simp add: wf_log_def)
  have good: "od_EventID e \<noteq> ''''" "utf8 (od_EventID e)" using event_of_good [OF e] by (simp_all add: valid_event_def)
  obtain S L where st: "calc_svc_rel ?T (kc_calcService st)" "grpc_state svc_rel S L (kc_aggClient st)"
    using d by (auto simp: draining_def pipeline_inv_def Let_def)
  have T: "?T \<in> {log_track (take p ms), log_track (take (Suc p) ms)}" using d by (simp add: draining_def)
  then have "bill ?T e = bill (log_track (take (Suc p) ms)) e"
    using log_track_take_Suc [OF p] e bill_new [OF good(1)] by auto
  then have valid: "valid_distance (request_distance (event_request e (answer ?T e)))"
    using acceptable_bill [OF acc p e] by (simp add: bill_def)
  have "log_events (drop p ms) = e # log_events (drop (Suc p) ms)"
    using e p by (simp add: Cons_nth_drop_Suc [symmetric] log_events_Cons)
  then have del: "0 < deliveries (script st)" using d by (simp add: draining_def script_def)
  obtain st2 where st2: "kc_consumer st2 = \<lparr>lg_log = ms, lg_position = Suc p, lg_committed = p\<rparr>"
    "kc_calls st2 = kc_calls st @ [Read (ms ! p)]" "kc_calcService st2 = kc_calcService st"
    "kc_aggClient st2 = kc_aggClient st"
    "\<And>st3. processMessage ?lib calc_svc agg (ms ! p) st2 = (None, st3) \<Longrightarrow>
       Start_step ?lib calc_svc agg st = (Continue, st3)"
    "\<And>err st3. processMessage ?lib calc_svc agg (ms ! p) st2 = (Some err, st3) \<Longrightarrow>
       \<exists>st4. Start_step ?lib calc_svc agg st = (Continue, st4)
         \<and> kc_consumer st4 = (kc_consumer st3)\<lparr>lg_position := p\<rparr>
         \<and> kc_calls st4 = kc_calls st3 @ [Seek (ms ! p)] \<and> kc_aggClient st4 = kc_aggClient st3"
    using Start_step_log [OF k p wf, of calc_svc agg] by blast
  obtain s where s: "ca_CalculateDist calc_svc (kc_calcService st2) e = (Inr (answer ?T e), s)"
    using calc_svc.calculates [OF st(1)] st2(3) by metis
  obtain err w where w: "GrpcClient_Aggregate (deployed_grpc aggregator_svc) g (event_request e (answer ?T e)) (kc_aggClient st) = (err, w)"
    by (cases "GrpcClient_Aggregate (deployed_grpc aggregator_svc) g (event_request e (answer ?T e)) (kc_aggClient st)")
  have progress: "length (nt_script (ct_net w)) < length (script st)"
    "deliveries (script st) = deliveries (nt_script (ct_net w)) + (if err = None then 1 else 0)"
    using grpc_call_progress [OF st(2) w _ valid] del good(2) by (simp_all add: script_def event_request_def)
  have "cl_Aggregate agg (event_request e (answer ?T e)) (kc_aggClient st2) = (err, w)"
    using w st2(4) by (simp add: agg_def grpcClient_def)
  from processEvent_outcome [OF s this, of ?lib False "kc_consumer st2"]
  obtain st3 where st3: "processEvent ?lib calc_svc agg e st2 = (map_option (AggregateError (od_EventID e)) err, st3)"
    "kc_aggClient st3 = w" "kc_consumer st3 = kc_consumer st2" "kc_calls st3 = kc_calls st2"
    by (auto simp: log_kafka_def)
  show ?thesis
  proof (cases err)
    case None
    let ?st' = "snd (CommitMessage ?lib (ms ! p) st3)"
    have "processMessage ?lib calc_svc agg (ms ! p) st2 = (None, ?st')"
      using e None st3(1) by (simp add: processMessage_event CommitMessage_def log_kafka_def)
    then show ?thesis
      using st2(1,2,5) st3 off progress None
      by (intro exI [of _ ?st'] exI [of _ True]) (simp add: CommitMessage_def log_kafka_def script_def)
  next
    case (Some x)
    have "processMessage ?lib calc_svc agg (ms ! p) st2 = (Some (AggregateError (od_EventID e) x), st3)"
      using e Some st3(1) by (simp add: processMessage_event)
    from st2(6) [OF this] obtain st4 where "Start_step ?lib calc_svc agg st = (Continue, st4)"
      "kc_consumer st4 = (kc_consumer st3)\<lparr>lg_position := p\<rparr>"
      "kc_calls st4 = kc_calls st3 @ [Seek (ms ! p)]" "kc_aggClient st4 = kc_aggClient st3" by blast
    then show ?thesis
      using st2(1,2) st3 progress Some
      by (intro exI [of _ st4] exI [of _ False]) (simp add: script_def)
  qed
qed

lemma draining_step:
  fixes g :: GrpcClient
  assumes d: "draining ms p st" and p: "p < length ms" and wf: "wf_log ms" and acc: "acceptable ms"
  defines "agg \<equiv> grpcClient (deployed_grpc aggregator_svc) g"
    and "script \<equiv> \<lambda>st. nt_script (ct_net (kc_aggClient st))"
  shows "\<exists>st'. Start_step (log_kafka ms) calc_svc agg st = (Continue, st')
    \<and> (draining ms (Suc p) st' \<and> length (script st') \<le> length (script st)
       \<or> draining ms p st' \<and> length (script st') < length (script st))"
proof (cases "event_of (ms ! p)")
  case None
  obtain st' where st': "Start_step (log_kafka ms) calc_svc agg st = (Continue, st')"
    "kc_consumer st' = \<lparr>lg_log = ms, lg_position = Suc p, lg_committed = Suc p\<rparr>"
    "kc_calls st' = kc_calls st @ [Read (ms ! p), Commit (ms ! p)]" "kc_aggClient st' = kc_aggClient st"
    using draining_discard [OF d p wf None] by blast
  obtain L where "pipeline_inv calc_svc_rel (grpc_state svc_rel) {} L st'"
    using grpc_pipeline.Start_step_inv [of "{}" _ st "log_kafka ms" g Continue st'] st'(1) d
    by (auto simp: draining_def agg_def)
  moreover have "track_of (kc_calls st') = log_track (take (Suc p) ms)"
    using d log_track_take_Suc [OF p] None by (auto simp: st'(3) draining_def track_of_def)
  moreover have "log_events (drop p ms) = log_events (drop (Suc p) ms)"
    using None p by (simp add: Cons_nth_drop_Suc [symmetric] log_events_Cons)
  ultimately have "draining ms (Suc p) st'"
    using d p st' by (auto simp: draining_def less_Suc_eq)
  then show ?thesis using st' by (auto simp: script_def)
next
  case (Some e)
  obtain st' ok where st': "Start_step (log_kafka ms) calc_svc agg st = (Continue, st')"
    "kc_consumer st' = (if ok then \<lparr>lg_log = ms, lg_position = Suc p, lg_committed = Suc p\<rparr>
        else \<lparr>lg_log = ms, lg_position = p, lg_committed = p\<rparr>)"
    "kc_calls st' = kc_calls st @ [Read (ms ! p), if ok then Commit (ms ! p) else Seek (ms ! p)]"
    "length (script st') < length (script st)"
    "deliveries (script st) = deliveries (script st') + (if ok then 1 else 0)"
    using draining_event [OF d p wf acc Some, of g] by (auto simp: agg_def script_def)
  have id: "od_EventID e \<noteq> ''''" using event_of_good [OF Some] by (simp add: valid_event_def)
  obtain L where "pipeline_inv calc_svc_rel (grpc_state svc_rel) {} L st'"
    using grpc_pipeline.Start_step_inv [of "{}" _ st "log_kafka ms" g Continue st'] st'(1) d
    by (auto simp: draining_def agg_def)
  moreover have "track_of (kc_calls st') = log_track (take (Suc p) ms)"
    using d log_track_take_Suc [OF p] Some visit_visit [OF id]
    by (auto simp: st'(3) draining_def track_of_def)
  moreover have "log_events (drop p ms) = e # log_events (drop (Suc p) ms)"
    using Some p by (simp add: Cons_nth_drop_Suc [symmetric] log_events_Cons)
  ultimately have "draining ms (if ok then Suc p else p) st'"
    using d p st' by (auto simp: draining_def less_Suc_eq script_def)
  then show ?thesis using st' by (cases ok) auto
qed

section \<open>The whole log\<close>

lemma drained_idle:
  assumes "draining ms (length ms) st" shows "Start_step (log_kafka ms) calc agg st = (Continue, st)"
proof -
  have "kc_consumer st = \<lparr>lg_log = ms, lg_position = length ms, lg_committed = length ms\<rparr>"
    using assms by (simp add: draining_def)
  then have "kl_Cancelled (log_kafka ms) (kc_consumer st) = (False, kc_consumer st)"
    "kl_ReadMessage (log_kafka ms) t (kc_consumer st) = (Inl ErrTimedOut, kc_consumer st)" for t
    by (simp_all add: log_kafka_def)
  then show ?thesis by (simp add: Start_step_def)
qed

lemma draining_loop:
  assumes "draining ms p st" "wf_log ms" "acceptable ms"
    and "length ms - p + length (nt_script (ct_net (kc_aggClient st))) \<le> n"
  shows "\<exists>st'. Start (log_kafka ms) calc_svc (grpcClient (deployed_grpc aggregator_svc) g) n st = (None, st')
    \<and> draining ms (length ms) st'"
  using assms(1,4)
proof (induction n arbitrary: p st)
  case 0
  then show ?case by (auto simp: draining_def)
next
  case (Suc n)
  let ?agg = "grpcClient (deployed_grpc aggregator_svc) g"
  show ?case
  proof (cases "p < length ms")
    case True
    obtain st1 p' where "Start_step (log_kafka ms) calc_svc ?agg st = (Continue, st1)" "draining ms p' st1"
      "length ms - p' + length (nt_script (ct_net (kc_aggClient st1))) \<le> n"
      using draining_step [OF Suc.prems(1) True assms(2,3), of g] Suc.prems(2) True by fastforce
    then show ?thesis using Suc.IH by simp
  next
    case False
    then have d: "draining ms (length ms) st" using Suc.prems(1) by (auto simp: draining_def)
    have "Start (log_kafka ms) calc_svc ?agg k st = (None, st)" for k
      by (induction k) (simp_all add: drained_idle [OF d])
    then show ?thesis using d by blast
  qed
qed

end
