(* ===== verification/Load_Pipeline.thy ===== *)
theory Load_Pipeline
  imports Receiver_Server Load_Generator Distance_Bounds Kafka_Log
begin

text \<open>
  The frames of the load generator on their way through the data receiver and the distance calculator.
  Coordinates drawn from the unit interval and scaled by 100 stay below 2^7, identifiers and payloads
  are plain ASCII, so the receiver accepts every frame as it is, and every bill the calculator makes
  of a log of such frames passes the aggregator's checks.
\<close>

section \<open>Coordinates and identifiers\<close>

lemma float_100: "float_of_int 100 = F64 0x4059000000000000" "float_of_int 1 = F64 0x3FF0000000000000"
  by (simp_all add: float_eval)

lemma fl_one: "isFinite (float_of_int 1)" "mval (mag (float_of_int 1)) = 1"
proof -
  show "isFinite (float_of_int 1)" by (simp add: float_100 float_eval)
  have "mag (float_of_int 1) = (1023 + 0) * 2 ^ 52" by (simp add: float_100 float_eval)
  then show "mval (mag (float_of_int 1)) = 1" using mval_power [of 0] by simp
qed

lemma fl_hundred: "isFinite (float_of_int 100)" "mval (mag (float_of_int 100)) \<le> 2 ^ 7"
proof -
  show "isFinite (float_of_int 100)" by (simp add: float_100 float_eval)
  have "mag (float_of_int 100) \<le> (1023 + 7) * 2 ^ 52" by (simp add: float_100 float_eval)
  then show "mval (mag (float_of_int 100)) \<le> 2 ^ 7" using mval_power [of 7] by (metis mval_le_iff)
qed

lemma unit_draw_facts: assumes "unit_draw r" shows "isFinite r" "mval (mag r) \<le> 1"
proof -
  have nan: "\<not> isNaN r" using assms by (auto simp: unit_draw_def flt_def)
  then have "fnonneg r" using assms
    by (auto simp: unit_draw_def fnonneg_def flt_def fle_def)
  then have key: "fkey r = int (mag r)" by (rule fnonneg_fkey)
  have "mag r < mag (float_of_int 1)" using assms key fnonneg_fkey [of "float_of_int 1"]
    by (auto simp: unit_draw_def flt_def fnonneg_def float_100 float_eval)
  then show "isFinite r" "mval (mag r) \<le> 1"
    using fl_one mval_le_iff [of "mag r" "mag (float_of_int 1)"] by (auto simp: isFinite_def)
qed

lemma draw_coordinate: assumes "unit_draw r" shows "upto_pow 7 (fmul r (float_of_int 100))"
proof -
  obtain m e where m: "real m * 2 powi e = mval (mag r) * mval (mag (float_of_int 100))"
    and f: "fmul r (float_of_int 100) = mkf (neg r \<noteq> neg (float_of_int 100)) (round_mag m e)"
    using fmul_finite [OF unit_draw_facts(1) [OF assms] fl_hundred(1)] by metis
  have "mval (mag r) * mval (mag (float_of_int 100)) \<le> 1 * 2 ^ 7"
    using unit_draw_facts(2) [OF assms] fl_hundred(2) mval_nonneg by (intro mult_mono) simp_all
  then show ?thesis unfolding f using m by (intro upto_pow_round) simp_all
qed

lemma ascii_digit: "is_digit c \<Longrightarrow> byte_in 0 0x7F c"
  by (simp add: is_digit_def byte_in_def)

lemma ascii_show_nat: "list_all (byte_in 0 0x7F) (show_nat n)"
  using show_nat_digits [of n] ascii_digit by (auto simp: list_all_iff)

lemma ascii_Itoa: "list_all (byte_in 0 0x7F) (Itoa i)"
  using ascii_show_nat by (simp add: Itoa_def byte_in_def)

lemma utf8_event_id: "utf8 (event_id cfg runID k)" "event_id cfg runID k \<noteq> ''''"
  using ascii_show_nat ascii_Itoa by (auto intro!: utf8_ascii simp: event_id_def byte_in_def)

lemma utf8_padding: "utf8 (padding cfg)"
  by (rule utf8_ascii) (auto simp: padding_def list_all_iff byte_in_def)

section \<open>Frames\<close>

text \<open>A frame with the time at which it was produced; Go's clock is after 1970.\<close>

lemma event_ok_good:
  assumes "event_ok cfg runID k d" "0 < sint (od_ProducedAtUnixNano d)"
  shows "good_event d" "upto_pow 500 (od_Lat d)" "upto_pow 500 (od_Lon d)"
proof -
  obtain r q where "unit_draw r" "unit_draw q" "od_Lat d = fmul r (float_of_int 100)" "od_Lon d = fmul q (float_of_int 100)"
    using assms(1) by (auto simp: event_ok_def)
  then show far: "upto_pow 500 (od_Lat d)" "upto_pow 500 (od_Lon d)"
    using upto_pow_mono [OF draw_coordinate, of _ 500] by simp_all
  then show "good_event d"
    using assms utf8_event_id utf8_padding by (auto simp: good_event_def valid_event_def event_ok_def upto_pow_def)
qed

lemma accepted_encoded: "\<forall>d \<in> set ds. good_event d \<Longrightarrow> accepted (map encode_OBUData ds) = ds"
proof (induction ds)
  case (Cons d ds)
  then show ?case using encode_good_event [of d] by auto
qed simp

lemma sent_good:
  assumes "load_inv cfg fixed runID n st" "\<forall>d \<in> set (ld_created st). 0 < sint (od_ProducedAtUnixNano d)"
    and "d \<in> set (concat (ld_sent st))"
  shows "good_event d" "upto_pow 500 (od_Lat d)" "upto_pow 500 (od_Lon d)"
    "0 < sint (od_OBUID d)" "sint (od_OBUID d) \<le> sint (lc_OBUs cfg)"
proof -
  obtain k where k: "k < length (ld_created st)" "d = ld_created st ! k" "event_ok cfg runID k d"
    using sent_created [OF assms(1,3)] by blast
  then have "0 < sint (od_ProducedAtUnixNano d)" using assms(2) nth_mem by metis
  with k(3) show "good_event d" "upto_pow 500 (od_Lat d)" "upto_pow 500 (od_Lon d)" by (auto intro: event_ok_good)
  show "0 < sint (od_OBUID d)" "sint (od_OBUID d) \<le> sint (lc_OBUs cfg)" using k(3) by (simp_all add: event_ok_def)
qed

text \<open>The events of a log that holds a number of frames, in any order.\<close>

lemma log_events_accepted: "log_events ms = accepted (map m_Value ms)"
  by (induction ms) (auto simp: log_events_Cons event_of_def log_events_def [of "[]"] split: option.splits)

lemma mset_accepted:
  "mset (accepted vs) = (\<Sum>v \<in># mset vs. case payload_event v of None \<Rightarrow> {#} | Some e \<Rightarrow> {#e#})"
  by (induction vs) (auto split: option.splits)

lemma log_events_frames:
  assumes "mset (map m_Value ms) = mset (map encode_OBUData ds)" "\<forall>d \<in> set ds. good_event d"
  shows "mset (log_events ms) = mset ds"
  using accepted_encoded [OF assms(2)] by (metis assms(1) log_events_accepted mset_accepted)

text \<open>Events near the origin with OBU numbers that fit in 32 bits have valid bills.\<close>

lemma near_acceptable:
  assumes "near_track (log_events ms)"
    and "\<forall>e \<in> set (log_events ms). 0 < sint (od_OBUID e) \<and> sint (od_OBUID e) < 2 ^ 31"
  shows "acceptable ms"
  unfolding acceptable_def
proof
  fix e assume e: "e \<in> set (log_events ms)"
  then obtain m where m: "event_of m = Some e" by (auto simp: log_events_def events_read_mem)
  have near: "upto_pow 500 (od_Lat e)" "upto_pow 500 (od_Lon e)" using assms(1) e by (auto simp: near_track_def)
  have "isFinite (answer (log_track ms) e)"
    using near_track_answers [OF assms(1)] near_track_visit near unfolding log_track_def by blast
  moreover have "fnonneg (answer (log_track ms) e)"
    using nonneg_answers_track [OF near_track_finite [OF assms(1)]] nonneg_answers_visit near
    unfolding log_track_def upto_pow_def by blast
  moreover have "of_int32 (to_int32 (od_OBUID e)) = od_OBUID e"
    using assms(2) e of_int32_to_int32 [of "od_OBUID e"] by auto
  moreover have "valid_event e" using event_of_good [OF m] by simp
  ultimately show "valid_distance (bill (log_track ms) e)"
    using isFinite_not by (auto simp: valid_distance_def valid_event_def fnonneg_def)
qed

lemma frames_acceptable:
  assumes "load_inv cfg fixed runID n gen" "\<forall>d \<in> set (ld_created gen). 0 < sint (od_ProducedAtUnixNano d)"
    and "sint (lc_OBUs cfg) < 2 ^ 31" "mset (log_events ms) = mset (concat (ld_sent gen))"
  shows "acceptable ms"
proof -
  have "set (log_events ms) = set (concat (ld_sent gen))" using assms(4) by (rule mset_eq_setD)
  then have "near_track (log_events ms)" "\<forall>e \<in> set (log_events ms). 0 < sint (od_OBUID e) \<and> sint (od_OBUID e) < 2 ^ 31"
    using sent_good [OF assms(1,2)] assms(3) order.strict_trans1 unfolding near_track_def by blast+
  then show ?thesis by (rule near_acceptable)
qed

section \<open>From the connections to Kafka\<close>

text \<open>
  The receiver has read what was sent, connection by connection, in any interleaving of the
  connections.
\<close>

definition frames_read :: "OBUData list list \<Rightarrow> (nat \<times> json option) list \<Rightarrow> bool" where
  "frames_read sent reads \<longleftrightarrow>
     list_all (\<lambda>x. fst x < length sent) reads
     \<and> list_all (\<lambda>i. map snd (filter (\<lambda>x. fst x = i) reads) = map encode_OBUData (sent ! i)) [0..<length sent]"

lemma frames_read_mset:
  assumes "frames_read sent reads" shows "mset (map snd reads) = mset (map encode_OBUData (concat sent))"
proof -
  have lane: "map snd (filter (\<lambda>x. fst x = i) reads) = map encode_OBUData (sent ! i)" if "i < length sent" for i
    using assms that by (simp add: frames_read_def list_all_iff)
  have split: "mset (filter (\<lambda>x. fst x < Suc n) xs) = mset (filter (\<lambda>x. fst x < n) xs) + mset (filter (\<lambda>x. fst x = n) xs)"
    for n and xs :: "(nat \<times> json option) list"
    by (induction xs) (auto simp: less_Suc_eq)
  have "n \<le> length sent \<Longrightarrow> mset (map snd (filter (\<lambda>x. fst x < n) reads)) = mset (map encode_OBUData (concat (take n sent)))" for n
  proof (induction n)
    case (Suc n)
    have "mset (map snd (filter (\<lambda>x. fst x < Suc n) reads)) =
        mset (map snd (filter (\<lambda>x. fst x < n) reads)) + mset (map snd (filter (\<lambda>x. fst x = n) reads))"
      by (simp only: mset_map split image_mset_union)
    then show ?case using Suc lane [of n] by (simp only: take_Suc_conv_app_nth Suc_le_eq) simp
  qed simp
  moreover have "filter (\<lambda>x. fst x < length sent) reads = reads"
    using assms by (simp add: frames_read_def list_all_iff)
  ultimately show ?thesis by (metis order.refl take_all)
qed

text \<open>A Kafka topic holds the messages of a producer, its partitions in any interleaving.\<close>

definition topic_of :: "'b KafkaProducer \<Rightarrow> kafka_message list \<Rightarrow> bool" where
  "topic_of p ms \<longleftrightarrow> mset (map m_Value ms) = mset (map (\<lambda>m. Some (pm_Value m)) (kp_produced p))"

lemma topic_events:
  assumes "topic_of p ms" "kafka_published p = map Some es" shows "mset (log_events ms) = mset es" "length ms = length es"
proof -
  have "accepted (map (\<lambda>m. Some (pm_Value m)) xs) = es"
    if "map (\<lambda>m. payload_event (Some (pm_Value m))) xs = map Some es" for xs es
    using that by (induction xs arbitrary: es) (auto simp: Cons_eq_map_conv)
  then have "accepted (map (\<lambda>m. Some (pm_Value m)) (kp_produced p)) = es" using assms(2) by (simp add: kafka_published_def)
  then show "mset (log_events ms) = mset es"
    using assms(1) by (metis log_events_accepted mset_accepted topic_of_def)
  have "length ms = length (kp_produced p)" using mset_eq_length [OF assms(1) [unfolded topic_of_def]] by simp
  then show "length ms = length es" using arg_cong [OF assms(2), of length] by (simp add: kafka_published_def)
qed

lemma topic_frames:
  assumes inv: "load_inv cfg fixed runID n gen" and clock: "\<forall>d \<in> set (ld_created gen). 0 < sint (od_ProducedAtUnixNano d)"
    and new: "NewDataReceiver new getenv = Inr dr0"
    and run: "receiver_run (NewProduceLogMiddleware (kafkaProducer plib)) ws turns (receiver_start dr0) = Some rv"
    and reads: "frames_read (ld_sent gen) (rv_read rv)" and topic: "topic_of (pg_next (dr_prod (rv_receiver rv))) ms"
  shows "mset (log_events ms) = mset (concat (ld_sent gen))" "length ms = length (concat (ld_sent gen))"
proof -
  let ?es = "accepted (map snd (rv_read rv))"
  have "kafka_published (pg_next (dr_prod (rv_receiver rv))) = map Some ?es"
    using new_receiver_serving [OF new run] by (simp add: serving_def Let_def)
  note events = topic_events [OF topic this]
  have "accepted (map encode_OBUData (concat (ld_sent gen))) = concat (ld_sent gen)"
    using sent_good(1) [OF inv clock] by (intro accepted_encoded) blast
  moreover have "mset ?es = mset (accepted (map encode_OBUData (concat (ld_sent gen))))"
    by (simp only: mset_accepted frames_read_mset [OF reads])
  ultimately have es: "mset ?es = mset (concat (ld_sent gen))" by (simp only:)
  show "mset (log_events ms) = mset (concat (ld_sent gen))" using events(1) es by (simp only:)
  show "length ms = length (concat (ld_sent gen))" using events(2) mset_eq_length [OF es] by (simp only:)
qed

section \<open>The receiver accepts what the generator sends\<close>


lemma demo_clock: "\<forall>d \<in> set (ld_created demo_end). 0 < sint (od_ProducedAtUnixNano d)"
proof -
  have "\<exists>st. load_run demo_cfg demo_actions (load_start demo_cfg [] 2 7) = Some st
      \<and> (\<forall>d \<in> set (ld_created st). 0 < sint (od_ProducedAtUnixNano d))"
    by (simp add: demo_actions_def demo_tick_def demo_cfg_def go_eval float_eval replicate_two signed_modulo_int_def
        signed_divide_int_def)
  then show ?thesis by (simp add: demo_run(1))
qed


end
