(* ===== verification/Benchmark.thy ===== *)
theory Benchmark
  imports Go_Math Load_Pipeline
begin

text \<open>
  The benchmark harness (\<open>benchmark/main.go\<close>): its settings, the transport benchmark as a pool of workers that
  take requests from a channel and store a latency each, the percentiles, and the pipeline benchmark with
  the frames it sends and the histogram it scrapes, subtracts and interpolates. What a request does, how long
  it takes and which worker runs next are chosen from outside. The lemmas show that the percentiles are exact
  in spite of the floating-point rank, that every request is sent once, and that the receiver accepts the
  frames.
\<close>

section \<open>Settings\<close>

record bench_config =
  bc_requests :: go_int
  bc_concurrency :: go_int
  bc_duration :: duration
  bc_loads :: "go_int list"
  bc_report :: string

record bench_result =
  br_name :: string
  br_p95 :: duration
  br_p99 :: duration

datatype bench_error =
    BadSettings
  | InvalidLoad string
  | TransportFailed string string
  | Panic

fun bench_loads :: "string list \<Rightarrow> bench_error + go_int list" where
  "bench_loads [] = Inr []"
| "bench_loads (text # texts) =
     (case Atoi (TrimSpace text) of
        None \<Rightarrow> Inl (InvalidLoad text)
      | Some load \<Rightarrow>
          if sint load \<le> 0 then Inl (InvalidLoad text)
          else (case bench_loads texts of Inl err \<Rightarrow> Inl err | Inr loads \<Rightarrow> Inr (load # loads)))"

text \<open>\<open>parse\<close> assigns the flags of the command line, the text of \<open>-loads\<close> among them.\<close>

definition bench_parseConfig :: "(bench_config \<times> string \<Rightarrow> bench_config \<times> string) \<Rightarrow> bench_error + bench_config" where
  "bench_parseConfig parse =
     (let (cfg, loads) = parse
        (\<lparr>bc_requests = 5000, bc_concurrency = 20, bc_duration = 5 * 1000000000, bc_loads = [],
          bc_report = ''benchmark_report.md''\<rparr>, ''100,500,1000'')
      in if sint (bc_requests cfg) < 100 \<or> sint (bc_concurrency cfg) < 1 \<or> sint (bc_duration cfg) \<le> 0 then Inl BadSettings
         else (case bench_loads (split_on CHR '','' loads) of
                 Inl err \<Rightarrow> Inl err
               | Inr ls \<Rightarrow> Inr (cfg\<lparr>bc_loads := ls\<rparr>)))"

section \<open>Percentiles\<close>

text \<open>
  The slice is sorted in place, so it is part of the result. \<open>None\<close> is the panic of an index out of range;
  \<open>conv\<close> is what Go's implementation makes of a conversion that does not fit.
\<close>

definition percentile :: "(float64 \<Rightarrow> int64) \<Rightarrow> duration list \<Rightarrow> float64 \<Rightarrow> (duration \<times> duration list) option" where
  "percentile conv values quantile =
     (let sorted = sort_key sint values;
          i = sint (float_to_int64 conv (math_Ceil (fmul quantile (float_of_int (int (length sorted))))) - 1)
      in if 0 \<le> i \<and> i < int (length sorted) then Some (sorted ! nat i, sorted) else None)"

text \<open>The constants .95 and .99.\<close>

definition q95 :: float64 where
  "q95 = F64 0x3FEE666666666666"

definition q99 :: float64 where
  "q99 = F64 0x3FEFAE147AE147AE"

section \<open>The worker pool\<close>

text \<open>
  \<open>send\<close> makes a request with an identifier and says whether it failed and how long it took. Warming up
  ends at the first error.
\<close>

type_synonym 's send = "string \<Rightarrow> 's \<Rightarrow> (string option \<times> duration) \<times> 's"

definition request_id :: "string \<Rightarrow> string \<Rightarrow> int64 \<Rightarrow> nat \<Rightarrow> string" where
  "request_id kind name runID i = kind @ ''-'' @ name @ ''-'' @ Itoa runID @ ''-'' @ show_nat i"

fun warm_up :: "'s send \<Rightarrow> string list \<Rightarrow> 's \<Rightarrow> string option \<times> 's" where
  "warm_up send [] w = (None, w)"
| "warm_up send (eventID # eventIDs) w =
     (case send eventID w of
        ((Some err, _), w') \<Rightarrow> (Some err, w')
      | ((None, _), w') \<Rightarrow> warm_up send eventIDs w')"

text \<open>
  \<open>bp_next\<close> is the next number the main goroutine puts into \<open>jobs\<close>, \<open>bp_busy\<close> the request each worker holds.
  \<open>bp_done\<close> is the history of the requests made, with their outcomes.
\<close>

record 's bench_pool =
  bp_next :: nat
  bp_busy :: "nat option list"
  bp_latencies :: "duration list"
  bp_errs :: "string list"
  bp_world :: 's
  bp_done :: "(nat \<times> string option \<times> duration) list"

datatype bench_action = Take nat | Send nat

text \<open>
  An unbuffered channel passes a number to an idle worker; a worker with a request makes it and stores its
  latency, and an error needs room in \<open>errs\<close>. \<open>None\<close>: the goroutine cannot move.
\<close>

fun bench_step :: "'s send \<Rightarrow> string \<Rightarrow> int64 \<Rightarrow> nat \<Rightarrow> bench_action \<Rightarrow> 's bench_pool \<Rightarrow> 's bench_pool option" where
  "bench_step send name runID requests (Take w) st =
     (if bp_next st < requests \<and> w < length (bp_busy st) \<and> bp_busy st ! w = None
      then Some (st\<lparr>bp_next := bp_next st + 1, bp_busy := (bp_busy st)[w := Some (bp_next st)]\<rparr>)
      else None)"
| "bench_step send name runID requests (Send w) st =
     (if w < length (bp_busy st)
      then (case bp_busy st ! w of
              None \<Rightarrow> None
            | Some i \<Rightarrow>
                (let ((err, took), world) = send (request_id ''bench'' name runID i) (bp_world st)
                 in if err \<noteq> None \<and> requests \<le> length (bp_errs st) then None
                    else Some (st\<lparr>bp_busy := (bp_busy st)[w := None], bp_latencies := (bp_latencies st)[i := took],
                      bp_errs := bp_errs st @ (case err of None \<Rightarrow> [] | Some e \<Rightarrow> [e]), bp_world := world,
                      bp_done := bp_done st @ [(i, err, took)]\<rparr>)))
      else None)"

fun bench_steps :: "'s send \<Rightarrow> string \<Rightarrow> int64 \<Rightarrow> nat \<Rightarrow> bench_action list \<Rightarrow> 's bench_pool \<Rightarrow> 's bench_pool option" where
  "bench_steps send name runID requests [] st = Some st"
| "bench_steps send name runID requests (a # as) st =
     (case bench_step send name runID requests a st of
        None \<Rightarrow> None
      | Some st' \<Rightarrow> bench_steps send name runID requests as st')"

definition bench_start :: "bench_config \<Rightarrow> 's \<Rightarrow> 's bench_pool" where
  "bench_start cfg world =
     \<lparr>bp_next = 0, bp_busy = replicate (nat (sint (bc_concurrency cfg))) None,
      bp_latencies = replicate (nat (sint (bc_requests cfg))) 0, bp_errs = [], bp_world = world, bp_done = []\<rparr>"

text \<open>\<open>workers.Wait()\<close> returns when all numbers are taken and no worker holds one.\<close>

definition bench_idle :: "nat \<Rightarrow> 's bench_pool \<Rightarrow> bool" where
  "bench_idle requests st \<longleftrightarrow> bp_next st = requests \<and> list_all (\<lambda>b. b = None) (bp_busy st)"

text \<open>
  The benchmark of a transport under a schedule of its workers; the outer \<open>None\<close> is a run that has not ended.
\<close>

definition benchmarkTransport :: "(float64 \<Rightarrow> int64) \<Rightarrow> string \<Rightarrow> bench_config \<Rightarrow> 's send \<Rightarrow> int64 \<Rightarrow> bench_action list \<Rightarrow>
    's \<Rightarrow> ((bench_error + bench_result) \<times> 's) option" where
  "benchmarkTransport conv name cfg send runID schedule world =
     (let requests = nat (sint (bc_requests cfg))
      in (case warm_up send (map (request_id ''warm'' name runID) [0..<100]) world of
            (Some err, w) \<Rightarrow> Some (Inl (TransportFailed '''' err), w)
          | (None, w) \<Rightarrow>
              (case bench_steps send name runID requests schedule (bench_start cfg w) of
                 None \<Rightarrow> None
               | Some st \<Rightarrow>
                   if \<not> bench_idle requests st then None
                   else (case bp_errs st of
                           err # _ \<Rightarrow> Some (Inl (TransportFailed name err), bp_world st)
                         | [] \<Rightarrow>
                             (case percentile conv (bp_latencies st) q95 of
                                None \<Rightarrow> Some (Inl Panic, bp_world st)
                              | Some (p95, latencies) \<Rightarrow>
                                  (case percentile conv latencies q99 of
                                     None \<Rightarrow> Some (Inl Panic, bp_world st)
                                   | Some (p99, _) \<Rightarrow>
                                       Some (Inr \<lparr>br_name = name, br_p95 = p95, br_p99 = p99\<rparr>, bp_world st)))))))"

lemmas bench_eval [go_eval] =
  bench_parseConfig_def percentile_def q95_def q99_def request_id_def bench_start_def bench_idle_def
  benchmarkTransport_def

section \<open>Percentiles are exact\<close>

text \<open>
  The nearest rank: at least \<open>p\<close> percent of the values are at most \<open>v\<close>, and fewer than \<open>p\<close> percent are below it.
\<close>

definition nearest_rank :: "nat \<Rightarrow> duration \<Rightarrow> duration list \<Rightarrow> bool" where
  "nearest_rank p v values \<longleftrightarrow>
     v \<in> set values
     \<and> p * length values \<le> 100 * length (filter (\<lambda>x. sint x \<le> sint v) values)
     \<and> 100 * length (filter (\<lambda>x. sint x < sint v) values) < p * length values"

lemma nearest_rank_cong: assumes "mset xs = mset ys" shows "nearest_rank p v xs = nearest_rank p v ys"
proof -
  have "length (filter P xs) = length (filter P ys)" for P
    using assms by (metis mset_filter size_mset)
  then show ?thesis unfolding nearest_rank_def using mset_eq_length [OF assms] mset_eq_setD [OF assms] by simp
qed

lemma sorted_counts:
  assumes "sorted (map f xs)" "i < length xs"
  shows "i + 1 \<le> length (filter (\<lambda>x. f x \<le> f (xs ! i)) xs)" "length (filter (\<lambda>x. f x < f (xs ! i)) xs) \<le> i"
proof -
  have le: "f (xs ! j) \<le> f (xs ! k)" if "j \<le> k" "k < length xs" for j k
    using sorted_nth_mono [OF assms(1) that(1)] that by simp
  have "\<forall>x \<in> set (take (i + 1) xs). f x \<le> f (xs ! i)"
  proof
    fix x assume "x \<in> set (take (i + 1) xs)"
    then obtain j where "j < length (take (i + 1) xs)" "x = take (i + 1) xs ! j" unfolding in_set_conv_nth by blast
    then show "f x \<le> f (xs ! i)" using le [of j i] assms(2) by simp
  qed
  then have "filter (\<lambda>x. f x \<le> f (xs ! i)) (take (i + 1) xs) = take (i + 1) xs" by simp
  then have "length (filter (\<lambda>x. f x \<le> f (xs ! i)) (take (i + 1) xs)) = i + 1" using assms(2) by simp
  moreover have "filter P xs = filter P (take (i + 1) xs) @ filter P (drop (i + 1) xs)" for P
    by (metis append_take_drop_id filter_append)
  ultimately show "i + 1 \<le> length (filter (\<lambda>x. f x \<le> f (xs ! i)) xs)" by simp
  have "\<forall>x \<in> set (drop i xs). \<not> f x < f (xs ! i)"
  proof
    fix x assume "x \<in> set (drop i xs)"
    then obtain j where "j < length (drop i xs)" "x = drop i xs ! j" unfolding in_set_conv_nth by blast
    then show "\<not> f x < f (xs ! i)" using le [of i "i + j"] by (simp add: not_less)
  qed
  then have "filter (\<lambda>x. f x < f (xs ! i)) (drop i xs) = []" by simp
  then have "filter (\<lambda>x. f x < f (xs ! i)) xs = filter (\<lambda>x. f x < f (xs ! i)) (take i xs)"
    by (metis append_Nil2 append_take_drop_id filter_append)
  also have "length \<dots> \<le> length (take i xs)" by (rule length_filter_le)
  finally show "length (filter (\<lambda>x. f x < f (xs ! i)) xs) \<le> i" by simp
qed

lemma percent_const_q: "percent_const 95 q95" "percent_const 99 q99"
proof -
  have 95: "mval 0x3FEE666666666666 = real 0x1E666666666666 / 2 ^ 53" by (subst mval_negative_exp) (simp_all add: exp_of_def sig_of_def)
  have 99: "mval 0x3FEFAE147AE147AE = real 0x1FAE147AE147AE / 2 ^ 53" by (subst mval_negative_exp) (simp_all add: exp_of_def sig_of_def)
  have "mag q95 = 0x3FEE666666666666" "mag q99 = 0x3FEFAE147AE147AE" by (simp_all add: q95_def q99_def mag_def)
  then show "percent_const 95 q95" "percent_const 99 q99"
    using 95 99 by (simp_all add: percent_const_def q95_def q99_def isFinite_def inf_mag_def neg_def)
qed

lemma percentile_exact:
  assumes q: "percent_const p q" "0 < p" "p \<le> 100" and n: "values \<noteq> []" "length values \<le> 2 ^ 40"
  shows "\<exists>v. percentile conv values q = Some (v, sort_key sint values) \<and> nearest_rank p v values"
proof -
  let ?s = "sort_key sint values" and ?n = "length values"
  define K where "K = (p * ?n + 99) div 100"
  have n0: "0 < ?n" using n(1) by simp
  note K = percent_ceiling [OF K_def n0 q(2,3)]
  have "float_to_int64 conv (math_Ceil (fmul q (float_of_int (int ?n)))) = word_of_int (int K)"
    unfolding K_def using q n n0 by (intro rank_exact) simp_all
  moreover have "word_of_int (int K) - 1 = (of_nat (K - 1) :: int64)" using K(1) by (simp add: of_nat_diff)
  ultimately have "float_to_int64 conv (math_Ceil (fmul q (float_of_int (int (length ?s))))) - 1 = of_nat (K - 1)" by simp
  moreover have "K - 1 < 2 ^ 63" using K(2) n(2) by simp
  then have "sint (of_nat (K - 1) :: int64) = int (K - 1)" by (rule sint_of_nat)
  ultimately have p: "percentile conv values q = Some (?s ! (K - 1), ?s)"
    using K(1,2) by (simp add: percentile_def Let_def nat_diff_distrib)
  have i: "K - 1 < length ?s" using K(1,2) by simp
  note c = sorted_counts [OF _ i, of sint, simplified]
  have "p * ?n \<le> 100 * K" "100 * (K - 1) < p * ?n" using n0 q(2) K(1) unfolding K_def by linarith+
  moreover have "K \<le> length (filter (\<lambda>x. sint x \<le> sint (?s ! (K - 1))) ?s)"
    "length (filter (\<lambda>x. sint x < sint (?s ! (K - 1))) ?s) \<le> K - 1" using c K(1) by simp_all
  ultimately have "nearest_rank p (?s ! (K - 1)) ?s" unfolding nearest_rank_def using nth_mem [OF i] by simp
  then have "nearest_rank p (?s ! (K - 1)) values" using nearest_rank_cong [of "?s" "values"] by simp
  then show ?thesis using p by blast
qed

section \<open>The pool makes every request once\<close>

text \<open>The requests made one after the other: their outcomes and the world they leave.\<close>

fun sends :: "'s send \<Rightarrow> string list \<Rightarrow> 's \<Rightarrow> (string option \<times> duration) list \<times> 's" where
  "sends send [] w = ([], w)"
| "sends send (eventID # eventIDs) w =
     (let (out, w') = send eventID w; (outs, w'') = sends send eventIDs w' in (out # outs, w''))"

lemma sends_append:
  "sends send (xs @ ys) w = (case sends send xs w of (os, w') \<Rightarrow> (case sends send ys w' of (ps, w'') \<Rightarrow> (os @ ps, w'')))"
  by (induction xs arbitrary: w) (auto split: prod.splits)

lemma sends_length: "length (fst (sends send eventIDs w)) = length eventIDs"
  by (induction eventIDs arbitrary: w) (auto split: prod.splits, metis fst_conv)

lemma warm_up_sends:
  assumes "warm_up send eventIDs w = (None, w')"
  shows "snd (sends send eventIDs w) = w'" "\<forall>out \<in> set (fst (sends send eventIDs w)). fst out = None"
  using assms by (induction eventIDs arbitrary: w) (fastforce split: prod.splits option.splits)+

text \<open>The requests the workers hold.\<close>

fun held :: "nat option list \<Rightarrow> nat list" where
  "held [] = []"
| "held (None # busy) = held busy"
| "held (Some i # busy) = i # held busy"

lemma held_update:
  "w < length busy \<Longrightarrow> mset (held (busy[w := b])) + mset (held [busy ! w]) = mset (held busy) + mset (held [b])"
proof (induction busy arbitrary: w)
  case (Cons x busy)
  show ?case
  proof (cases w)
    case 0
    then show ?thesis by (cases x; cases b) simp_all
  next
    case (Suc v)
    with Cons show ?thesis by (cases x) simp_all
  qed
qed simp

definition pool_inv :: "'s send \<Rightarrow> string \<Rightarrow> int64 \<Rightarrow> nat \<Rightarrow> nat \<Rightarrow> 's \<Rightarrow> 's bench_pool \<Rightarrow> bool" where
  "pool_inv send name runID requests workers world st \<longleftrightarrow>
     length (bp_busy st) = workers \<and> bp_next st \<le> requests \<and> length (bp_latencies st) = requests
     \<and> mset (map fst (bp_done st)) + mset (held (bp_busy st)) = mset [0..<bp_next st]
     \<and> sends send (map (request_id ''bench'' name runID \<circ> fst) (bp_done st)) world = (map snd (bp_done st), bp_world st)
     \<and> (\<forall>d \<in> set (bp_done st). bp_latencies st ! fst d = snd (snd d))
     \<and> bp_errs st = concat (map (\<lambda>d. case fst (snd d) of None \<Rightarrow> [] | Some e \<Rightarrow> [e]) (bp_done st))"

lemma pool_inv_start:
  "pool_inv send name runID (nat (sint (bc_requests cfg))) (nat (sint (bc_concurrency cfg))) w (bench_start cfg w)"
proof -
  have "held (replicate k None) = []" for k by (induction k) simp_all
  then show ?thesis by (simp add: pool_inv_def bench_start_def)
qed

lemma pool_inv_take:
  assumes "pool_inv send name runID requests workers world st" "bench_step send name runID requests (Take w) st = Some st'"
  shows "pool_inv send name runID requests workers world st'"
proof -
  have w: "w < length (bp_busy st)" "bp_busy st ! w = None" "bp_next st < requests"
    and st': "st' = st\<lparr>bp_next := bp_next st + 1, bp_busy := (bp_busy st)[w := Some (bp_next st)]\<rparr>"
    using assms(2) by (auto split: if_splits)
  have "mset (held ((bp_busy st)[w := Some (bp_next st)])) = add_mset (bp_next st) (mset (held (bp_busy st)))"
    using held_update [OF w(1), of "Some (bp_next st)"] w(2) by simp
  then show ?thesis using assms(1) w unfolding pool_inv_def st' by simp
qed

lemma pool_inv_send:
  assumes inv: "pool_inv send name runID requests workers world st"
    and step: "bench_step send name runID requests (Send w) st = Some st'"
  shows "pool_inv send name runID requests workers world st'"
proof -
  obtain i where w: "w < length (bp_busy st)" "bp_busy st ! w = Some i"
    using step by (auto split: if_splits option.splits)
  obtain err took world' where s: "send (request_id ''bench'' name runID i) (bp_world st) = ((err, took), world')"
    by (metis prod.exhaust_sel)
  have st': "st' = st\<lparr>bp_busy := (bp_busy st)[w := None], bp_latencies := (bp_latencies st)[i := took],
      bp_errs := bp_errs st @ (case err of None \<Rightarrow> [] | Some e \<Rightarrow> [e]), bp_world := world',
      bp_done := bp_done st @ [(i, err, took)]\<rparr>"
    using step w s by (simp split: if_splits)
  have m: "mset (held (bp_busy st)) = add_mset i (mset (held ((bp_busy st)[w := None])))"
    using held_update [OF w(1), of None] w(2) by simp
  have all: "mset (map fst (bp_done st)) + mset (held (bp_busy st)) = mset [0..<bp_next st]"
    using inv by (simp add: pool_inv_def)
  then have "mset (map fst (bp_done st) @ held (bp_busy st)) = mset [0..<bp_next st]" by simp
  then have d: "distinct (map fst (bp_done st) @ held (bp_busy st))"
    and e: "set (map fst (bp_done st) @ held (bp_busy st)) = set [0..<bp_next st]"
    using mset_eq_imp_distinct_iff mset_eq_setD distinct_upt by metis+
  have "i \<in># mset (held (bp_busy st))" using m by simp
  then have "i \<in> set (held (bp_busy st))" by simp
  then have i: "i \<notin> fst ` set (bp_done st)" "i \<in> set [0..<bp_next st]" using d e by auto
  then have i: "i \<notin> fst ` set (bp_done st)" "i < requests" using inv by (simp_all add: pool_inv_def)
  have "\<forall>d \<in> set (bp_done st). (bp_latencies st)[i := took] ! fst d = snd (snd d)"
  proof
    fix d assume "d \<in> set (bp_done st)"
    then have "fst d \<noteq> i" "bp_latencies st ! fst d = snd (snd d)" using inv i(1) by (auto simp: pool_inv_def)
    then show "(bp_latencies st)[i := took] ! fst d = snd (snd d)" by simp
  qed
  then show ?thesis
    using inv all i(2) m s unfolding pool_inv_def st' by (simp add: sends_append)
qed

lemma pool_inv_steps:
  "bench_steps send name runID requests schedule st = Some st' \<Longrightarrow> pool_inv send name runID requests workers world st \<Longrightarrow>
   pool_inv send name runID requests workers world st'"
proof (induction schedule arbitrary: st)
  case (Cons a schedule)
  then obtain st1 where "bench_step send name runID requests a st = Some st1"
    "bench_steps send name runID requests schedule st1 = Some st'" by (auto split: option.splits)
  note step = this
  have "pool_inv send name runID requests workers world st1"
  proof (cases a)
    case (Take w)
    show ?thesis by (rule pool_inv_take [OF Cons.prems(2) step(1) [unfolded Take]])
  next
    case (Send w)
    show ?thesis by (rule pool_inv_send [OF Cons.prems(2) step(1) [unfolded Send]])
  qed
  then show ?case by (rule Cons.IH [OF step(2)])
qed simp

lemma pool_inv_idle:
  assumes inv: "pool_inv send name runID requests workers world st" and idle: "bench_idle requests st"
  shows "mset (map fst (bp_done st)) = mset [0..<requests]" "mset (bp_latencies st) = mset (map (snd \<circ> snd) (bp_done st))"
proof -
  have "list_all (\<lambda>b. b = None) busy \<Longrightarrow> held busy = []" for busy by (induction busy) simp_all
  then have "held (bp_busy st) = []" using idle by (simp add: bench_idle_def)
  then show m: "mset (map fst (bp_done st)) = mset [0..<requests]"
    using inv idle by (simp add: pool_inv_def bench_idle_def)
  have "map (snd \<circ> snd) (bp_done st) = map (\<lambda>i. bp_latencies st ! i) (map fst (bp_done st))"
    using inv by (simp add: pool_inv_def)
  then have "mset (map (snd \<circ> snd) (bp_done st)) = image_mset (\<lambda>i. bp_latencies st ! i) (mset (map fst (bp_done st)))"
    by (metis mset_map)
  also have "\<dots> = mset (map (\<lambda>i. bp_latencies st ! i) [0..<requests])" unfolding m by simp
  also have "map (\<lambda>i. bp_latencies st ! i) [0..<requests] = bp_latencies st"
    using inv map_nth [of "bp_latencies st"] by (simp add: pool_inv_def)
  finally show "mset (bp_latencies st) = mset (map (snd \<circ> snd) (bp_done st))" by (rule sym)
qed

lemma bench_loads_positive: "bench_loads texts = Inr loads \<Longrightarrow> load \<in> set loads \<Longrightarrow> 0 < sint load"
  by (induction texts arbitrary: loads) (auto split: option.splits if_splits sum.splits)

lemma bench_parseConfig_facts:
  assumes "bench_parseConfig parse = Inr cfg"
  shows "100 \<le> sint (bc_requests cfg)" "1 \<le> sint (bc_concurrency cfg)" "0 < sint (bc_duration cfg)"
    "\<forall>load \<in> set (bc_loads cfg). 0 < sint load"
  using assms bench_loads_positive
  by (auto simp: bench_parseConfig_def Let_def split: prod.splits if_splits sum.splits)

lemma percentiles_of_pool:
  assumes inv: "pool_inv send name runID requests workers world st" and idle: "bench_idle requests st"
    and n: "0 < requests" "requests \<le> 2 ^ 40"
  shows "\<exists>p95 p99 ls. percentile conv (bp_latencies st) q95 = Some (p95, ls) \<and> percentile conv ls q99 = Some (p99, ls)
    \<and> nearest_rank 95 p95 (map (snd \<circ> snd) (bp_done st)) \<and> nearest_rank 99 p99 (map (snd \<circ> snd) (bp_done st))"
proof -
  let ?l = "bp_latencies st" and ?s = "sort_key sint (bp_latencies st)"
  have l: "length ?l = requests" using inv by (simp add: pool_inv_def)
  obtain p95 where p95: "percentile conv ?l q95 = Some (p95, ?s)" "nearest_rank 95 p95 ?l"
    using percentile_exact [OF percent_const_q(1), of ?l conv] l n by auto
  have "length ?s = requests" using l by simp
  then have "?s \<noteq> []" using n(1) by (cases "?s") simp_all
  then obtain p99 where p99: "percentile conv ?s q99 = Some (p99, sort_key sint ?s)" "nearest_rank 99 p99 ?s"
    using percentile_exact [OF percent_const_q(2), of ?s conv] l n by auto
  have "sort_key sint ?s = ?s" by (simp add: sort_key_id_if_sorted)
  moreover have "mset ?s = mset (map (snd \<circ> snd) (bp_done st))" using pool_inv_idle(2) [OF inv idle] by simp
  ultimately show ?thesis
    using p95 p99 nearest_rank_cong [OF pool_inv_idle(2) [OF inv idle]]
      nearest_rank_cong [of ?s "map (snd \<circ> snd) (bp_done st)"] by auto
qed

section \<open>The transport benchmark\<close>

lemma transport_run:
  assumes cfg: "bench_parseConfig parse = Inr cfg" "sint (bc_requests cfg) \<le> 2 ^ 40"
    and run: "benchmarkTransport conv name cfg send runID schedule world = Some (Inr res, world')"
  shows "\<exists>order outs.
     mset order = mset [0..<nat (sint (bc_requests cfg))]
     \<and> sends send (map (request_id ''warm'' name runID) [0..<100] @ map (request_id ''bench'' name runID) order) world
         = (outs, world')
     \<and> list_all (\<lambda>out. fst out = None) outs
     \<and> br_name res = name
     \<and> nearest_rank 95 (br_p95 res) (map snd (drop 100 outs)) \<and> nearest_rank 99 (br_p99 res) (map snd (drop 100 outs))"
proof -
  let ?n = "nat (sint (bc_requests cfg))" and ?warm = "map (request_id ''warm'' name runID) [0..<100]"
  have n: "0 < ?n" "?n \<le> 2 ^ 40" using bench_parseConfig_facts(1) [OF cfg(1)] cfg(2) by simp_all
  obtain w where w: "warm_up send ?warm world = (None, w)"
    using run by (auto simp: benchmarkTransport_def Let_def split: prod.splits option.splits)
  obtain st where st: "bench_steps send name runID ?n schedule (bench_start cfg w) = Some st" "bench_idle ?n st" "bp_errs st = []"
    and out: "world' = bp_world st" "br_name res = name"
    and p: "\<exists>ls ls'. percentile conv (bp_latencies st) q95 = Some (br_p95 res, ls) \<and> percentile conv ls q99 = Some (br_p99 res, ls')"
    using run w by (fastforce simp: benchmarkTransport_def Let_def split: option.splits if_splits list.splits)
  have inv: "pool_inv send name runID ?n (nat (sint (bc_concurrency cfg))) w st"
    by (rule pool_inv_steps [OF st(1) pool_inv_start])
  define outs where "outs = fst (sends send ?warm world) @ map snd (bp_done st)"
  have ranks: "nearest_rank 95 (br_p95 res) (map (snd \<circ> snd) (bp_done st))" "nearest_rank 99 (br_p99 res) (map (snd \<circ> snd) (bp_done st))"
    using percentiles_of_pool [OF inv st(2) n, of conv] p by auto
  have "sends send (?warm @ map (request_id ''bench'' name runID) (map fst (bp_done st))) world = (outs, world')"
    using warm_up_sends(1) [OF w] inv out(1) unfolding sends_append by (auto simp: pool_inv_def outs_def split: prod.splits)
  moreover have "list_all (\<lambda>out. fst out = None) outs"
    using warm_up_sends(2) [OF w] inv st(3) by (auto simp: pool_inv_def outs_def list_all_iff split: option.splits)
  moreover have "map snd (drop 100 outs) = map (snd \<circ> snd) (bp_done st)"
    by (simp add: outs_def sends_length)
  ultimately show ?thesis using pool_inv_idle(1) [OF inv st(2)] ranks out(2) by metis
qed

text \<open>
  C21: A successful transport benchmark, under any schedule of its workers, is the warm-up followed by every
  request exactly once in some order, none of which failed, and the percentiles it reports are the exact
  nearest ranks of the latencies of these requests: the floating-point rank loses nothing for up to 2^40
  requests.
\<close>

theorem transport_percentiles:
  assumes cfg: "bench_parseConfig parse = Inr cfg" "sint (bc_requests cfg) \<le> 2 ^ 40"
    and run: "benchmarkTransport conv name cfg send runID schedule world = Some (Inr res, world')"
  shows "\<exists>order outs.
     mset order = mset [0..<nat (sint (bc_requests cfg))]
     \<and> sends send (map (request_id ''warm'' name runID) [0..<100] @ map (request_id ''bench'' name runID) order) world
         = (outs, world')
     \<and> list_all (\<lambda>out. fst out = None) outs
     \<and> br_name res = name
     \<and> nearest_rank 95 (br_p95 res) (map snd (drop 100 outs)) \<and> nearest_rank 99 (br_p99 res) (map snd (drop 100 outs))"
  by (rule transport_run [OF assms])

section \<open>The pool ends\<close>

text \<open>What is left to do: each request is taken once and made once.\<close>

definition pool_work :: "nat \<Rightarrow> 's bench_pool \<Rightarrow> nat" where
  "pool_work requests st = 2 * (requests - bp_next st) + length (held (bp_busy st))"

lemma held_update_length:
  "w < length busy \<Longrightarrow> length (held (busy[w := b])) + length (held [busy ! w]) = length (held busy) + length (held [b])"
  using held_update [of w busy b] by (metis size_mset size_union)

lemma bench_step_work:
  assumes "bench_step send name runID requests a st = Some st'" shows "pool_work requests st' + 1 = pool_work requests st"
proof (cases a)
  case (Take w)
  then have w: "w < length (bp_busy st)" "bp_busy st ! w = None" "bp_next st < requests"
    and st': "st' = st\<lparr>bp_next := bp_next st + 1, bp_busy := (bp_busy st)[w := Some (bp_next st)]\<rparr>"
    using assms by (auto split: if_splits)
  show ?thesis using held_update_length [OF w(1), of "Some (bp_next st)"] w(2,3) by (simp add: pool_work_def st')
next
  case (Send w)
  then obtain i where w: "w < length (bp_busy st)" "bp_busy st ! w = Some i"
    using assms by (auto split: if_splits option.splits)
  then have "bp_next st' = bp_next st" "bp_busy st' = (bp_busy st)[w := None]"
    using assms Send by (auto split: if_splits prod.splits)
  then show ?thesis using held_update_length [OF w(1), of None] w(2) by (simp add: pool_work_def)
qed

lemma bench_steps_work:
  "bench_steps send name runID requests schedule st = Some st' \<Longrightarrow> pool_work requests st' + length schedule = pool_work requests st"
proof (induction schedule arbitrary: st)
  case (Cons a schedule)
  then obtain st1 where "bench_step send name runID requests a st = Some st1"
    "bench_steps send name runID requests schedule st1 = Some st'" by (auto split: option.splits)
  then show ?case using bench_step_work Cons.IH by fastforce
qed simp

lemma bench_steps_append:
  "bench_steps send name runID requests (xs @ ys) st =
   (case bench_steps send name runID requests xs st of None \<Rightarrow> None | Some st' \<Rightarrow> bench_steps send name runID requests ys st')"
  by (induction xs arbitrary: st) (auto split: option.splits)

text \<open>A worker that holds a request finds room for its error, and an idle pool takes the next request.\<close>

lemma pool_progress:
  assumes inv: "pool_inv send name runID requests workers world st" and "0 < workers" and busy: "\<not> bench_idle requests st"
  shows "\<exists>a st'. bench_step send name runID requests a st = Some st'"
proof (cases "list_all (\<lambda>b. b = None) (bp_busy st)")
  case True
  then have "bench_step send name runID requests (Take 0) st \<noteq> None"
    using inv busy \<open>0 < workers\<close> by (auto simp: bench_idle_def pool_inv_def list_all_length)
  then show ?thesis by blast
next
  case False
  then obtain w i where w: "w < length (bp_busy st)" "bp_busy st ! w = Some i" by (auto simp: list_all_length)
  have h: "0 < length (held (bp_busy st))" using held_update_length [OF w(1), of None] w(2) by (cases "held (bp_busy st)") simp_all
  have "length (map fst (bp_done st) @ held (bp_busy st)) = length [0..<bp_next st]"
    using inv unfolding pool_inv_def by (intro mset_eq_length) simp
  then have "length (bp_done st) + length (held (bp_busy st)) = bp_next st" by simp
  moreover have "bp_next st \<le> requests" using inv by (simp add: pool_inv_def)
  ultimately have d: "length (bp_done st) < requests" using h by linarith
  have "length (concat (map (\<lambda>d. case fst (snd d) of None \<Rightarrow> [] | Some e \<Rightarrow> [e]) ds)) \<le> length ds"
    for ds :: "(nat \<times> string option \<times> duration) list"
    by (induction ds) (auto split: option.splits)
  then have "length (bp_errs st) \<le> length (bp_done st)" using inv by (simp add: pool_inv_def)
  with d have "length (bp_errs st) < requests" by simp
  then have "bench_step send name runID requests (Send w) st \<noteq> None" using w by (simp split: prod.splits)
  then show ?thesis by blast
qed

lemma pool_ends:
  assumes "pool_inv send name runID requests workers world st" "0 < workers"
  shows "\<exists>schedule st'. bench_steps send name runID requests schedule st = Some st' \<and> bench_idle requests st'"
  using assms(1)
proof (induction "pool_work requests st" arbitrary: st rule: less_induct)
  case less
  show ?case
  proof (cases "bench_idle requests st")
    case True
    then show ?thesis by (metis bench_steps.simps(1))
  next
    case False
    then obtain a st1 where a: "bench_step send name runID requests a st = Some st1"
      using pool_progress [OF less.prems assms(2)] by blast
    then have s: "bench_steps send name runID requests [a] st = Some st1" by simp
    have "pool_work requests st1 < pool_work requests st" using bench_step_work [OF a] by simp
    from less.hyps [OF this pool_inv_steps [OF s less.prems]] obtain as st'
      where "bench_steps send name runID requests as st1 = Some st'" "bench_idle requests st'" by blast
    then have "bench_steps send name runID requests (a # as) st = Some st'" using a by simp
    then show ?thesis using \<open>bench_idle requests st'\<close> by blast
  qed
qed

text \<open>
  C22: The worker pool neither runs forever nor gets stuck: for every accepted configuration, every schedule has
  at most two steps per request, after each of which the pool can still be brought to its end, and an
  ended benchmark gives a result or the error of a request, never an index out of range.
\<close>

theorem transport_terminates:
  assumes cfg: "bench_parseConfig parse = Inr cfg" "sint (bc_requests cfg) \<le> 2 ^ 40"
    and warm: "warm_up send (map (request_id ''warm'' name runID) [0..<100]) world = (None, w)"
    and run: "bench_steps send name runID (nat (sint (bc_requests cfg))) schedule (bench_start cfg w) = Some st"
  shows "length schedule \<le> 2 * nat (sint (bc_requests cfg))
    \<and> (\<exists>rest r. benchmarkTransport conv name cfg send runID (schedule @ rest) world = Some r \<and> fst r \<noteq> Inl Panic)"
proof -
  let ?n = "nat (sint (bc_requests cfg))" and ?k = "nat (sint (bc_concurrency cfg))"
  have n: "0 < ?n" "?n \<le> 2 ^ 40" "0 < ?k" using bench_parseConfig_facts(1,2) [OF cfg(1)] cfg(2) by simp_all
  have inv: "pool_inv send name runID ?n ?k w st" by (rule pool_inv_steps [OF run pool_inv_start])
  have none: "held (replicate k None) = []" for k by (induction k) simp_all
  have "length schedule \<le> pool_work ?n (bench_start cfg w)" using bench_steps_work [OF run] by simp
  then have len: "length schedule \<le> 2 * ?n" by (simp add: pool_work_def bench_start_def none)
  obtain rest st' where rest: "bench_steps send name runID ?n rest st = Some st'" "bench_idle ?n st'"
    using pool_ends [OF inv n(3)] by blast
  have inv': "pool_inv send name runID ?n ?k w st'" by (rule pool_inv_steps [OF rest(1) inv])
  have all: "bench_steps send name runID ?n (schedule @ rest) (bench_start cfg w) = Some st'"
    using run rest(1) by (simp add: bench_steps_append)
  have "\<exists>r. benchmarkTransport conv name cfg send runID (schedule @ rest) world = Some r \<and> fst r \<noteq> Inl Panic"
    using percentiles_of_pool [OF inv' rest(2) n(1,2), of conv] all rest(2) warm
    by (auto simp: benchmarkTransport_def Let_def split: list.splits)
  then show ?thesis using len by blast
qed

text \<open>If no request fails in whatever order they are made, the benchmark can be run to a result.\<close>

lemma sends_warm_up:
  "\<forall>out \<in> set (fst (sends send eventIDs w)). fst out = None \<Longrightarrow> warm_up send eventIDs w = (None, snd (sends send eventIDs w))"
proof (induction eventIDs arbitrary: w)
  case (Cons eventID eventIDs)
  obtain err took w1 where s: "send eventID w = ((err, took), w1)" by (metis prod.exhaust_sel)
  then have "err = None" "\<forall>out \<in> set (fst (sends send eventIDs w1)). fst out = None" using Cons.prems by (auto split: prod.splits)
  then show ?case using Cons.IH [of w1] s by (simp split: prod.splits)
qed simp

lemma transport_succeeds:
  assumes cfg: "bench_parseConfig parse = Inr cfg" "sint (bc_requests cfg) \<le> 2 ^ 40"
    and ok: "\<And>order. mset order = mset [0..<nat (sint (bc_requests cfg))] \<Longrightarrow>
      list_all (\<lambda>out. fst out = None) (fst (sends send (map (request_id ''warm'' name runID) [0..<100]
        @ map (request_id ''bench'' name runID) order) world))"
  shows "\<exists>schedule res world'. benchmarkTransport conv name cfg send runID schedule world = Some (Inr res, world')"
proof -
  let ?n = "nat (sint (bc_requests cfg))" and ?k = "nat (sint (bc_concurrency cfg))"
    and ?warm = "map (request_id ''warm'' name runID) [0..<100]"
  have n: "0 < ?n" "?n \<le> 2 ^ 40" "0 < ?k" using bench_parseConfig_facts(1,2) [OF cfg(1)] cfg(2) by simp_all
  obtain os w where w: "sends send ?warm world = (os, w)" by fastforce
  have all: "\<forall>out \<in> set os. fst out = None" "\<forall>out \<in> set (fst (sends send (map (request_id ''bench'' name runID) order) w)). fst out = None"
    if "mset order = mset [0..<?n]" for order
    using ok [OF that] w by (auto simp: sends_append list_all_iff split: prod.splits)
  have warm: "warm_up send ?warm world = (None, w)" using sends_warm_up [of send ?warm world] all(1) [OF refl] w by simp
  note inv0 = pool_inv_start [of send name runID cfg w]
  obtain schedule st where st: "bench_steps send name runID ?n schedule (bench_start cfg w) = Some st" "bench_idle ?n st"
    using pool_ends [OF inv0 n(3)] by blast
  have inv: "pool_inv send name runID ?n ?k w st" by (rule pool_inv_steps [OF st(1) inv0])
  have "sends send (map (request_id ''bench'' name runID) (map fst (bp_done st))) w = (map snd (bp_done st), bp_world st)"
    using inv by (simp add: pool_inv_def)
  then have "\<forall>out \<in> set (map snd (bp_done st)). fst out = None" using all(2) [OF pool_inv_idle(1) [OF inv st(2)]] by simp
  then have errs: "bp_errs st = []" using inv by (simp add: pool_inv_def)
  obtain p95 p99 ls where "percentile conv (bp_latencies st) q95 = Some (p95, ls)" "percentile conv ls q99 = Some (p99, ls)"
    using percentiles_of_pool [OF inv st(2) n(1,2)] by blast
  then have "benchmarkTransport conv name cfg send runID schedule world
      = Some (Inr \<lparr>br_name = name, br_p95 = p95, br_p99 = p99\<rparr>, bp_world st)"
    using st errs by (simp only: benchmarkTransport_def warm Let_def) simp
  then show ?thesis by blast
qed

section \<open>A run with the default settings\<close>

text \<open>A service that answers every request in 5 ns and counts them.\<close>

definition calm_send :: "nat send" where
  "calm_send eventID k = ((None, 5), k + 1)"

definition bench_default :: bench_config where
  "bench_default = \<lparr>bc_requests = 5000, bc_concurrency = 20, bc_duration = 5000000000, bc_loads = [100, 500, 1000],
     bc_report = ''benchmark_report.md''\<rparr>"

lemma bench_default: "bench_parseConfig id = Inr bench_default"
  by (simp add: bench_default_def go_eval trim_left.simps)

lemma calm_warm_up: "warm_up calm_send eventIDs k = (None, k + length eventIDs)"
  by (induction eventIDs arbitrary: k) (simp_all add: calm_send_def)

lemma calm_warm: "warm_up calm_send (map (request_id ''warm'' name runID) [0..<100]) 0 = (None, 100)"
  by (simp only: calm_warm_up) simp

theorem transport_terminates_witness:
  "\<exists>rest r. benchmarkTransport (\<lambda>_. 0) ''HTTP'' bench_default calm_send 7 ([Take 3, Take 1, Send 3] @ rest) 0 = Some r \<and> fst r \<noteq> Inl Panic"
proof -
  have "\<exists>st. bench_steps calm_send ''HTTP'' 7 (nat (sint (bc_requests bench_default))) [Take 3, Take 1, Send 3]
      (bench_start bench_default 100) = Some st"
    by (simp add: bench_start_def bench_default_def calm_send_def)
  then obtain st where st: "bench_steps calm_send ''HTTP'' 7 (nat (sint (bc_requests bench_default))) [Take 3, Take 1, Send 3]
      (bench_start bench_default 100) = Some st" by blast
  have "sint (bc_requests bench_default) \<le> 2 ^ 40" by (simp add: bench_default_def)
  from transport_terminates [OF bench_default this calm_warm st] show ?thesis by blast
qed

lemma calm_result:
  "\<exists>schedule res w. benchmarkTransport (\<lambda>_. 0) ''HTTP'' bench_default calm_send 7 schedule 0 = Some (Inr res, w)"
proof -
  have "\<forall>out \<in> set (fst (sends calm_send eventIDs k)). fst out = None" for eventIDs k
    by (induction eventIDs arbitrary: k) (auto simp: calm_send_def split: prod.splits, metis fst_conv)
  then show ?thesis
    by (intro transport_succeeds [OF bench_default]) (simp_all add: bench_default_def list_all_iff)
qed

theorem transport_percentiles_witness:
  "\<exists>schedule res w. benchmarkTransport (\<lambda>_. 0) ''HTTP'' bench_default calm_send 7 schedule 0 = Some (Inr res, w)
     \<and> br_name res = ''HTTP''"
proof -
  obtain schedule res w where run: "benchmarkTransport (\<lambda>_. 0) ''HTTP'' bench_default calm_send 7 schedule 0 = Some (Inr res, w)"
    using calm_result by blast
  have "sint (bc_requests bench_default) \<le> 2 ^ 40" by (simp add: bench_default_def)
  from transport_percentiles [OF bench_default this run] have "br_name res = ''HTTP''" by blast
  with run show ?thesis by blast
qed

end
