(* ===== verification/Bench_Pipeline.thy ===== *)
theory Bench_Pipeline
  imports Benchmark
begin

text \<open>
  The pipeline benchmark (\<open>benchmark/main.go\<close>): the frames it sends over ten WebSockets, the latency histogram
  it scrapes from the aggregator before and after, the difference of the two and its quantiles. Responses of
  the metrics endpoint, dials, writes and the clock are inputs; sleeping and the printed report are left out.
  The lemmas show that the receiver accepts every frame, that the exposition of a histogram is read back, and
  that a quantile lies in the bucket of the exact nearest rank.
\<close>

section \<open>Histograms\<close>

text \<open>
  A Go map with floating-point keys: keys are compared with \<open>==\<close>, so a NaN is never found and an assignment to it
  adds an entry. A missing key counts zero.
\<close>

type_synonym histogram = "(float64 \<times> uint64) list"

definition hist_get :: "histogram \<Rightarrow> float64 \<Rightarrow> uint64" where
  "hist_get h b = (case find (\<lambda>e. feq (fst e) b) h of None \<Rightarrow> 0 | Some e \<Rightarrow> snd e)"

fun hist_set :: "histogram \<Rightarrow> float64 \<Rightarrow> uint64 \<Rightarrow> histogram" where
  "hist_set [] b c = [(b, c)]"
| "hist_set (e # h) b c = (if feq (fst e) b then (b, c) # h else e # hist_set h b c)"

datatype pipe_error =
    ScrapeFailed string
  | InvalidHistogram
  | HistogramNotFound
  | HistogramReset
  | DialFailed string
  | WriteFailed string
  | SenderTooSlow duration duration
  | NotDrained duration
  | SampleMismatch go_int
  | AtLoad go_int pipe_error

text \<open>The order of a map does not matter here: any bucket that went down is an error.\<close>

fun subtract_from :: "histogram \<Rightarrow> histogram \<Rightarrow> histogram \<Rightarrow> pipe_error + histogram" where
  "subtract_from before [] delta = Inr delta"
| "subtract_from before ((b, c) # after) delta =
     (if c < hist_get before b then Inl HistogramReset
      else subtract_from before after (hist_set delta b (c - hist_get before b)))"

definition subtractHistogram :: "histogram \<Rightarrow> histogram \<Rightarrow> pipe_error + histogram" where
  "subtractHistogram after before = subtract_from before after []"

text \<open>\<open>sort.Float64s\<close> puts NaNs first.\<close>

definition sort_bounds :: "float64 list \<Rightarrow> float64 list" where
  "sort_bounds bs = sort_key (\<lambda>b. if isNaN b then - (2 ^ 64) else fkey b) bs"

fun quantile_scan :: "histogram \<Rightarrow> float64 \<Rightarrow> float64 \<Rightarrow> float64 \<Rightarrow> float64 list \<Rightarrow> float64" where
  "quantile_scan h rank previousBound previousCount [] = fzero"
| "quantile_scan h rank previousBound previousCount (b # bs) =
     (let cnt = float_of_int (uint (hist_get h b))
      in if fle rank cnt
         then (if isInf b \<and> \<not> neg b then previousBound
               else fadd previousBound
                 (fdiv (fmul (fsub b previousBound) (fsub rank previousCount)) (fsub cnt previousCount)))
         else quantile_scan h rank b cnt bs)"

definition histogramQuantile :: "histogram \<Rightarrow> float64 \<Rightarrow> float64" where
  "histogramQuantile h quantile =
     quantile_scan h (fmul quantile (float_of_int (uint (hist_get h Inf)))) fzero fzero (sort_bounds (map fst h))"

section \<open>Scraping\<close>

function fields_from :: "string \<Rightarrow> string \<Rightarrow> string list" where
  "fields_from cur s =
     (if s = [] then (if cur = [] then [] else [rev cur])
      else if space_prefix spaces s = 0 then fields_from (hd s # cur) (tl s)
      else (if cur = [] then [] else [rev cur]) @ fields_from [] (drop (space_prefix spaces s) s))"
  by auto
termination by (relation "measure (length \<circ> snd)") auto

declare fields_from.simps [simp del]

definition Fields :: "string \<Rightarrow> string list" where
  "Fields s = fields_from [] s"

text \<open>\<open>strconv.ParseUint(s, 10, 64)\<close>.\<close>

definition ParseUint :: "string \<Rightarrow> uint64 option" where
  "ParseUint s = (if s \<noteq> [] \<and> list_all is_digit s \<and> read_nat s < 2 ^ 64 then Some (of_nat (read_nat s)) else None)"

definition bucket_prefix :: string where
  "bucket_prefix = ''tollify_pipeline_event_duration_seconds_bucket{le='' @ [CHR 0x22]"

text \<open>One line of the response; lines that are not of the form of a bucket are skipped.\<close>

definition scrape_line :: "string \<Rightarrow> histogram \<Rightarrow> pipe_error + histogram" where
  "scrape_line line values =
     (let rest = drop (length bucket_prefix) line; fields = Fields line
      in if take (length bucket_prefix) line \<noteq> bucket_prefix \<or> CHR 0x22 \<notin> set rest \<or> length fields \<noteq> 2 then Inr values
         else (case (ParseFloat (takeWhile (\<lambda>c. c \<noteq> CHR 0x22) rest), ParseUint (fields ! 1)) of
                 (Some bound, Some cnt) \<Rightarrow> Inr (hist_set values bound cnt)
               | _ \<Rightarrow> Inl InvalidHistogram))"

fun scrape_lines :: "string list \<Rightarrow> histogram \<Rightarrow> pipe_error + histogram" where
  "scrape_lines [] values = Inr values"
| "scrape_lines (line # lines) values =
     (case scrape_line line values of Inl err \<Rightarrow> Inl err | Inr values' \<Rightarrow> scrape_lines lines values')"

text \<open>A response: an error of the request, or the lines the scanner gives with its error.\<close>

type_synonym scrape_response = "string + string list \<times> string option"

definition scrapeHistogram :: "scrape_response \<Rightarrow> pipe_error + histogram" where
  "scrapeHistogram resp =
     (case resp of
        Inl err \<Rightarrow> Inl (ScrapeFailed err)
      | Inr (lines, scanErr) \<Rightarrow>
          (case scrape_lines lines [] of
             Inl err \<Rightarrow> Inl err
           | Inr values \<Rightarrow>
               if values = [] then Inl HistogramNotFound
               else (case scanErr of Some err \<Rightarrow> Inl (ScrapeFailed err) | None \<Rightarrow> Inr values)))"

text \<open>The responses that arrive before the deadline.\<close>

fun waitForSamples :: "uint64 \<Rightarrow> duration \<Rightarrow> scrape_response list \<Rightarrow> pipe_error + histogram" where
  "waitForSamples want timeout [] = Inl (NotDrained timeout)"
| "waitForSamples want timeout (resp # resps) =
     (case scrapeHistogram resp of
        Inl err \<Rightarrow> Inl err
      | Inr values \<Rightarrow> if want \<le> hist_get values Inf then Inr values else waitForSamples want timeout resps)"

section \<open>The load\<close>

text \<open>
  What the sender meets: the outcome of each dial and each write, the clock at each event, and the time the
  whole load took.
\<close>

record sender_env =
  se_dial :: "nat \<Rightarrow> string option"
  se_write :: "nat \<Rightarrow> string option"
  se_now :: "nat \<Rightarrow> int64"
  se_runID :: int64
  se_elapsed :: duration

definition pipeline_event :: "string \<Rightarrow> int64 \<Rightarrow> int64 \<Rightarrow> nat \<Rightarrow> OBUData" where
  "pipeline_event label runID now i =
     \<lparr>od_EventID = label @ ''-'' @ Itoa runID @ ''-'' @ Itoa (of_nat i), od_ProducedAtUnixNano = now,
      od_OBUID = word_of_int (int i smod 100 + 1), od_Lat = float_of_int (int i smod 90),
      od_Lon = float_of_int (sint (of_nat i * 7 :: go_int) smod 180), od_Payload = ''''\<rparr>"

fun dial_all :: "(nat \<Rightarrow> string option) \<Rightarrow> nat list \<Rightarrow> string option" where
  "dial_all dial [] = None"
| "dial_all dial (i # is) = (case dial i of Some err \<Rightarrow> Some err | None \<Rightarrow> dial_all dial is)"

text \<open>The loop over the events; the frames on the ten connections are its state.\<close>

fun send_frames :: "sender_env \<Rightarrow> string \<Rightarrow> nat list \<Rightarrow> OBUData list list \<Rightarrow> (nat \<times> string) option \<times> OBUData list list" where
  "send_frames env label [] conns = (None, conns)"
| "send_frames env label (i # is) conns =
     (case se_write env i of
        Some err \<Rightarrow> (Some (i, err), conns)
      | None \<Rightarrow>
          send_frames env label is
            (conns[i mod 10 := conns ! (i mod 10) @ [pipeline_event label (se_runID env) (se_now env i) i]]))"

definition load_total :: "(float64 \<Rightarrow> int64) \<Rightarrow> go_int \<Rightarrow> duration \<Rightarrow> go_int" where
  "load_total conv rate duration = float_to_int64 conv (math_Round (fmul (float_of_int (sint rate)) (Seconds duration)))"

definition sendPipelineLoad :: "(float64 \<Rightarrow> int64) \<Rightarrow> sender_env \<Rightarrow> go_int \<Rightarrow> duration \<Rightarrow> string \<Rightarrow>
    (uint64 \<times> pipe_error option) \<times> OBUData list list" where
  "sendPipelineLoad conv env rate duration label =
     (case dial_all (se_dial env) [0..<10] of
        Some err \<Rightarrow> ((0, Some (DialFailed err)), replicate 10 [])
      | None \<Rightarrow>
          (let total = load_total conv rate duration
           in (case send_frames env label [0..<nat (sint total)] (replicate 10 []) of
                 (Some (i, err), conns) \<Rightarrow> ((of_nat i, Some (WriteFailed err)), conns)
               | (None, conns) \<Rightarrow>
                   ((total, if sint (duration + 1000000000) < sint (se_elapsed env)
                            then Some (SenderTooSlow (se_elapsed env) duration) else None), conns))))"

section \<open>The benchmark\<close>

record stage_env =
  ge_before :: scrape_response
  ge_sender :: sender_env
  ge_polls :: "scrape_response list"

definition bench_stage :: "(float64 \<Rightarrow> int64) \<Rightarrow> bench_config \<Rightarrow> go_int \<Rightarrow> stage_env \<Rightarrow> pipe_error + bench_result" where
  "bench_stage conv cfg load env =
     (case scrapeHistogram (ge_before env) of
        Inl err \<Rightarrow> Inl err
      | Inr before \<Rightarrow>
          (case fst (sendPipelineLoad conv (ge_sender env) load (bc_duration cfg) ''load'') of
             (_, Some err) \<Rightarrow> Inl (AtLoad load err)
           | (cnt, None) \<Rightarrow>
               (let timeout = (if sint (bc_duration cfg * 3) \<le> 30000000000 then 30000000000 else bc_duration cfg * 3)
                in (case waitForSamples (hist_get before Inf + cnt) timeout (ge_polls env) of
                      Inl err \<Rightarrow> Inl err
                    | Inr after \<Rightarrow>
                        (case subtractHistogram after before of
                           Inl _ \<Rightarrow> Inl (SampleMismatch load)
                         | Inr delta \<Rightarrow>
                             if hist_get delta Inf \<noteq> cnt then Inl (SampleMismatch load)
                             else Inr \<lparr>br_name = Itoa load,
                               br_p95 = float_to_int64 conv (fmul (histogramQuantile delta q95) (float_of_int 1000000000)),
                               br_p99 = float_to_int64 conv (fmul (histogramQuantile delta q99) (float_of_int 1000000000))\<rparr>)))))"

fun bench_stages :: "(float64 \<Rightarrow> int64) \<Rightarrow> bench_config \<Rightarrow> (go_int \<times> stage_env) list \<Rightarrow> pipe_error + bench_result list" where
  "bench_stages conv cfg [] = Inr []"
| "bench_stages conv cfg ((load, env) # stages) =
     (case bench_stage conv cfg load env of
        Inl err \<Rightarrow> Inl err
      | Inr res \<Rightarrow> (case bench_stages conv cfg stages of Inl err \<Rightarrow> Inl err | Inr rs \<Rightarrow> Inr (res # rs)))"

text \<open>The first environment is that of the warm-up with its 100 events, the others are those of the loads.\<close>

definition benchmarkPipeline :: "(float64 \<Rightarrow> int64) \<Rightarrow> bench_config \<Rightarrow> stage_env \<Rightarrow> (nat \<Rightarrow> stage_env) \<Rightarrow> pipe_error + bench_result list" where
  "benchmarkPipeline conv cfg warm envs =
     (case scrapeHistogram (ge_before warm) of
        Inl err \<Rightarrow> Inl err
      | Inr before \<Rightarrow>
          (case fst (sendPipelineLoad conv (ge_sender warm) 50 2000000000 ''warm'') of
             (_, Some err) \<Rightarrow> Inl err
           | (_, None) \<Rightarrow>
               (case waitForSamples (hist_get before Inf + 100) 30000000000 (ge_polls warm) of
                  Inl err \<Rightarrow> Inl err
                | Inr _ \<Rightarrow> bench_stages conv cfg (zip (bc_loads cfg) (map envs [0..<length (bc_loads cfg)])))))"

lemmas pipe_eval [go_eval] =
  hist_get_def subtractHistogram_def sort_bounds_def histogramQuantile_def Fields_def ParseUint_def bucket_prefix_def
  scrape_line_def scrapeHistogram_def pipeline_event_def load_total_def sendPipelineLoad_def bench_stage_def
  benchmarkPipeline_def

section \<open>Quantiles of observed samples\<close>

text \<open>
  The histogram of a Prometheus client: for each bound the number of samples that are at most the bound, and the
  bucket of all samples.
\<close>

definition upto_count :: "float64 \<Rightarrow> float64 list \<Rightarrow> nat" where
  "upto_count b xs = length (filter (\<lambda>x. fle x b) xs)"

definition observed :: "float64 list \<Rightarrow> float64 list \<Rightarrow> histogram" where
  "observed bounds xs = map (\<lambda>b. (b, of_nat (upto_count b xs))) (bounds @ [Inf])"

lemma upto_count_le: "upto_count b xs \<le> length xs"
  by (simp add: upto_count_def)

lemma fkey_Inf: "fkey Inf = int inf_mag" "isInf Inf" "\<not> neg Inf" "\<not> isNaN Inf"
  by (simp_all add: Inf_def fkey_def isInf_def isNaN_def neg_def mag_def inf_mag_def)

lemma upto_count_Inf: "\<forall>x \<in> set xs. \<not> isNaN x \<Longrightarrow> upto_count Inf xs = length xs"
proof -
  have "fle x Inf" if "\<not> isNaN x" for x
  proof -
    have "fkey x \<le> fkey Inf" unfolding fkey_Inf(1) using that by (simp add: fkey_def isNaN_def)
    then show ?thesis using that fkey_Inf(4) by (simp add: fle_def)
  qed
  moreover assume "\<forall>x \<in> set xs. \<not> isNaN x"
  ultimately show ?thesis by (simp add: upto_count_def)
qed

text \<open>Bounds in ascending order are different keys.\<close>

definition ascending :: "float64 list \<Rightarrow> bool" where
  "ascending bs \<longleftrightarrow> sorted_wrt flt bs \<and> (\<forall>b \<in> set bs. \<not> isNaN b)"

lemma ascending_Cons: "ascending (b # bs) \<longleftrightarrow> \<not> isNaN b \<and> (\<forall>c \<in> set bs. flt b c) \<and> ascending bs"
  by (auto simp: ascending_def)

lemma hist_get_ascending: "ascending bs \<Longrightarrow> b \<in> set bs \<Longrightarrow> hist_get (map (\<lambda>b. (b, f b)) bs) b = f b"
  by (induction bs) (auto simp: ascending_Cons hist_get_def feq_def flt_def)

lemma hist_set_new: "\<forall>e \<in> set h. \<not> feq (fst e) b \<Longrightarrow> hist_set h b c = h @ [(b, c)]"
  by (induction h) auto

lemma subtract_from_ascending:
  assumes "ascending (es @ ds)" "\<forall>b \<in> set ds. hist_get before b \<le> f b"
  shows "subtract_from before (map (\<lambda>b. (b, f b)) ds) (map (\<lambda>b. (b, f b - hist_get before b)) es)
    = Inr (map (\<lambda>b. (b, f b - hist_get before b)) (es @ ds))"
  using assms
proof (induction ds arbitrary: es)
  case (Cons b ds)
  have "\<forall>e \<in> set es. flt e b" using Cons.prems(1) by (simp add: ascending_def sorted_wrt_append)
  then have "\<forall>e \<in> set (map (\<lambda>b. (b, f b - hist_get before b)) es). \<not> feq (fst e) b" by (auto simp: feq_def flt_def)
  from hist_set_new [OF this] show ?case using Cons.IH [of "es @ [b]"] Cons.prems by (simp add: not_less)
qed simp

lemma subtract_observed:
  assumes "ascending (bounds @ [Inf])" "length xs + length ys < 2 ^ 64"
  shows "subtractHistogram (observed bounds (xs @ ys)) (observed bounds xs) = Inr (observed bounds ys)"
proof -
  let ?bs = "bounds @ [Inf]"
  define g where "g zs b = (of_nat (upto_count b zs) :: uint64)" for zs b
  have get: "hist_get (observed bounds xs) b = g xs b" if "b \<in> set ?bs" for b
    using hist_get_ascending [OF assms(1) that] by (simp add: observed_def g_def)
  have add: "g (xs @ ys) b = g xs b + g ys b" for b by (simp add: g_def upto_count_def)
  have "unat (g zs b) = upto_count b zs" if "length zs < 2 ^ 64" for zs b
    using upto_count_le [of b zs] that by (simp add: g_def unat_of_nat)
  then have "g xs b \<le> g (xs @ ys) b" for b
    using assms(2) by (simp add: word_le_nat_alt upto_count_def)
  then have "subtract_from (observed bounds xs) (map (\<lambda>b. (b, g (xs @ ys) b)) ?bs) (map (\<lambda>b. (b, g (xs @ ys) b - hist_get (observed bounds xs) b)) [])
      = Inr (map (\<lambda>b. (b, g (xs @ ys) b - hist_get (observed bounds xs) b)) ([] @ ?bs))"
    using assms(1) get by (intro subtract_from_ascending) simp_all
  moreover have "map (\<lambda>b. (b, g (xs @ ys) b - hist_get (observed bounds xs) b)) ?bs = map (\<lambda>b. (b, g ys b)) ?bs"
    using get add by (intro map_cong refl) (simp del: set_append)
  ultimately show ?thesis by (simp add: subtractHistogram_def observed_def g_def)
qed

lemma sort_bounds_ascending: assumes "ascending bs" shows "sort_bounds bs = bs"
proof -
  have "sorted (map (\<lambda>b. if isNaN b then - (2 ^ 64) else fkey b) bs)"
    using assms by (induction bs) (auto simp: ascending_Cons flt_def ascending_def)
  then show ?thesis by (simp add: sort_bounds_def sort_key_id_if_sorted)
qed

text \<open>The value a bucket gives for a rank.\<close>

definition interpolate :: "float64 \<Rightarrow> float64 \<Rightarrow> float64 \<Rightarrow> float64 \<Rightarrow> float64 \<Rightarrow> float64" where
  "interpolate rank pb pc b cnt =
     (if isInf b \<and> \<not> neg b then pb else fadd pb (fdiv (fmul (fsub b pb) (fsub rank pc)) (fsub cnt pc)))"

lemma quantile_scan_split:
  assumes "\<exists>b \<in> set bs. fle rank (float_of_int (uint (hist_get h b)))"
  shows "\<exists>us b vs. bs = us @ b # vs \<and> fle rank (float_of_int (uint (hist_get h b)))
    \<and> (\<forall>u \<in> set us. \<not> fle rank (float_of_int (uint (hist_get h u))))
    \<and> quantile_scan h rank pb pc bs = interpolate rank (last (pb # us))
        (last (pc # map (\<lambda>u. float_of_int (uint (hist_get h u))) us)) b (float_of_int (uint (hist_get h b)))"
  using assms
proof (induction bs arbitrary: pb pc)
  case (Cons a bs)
  let ?c = "\<lambda>u. float_of_int (uint (hist_get h u))"
  show ?case
  proof (cases "fle rank (?c a)")
    case True
    then show ?thesis by (intro exI [of _ "[]"] exI [of _ a] exI [of _ bs]) (simp add: interpolate_def Let_def)
  next
    case False
    then have "\<exists>b \<in> set bs. fle rank (?c b)" using Cons.prems by auto
    from Cons.IH [OF this, of a "?c a"] obtain us b vs where "bs = us @ b # vs" "fle rank (?c b)" "\<forall>u \<in> set us. \<not> fle rank (?c u)"
      "quantile_scan h rank a (?c a) bs = interpolate rank (last (a # us)) (last (?c a # map ?c us)) b (?c b)" by blast
    then show ?thesis using False by (intro exI [of _ "a # us"] exI [of _ b] exI [of _ vs]) (simp add: Let_def)
  qed
qed simp

lemma quantile_observed:
  assumes bs: "ascending (bounds @ [Inf])" and ys: "\<forall>y \<in> set ys. \<not> isNaN y" "0 < length ys" "length ys \<le> 2 ^ 40"
    and q: "percent_const p q" "0 < p" "p \<le> 100"
  shows "\<exists>us b vs. bounds @ [Inf] = us @ b # vs \<and> p * length ys \<le> 100 * upto_count b ys
    \<and> (\<forall>u \<in> set us. 100 * upto_count u ys < p * length ys)
    \<and> histogramQuantile (observed bounds ys) q = interpolate (fmul q (float_of_int (int (length ys)))) (last (fzero # us))
        (last (fzero # map (\<lambda>u. float_of_int (int (upto_count u ys))) us)) b (float_of_int (int (upto_count b ys)))"
proof -
  let ?h = "observed bounds ys" and ?bs = "bounds @ [Inf]" and ?r = "fmul q (float_of_int (int (length ys)))"
  have get: "uint (hist_get ?h b) = int (upto_count b ys)" if "b \<in> set ?bs" for b
  proof -
    have "hist_get ?h b = of_nat (upto_count b ys)" using hist_get_ascending [OF bs that] by (simp add: observed_def)
    moreover have "upto_count b ys < 2 ^ 64" using upto_count_le [of b ys] ys(3) by simp
    ultimately show ?thesis by (simp add: uint_nat unat_of_nat)
  qed
  have all: "uint (hist_get ?h Inf) = int (length ys)" using get [of Inf] upto_count_Inf [OF ys(1)] by simp
  have reach: "fle ?r (float_of_int (uint (hist_get ?h b))) \<longleftrightarrow> p * length ys \<le> 100 * upto_count b ys" if "b \<in> set ?bs" for b
    unfolding get [OF that] using rank_reached [OF q(1) ys(3,2) q(2,3) upto_count_le] .
  have "fle ?r (float_of_int (uint (hist_get ?h Inf)))" using reach [of Inf] q(3) upto_count_Inf [OF ys(1)] by simp
  then have "\<exists>b \<in> set ?bs. fle ?r (float_of_int (uint (hist_get ?h b)))" by auto
  from quantile_scan_split [OF this, of fzero fzero] obtain us b vs where s: "?bs = us @ b # vs"
    "fle ?r (float_of_int (uint (hist_get ?h b)))" "\<forall>u \<in> set us. \<not> fle ?r (float_of_int (uint (hist_get ?h u)))"
    "quantile_scan ?h ?r fzero fzero ?bs = interpolate ?r (last (fzero # us))
        (last (fzero # map (\<lambda>u. float_of_int (uint (hist_get ?h u))) us)) b (float_of_int (uint (hist_get ?h b)))" by blast
  have b: "b \<in> set ?bs" and us: "u \<in> set ?bs" if "u \<in> set us" for u using s(1) that by auto
  have "map fst ?h = ?bs" by (simp add: observed_def comp_def)
  then have "histogramQuantile ?h q = quantile_scan ?h ?r fzero fzero ?bs"
    using sort_bounds_ascending [OF bs] all by (simp only: histogramQuantile_def)
  moreover have "b \<in> set ?bs" using s(1) by simp
  moreover have "map (\<lambda>u. float_of_int (uint (hist_get ?h u))) us = map (\<lambda>u. float_of_int (int (upto_count u ys))) us"
    using get us by (intro map_cong refl) simp
  moreover have "\<forall>u \<in> set us. 100 * upto_count u ys < p * length ys" using s(3) reach us by (simp add: not_le)
  ultimately show ?thesis using s(1,2,4) get [of b] reach [of b] by metis
qed

text \<open>
  C23: The latency the pipeline benchmark reports lies in the right bucket: if the aggregator has observed the
  samples \<open>xs\<close> before a load and \<open>xs @ ys\<close> after it, then the difference of the two histograms is the histogram of
  \<open>ys\<close>, its count is the number of these samples, and each of the two quantiles is interpolated in the bucket of
  the exact nearest rank: at least 95 (99) percent of the samples are at most its bound, and fewer are at most
  any bound below. The floating-point rank loses nothing for up to 2^40 samples.
\<close>

theorem pipeline_quantile_bucket:
  assumes "ascending (bounds @ [Inf])" "\<forall>y \<in> set ys. \<not> isNaN y" "0 < length ys" "length ys \<le> 2 ^ 40"
    and "length xs + length ys < 2 ^ 64" and "(p, q) \<in> {(95, q95), (99, q99)}"
  shows "\<exists>delta us b vs.
    subtractHistogram (observed bounds (xs @ ys)) (observed bounds xs) = Inr delta
    \<and> hist_get delta Inf = of_nat (length ys)
    \<and> bounds @ [Inf] = us @ b # vs
    \<and> p * length ys \<le> 100 * upto_count b ys \<and> (\<forall>u \<in> set us. 100 * upto_count u ys < p * length ys)
    \<and> histogramQuantile delta q = interpolate (fmul q (float_of_int (int (length ys)))) (last (fzero # us))
        (last (fzero # map (\<lambda>u. float_of_int (int (upto_count u ys))) us)) b (float_of_int (int (upto_count b ys)))"
proof -
  have q: "percent_const p q" "0 < p" "p \<le> 100" using assms(6) percent_const_q by auto
  have "hist_get (observed bounds ys) Inf = of_nat (length ys)"
    using hist_get_ascending [OF assms(1), of Inf "\<lambda>b. of_nat (upto_count b ys)"] upto_count_Inf [OF assms(2)]
    by (simp add: observed_def)
  then show ?thesis using subtract_observed [OF assms(1,5)] quantile_observed [OF assms(1-4) q] by metis
qed

theorem pipeline_quantile_bucket_witness:
  "\<exists>delta.
     subtractHistogram (observed [float_of_int 1, float_of_int 2] [float_of_int 1, float_of_int 2, float_of_int 1])
       (observed [float_of_int 1, float_of_int 2] [float_of_int 1]) = Inr delta
     \<and> hist_get delta Inf = 2
     \<and> (\<exists>us b vs. [float_of_int 1, float_of_int 2, Inf] = us @ b # vs \<and> 190 \<le> 100 * upto_count b [float_of_int 2, float_of_int 1])"
proof -
  have bs: "ascending ([float_of_int 1, float_of_int 2] @ [Inf])"
    by (simp add: ascending_def flt_def float_eval)
  have ys: "\<forall>y \<in> set [float_of_int 2, float_of_int 1]. \<not> isNaN y" by (simp add: float_eval)
  show ?thesis
    using pipeline_quantile_bucket [OF bs ys, of "[float_of_int 1]" 95 q95] by (simp del: ex_simps) blast
qed

section \<open>What the receiver makes of a load\<close>

lemma smod_nonneg: "0 \<le> a \<Longrightarrow> 0 < b \<Longrightarrow> a smod b = a mod (b :: int)"
  by (simp add: signed_modulo_int_def signed_divide_int_def sgn_if minus_div_mult_eq_mod)

lemma smod_bound: assumes "0 < (b :: int)" shows "\<bar>a smod b\<bar> < b"
proof (cases "0 \<le> a")
  case True
  then show ?thesis using assms by (simp add: smod_nonneg)
next
  case False
  then have "a smod b = - ((- a) mod b)"
    using assms by (simp add: signed_modulo_int_def signed_divide_int_def sgn_if minus_div_mult_eq_mod minus_mult_div_eq_mod)
  moreover have "0 \<le> (- a) mod b" "(- a) mod b < b" using assms by simp_all
  ultimately show ?thesis by linarith
qed

lemma pipeline_event_good:
  assumes "0 < sint now" "list_all (byte_in 0 0x7F) label"
  shows "good_event (pipeline_event label runID now i)"
    "0 < sint (od_OBUID (pipeline_event label runID now i))" "sint (od_OBUID (pipeline_event label runID now i)) \<le> 100"
proof -
  have m: "int i smod 100 + 1 = int (i mod 100 + 1)" by (simp add: smod_nonneg zmod_int)
  have "i mod 100 + 1 < 2 ^ 63" by (rule less_le_trans [of _ 101]) simp_all
  then have o: "sint (od_OBUID (pipeline_event label runID now i)) = int (i mod 100 + 1)"
    using sint_of_nat [of "i mod 100 + 1"] unfolding pipeline_event_def OBUData.select_convs m by simp
  then show obu: "0 < sint (od_OBUID (pipeline_event label runID now i))" "sint (od_OBUID (pipeline_event label runID now i)) \<le> 100"
    by simp_all
  have "\<bar>int i smod 90\<bar> < 90" "\<bar>sint (of_nat i * 7 :: go_int) smod 180\<bar> < 180" by (intro smod_bound; simp)+
  then have "isFinite (float_of_int (int i smod 90))" "isFinite (float_of_int (sint (of_nat i * 7 :: go_int) smod 180))"
    by (intro isFinite_float_of_int; simp)+
  moreover have "utf8 (label @ ''-'' @ Itoa runID @ ''-'' @ Itoa (of_nat i))"
    using assms(2) ascii_Itoa by (intro utf8_ascii) (simp add: byte_in_def)
  moreover have "utf8 ''''" by (rule utf8_ascii) simp
  ultimately show "good_event (pipeline_event label runID now i)"
    using obu(1) assms(1) unfolding good_event_def valid_event_def by (simp add: pipeline_event_def)
qed

lemma concat_append_at:
  "k < length cs \<Longrightarrow> mset (concat (cs[k := cs ! k @ [x]])) = add_mset x (mset (concat cs))"
proof (induction cs arbitrary: k)
  case (Cons c cs)
  then show ?case by (cases k) simp_all
qed simp

text \<open>The events whose frames were written: all before the first write that failed.\<close>

definition written_to :: "sender_env \<Rightarrow> nat list \<Rightarrow> nat list" where
  "written_to env is = takeWhile (\<lambda>i. se_write env i = None) is"

lemma send_frames_written:
  assumes "send_frames env label is conns = (r, conns')" "length conns = 10"
  shows "mset (concat conns') = mset (concat conns)
      + mset (map (\<lambda>i. pipeline_event label (se_runID env) (se_now env i) i) (written_to env is))
    \<and> (case r of None \<Rightarrow> written_to env is = is | Some (i, _) \<Rightarrow> (\<exists>rest. is = written_to env is @ i # rest))"
  using assms
proof (induction "is" arbitrary: conns)
  case (Cons i "is")
  show ?case
  proof (cases "se_write env i")
    case None
    let ?conns = "conns[i mod 10 := conns ! (i mod 10) @ [pipeline_event label (se_runID env) (se_now env i) i]]"
    have "i mod 10 < length conns" using Cons.prems(2) by simp
    note one = concat_append_at [OF this, of "pipeline_event label (se_runID env) (se_now env i) i"]
    have "send_frames env label is ?conns = (r, conns')" "length ?conns = 10" using Cons.prems None by simp_all
    from Cons.IH [OF this] show ?thesis using None one by (auto simp: written_to_def split: option.splits)
  next
    case (Some err)
    then show ?thesis using Cons.prems by (auto simp: written_to_def)
  qed
qed (auto simp: written_to_def)

lemma pipeline_ids_distinct:
  assumes "n \<le> 2 ^ 63" shows "distinct (map (\<lambda>i. od_EventID (pipeline_event label runID (now i) i)) [0..<n])"
proof -
  have "inj_on (\<lambda>i. od_EventID (pipeline_event label runID (now i) i)) {0..<n}"
  proof (rule inj_onI)
    fix i j assume ij: "i \<in> {0..<n}" "j \<in> {0..<n}"
      and "od_EventID (pipeline_event label runID (now i) i) = od_EventID (pipeline_event label runID (now j) j)"
    then have "Itoa (of_nat i) = Itoa (of_nat j)" by (simp add: pipeline_event_def)
    then have "sint (of_nat i :: go_int) = sint (of_nat j :: go_int)" by (simp only: Itoa_inject)
    moreover have "i < 2 ^ 63" "j < 2 ^ 63" using ij assms by auto
    ultimately show "i = j" by (simp only: sint_of_nat of_nat_eq_iff)
  qed
  then show ?thesis by (simp add: distinct_map)
qed

lemma sendPipelineLoad_frames:
  assumes "sendPipelineLoad conv env rate duration label = ((n, err), conns)" "0 \<le> sint n"
  shows "\<exists>k. n = of_nat k \<and> k < 2 ^ 63
    \<and> mset (concat conns) = mset (map (\<lambda>i. pipeline_event label (se_runID env) (se_now env i) i) [0..<k])"
proof (cases "dial_all (se_dial env) [0..<10]")
  case (Some e)
  have "concat (replicate m []) = []" for m by (induction m) simp_all
  moreover have "n = 0" "conns = replicate 10 []" using assms(1) Some by (simp_all add: sendPipelineLoad_def)
  ultimately show ?thesis by (intro exI [of _ 0]) (simp only:, simp)
next
  case None
  define total where "total = load_total conv rate duration"
  define m where "m = nat (sint total)"
  obtain r cs where r: "send_frames env label [0..<m] (replicate 10 []) = (r, cs)" by fastforce
  have m: "m < 2 ^ 63"
    using sint_range_size [of total] by (cases "0 \<le> sint total") (simp_all add: m_def word_size nat_less_iff)
  have "concat (replicate j []) = []" for j by (induction j) simp_all
  then have w: "mset (concat cs) = mset (map (\<lambda>i. pipeline_event label (se_runID env) (se_now env i) i) (written_to env [0..<m]))"
    "case r of None \<Rightarrow> written_to env [0..<m] = [0..<m] | Some (i, _) \<Rightarrow> (\<exists>rest. [0..<m] = written_to env [0..<m] @ i # rest)"
    using send_frames_written [OF r] by simp_all
  have conns: "conns = cs" and n: "n = (case r of None \<Rightarrow> total | Some (i, _) \<Rightarrow> of_nat i)"
    using assms(1) None r by (auto simp: sendPipelineLoad_def total_def m_def Let_def split: option.splits)
  show ?thesis
  proof (cases r)
    case None
    then have "n = of_nat m" using n assms(2) by (simp add: m_def)
    then show ?thesis using w m None conns by (intro exI [of _ m]) simp
  next
    case (Some ie)
    then obtain i rest where i: "[0..<m] = written_to env [0..<m] @ i # rest" "n = of_nat i" using w(2) n by (cases ie) auto
    let ?k = "length (written_to env [0..<m])"
    have k: "?k < m" using arg_cong [OF i(1), of length] by simp
    have "[0..<m] ! ?k = i" by (subst i(1)) simp
    then have "i = ?k" using k by simp
    moreover have "written_to env [0..<m] = take ?k [0..<m]" by (metis append_eq_conv_conj i(1))
    then have "written_to env [0..<m] = [0..<?k]" using k by (simp add: take_upt)
    ultimately show ?thesis using w(1) conns i(2) k m by (intro exI [of _ i]) simp
  qed
qed

text \<open>
  Of what the pipeline benchmark has sent, also if it ended with an error, the data receiver accepts every
  frame as it is; the number it returns is the number of these frames, and all have different identifiers, so
  that each of them can give exactly one sample.
\<close>

theorem pipeline_frames_accepted:
  assumes "sendPipelineLoad conv env rate duration label = ((n, err), conns)" "0 \<le> sint n"
    and "\<forall>i. 0 < sint (se_now env i)" "list_all (byte_in 0 0x7F) label"
  shows "accepted (map encode_OBUData (concat conns)) = concat conns
    \<and> sint n = int (length (concat conns)) \<and> distinct (map od_EventID (concat conns))"
proof -
  let ?ev = "\<lambda>i. pipeline_event label (se_runID env) (se_now env i) i"
  obtain k where k: "n = of_nat k" "k < 2 ^ 63" "mset (concat conns) = mset (map ?ev [0..<k])"
    using sendPipelineLoad_frames [OF assms(1,2)] by blast
  have "\<forall>d \<in> set (concat conns). good_event d"
    using mset_eq_setD [OF k(3)] pipeline_event_good(1) assms(3,4) by auto
  from accepted_encoded [OF this] have "accepted (map encode_OBUData (concat conns)) = concat conns" .
  moreover have "sint n = int (length (concat conns))"
    using mset_eq_length [OF k(3)] sint_of_nat [OF k(2)] k(1) by simp
  moreover have "mset (map od_EventID (concat conns)) = mset (map (\<lambda>i. od_EventID (?ev i)) [0..<k])"
    using k(3) by (metis (no_types, lifting) comp_apply image_mset.comp mset_map multiset.map_cong0)
  then have "distinct (map od_EventID (concat conns))"
    using pipeline_ids_distinct [of k label "se_runID env" "se_now env"] k(2) mset_eq_imp_distinct_iff by (metis less_imp_le)
  ultimately show ?thesis by blast
qed

lemma warm_load: "load_total conv 50 2000000000 = 100"
proof -
  have "Seconds 2000000000 = F64 0x4000000000000000"
    by (simp add: Seconds_def signed_modulo_int_def signed_divide_int_def Let_def) (simp add: float_eval)
  moreover have "fmul (float_of_int 50) (F64 0x4000000000000000) = F64 0x4059000000000000" by (simp add: float_eval)
  moreover have "math_Round (F64 0x4059000000000000) = F64 0x4059000000000000" by (simp add: float_eval)
  moreover have "float_to_int64 conv (F64 0x4059000000000000) = 100" by (simp add: float_to_int64_def ftrunc_def float_eval)
  ultimately show ?thesis by (simp add: load_total_def)
qed

definition calm_sender :: sender_env where
  "calm_sender = \<lparr>se_dial = (\<lambda>_. None), se_write = (\<lambda>i. if i = 3 then Some ''broken pipe'' else None), se_now = (\<lambda>_. 5),
     se_runID = 7, se_elapsed = 0\<rparr>"

theorem pipeline_frames_accepted_witness:
  "\<exists>conns. sendPipelineLoad (\<lambda>_. 0) calm_sender 50 2000000000 ''warm'' = ((3, Some (WriteFailed ''broken pipe'')), conns)
    \<and> accepted (map encode_OBUData (concat conns)) = concat conns \<and> length (concat conns) = 3"
proof -
  have "load_total (\<lambda>_. 0) 50 2000000000 = 100" by (rule warm_load)
  moreover have "dial_all (\<lambda>_. None) is = None" for "is" by (induction "is") simp_all
  moreover have up: "[0..<100] = 0 # 1 # 2 # 3 # [4..<100]"
    by (simp add: upt_rec [of 0] upt_rec [of "Suc 0"] flip: numeral_2_eq_2)
  have "\<exists>conns. send_frames calm_sender ''warm'' [0..<100] (replicate 10 []) = (Some (3, ''broken pipe''), conns)"
    unfolding up by (simp add: calm_sender_def del: upt_Suc)
  ultimately obtain conns where run: "sendPipelineLoad (\<lambda>_. 0) calm_sender 50 2000000000 ''warm'' = ((3, Some (WriteFailed ''broken pipe'')), conns)"
    by (auto simp: sendPipelineLoad_def calm_sender_def simp del: upt_Suc upt_rec_numeral replicate.simps)
  from pipeline_frames_accepted [OF run] have "accepted (map encode_OBUData (concat conns)) = concat conns" "length (concat conns) = 3"
    by (simp_all add: calm_sender_def byte_in_def)
  with run show ?thesis by blast
qed

section \<open>The exposition is read back\<close>

text \<open>A bucket as the text format spells it.\<close>

definition bucket_line :: "string \<Rightarrow> nat \<Rightarrow> string" where
  "bucket_line le n = bucket_prefix @ le @ [CHR 0x22] @ ''} '' @ show_nat n"

definition plain :: "char \<Rightarrow> bool" where
  "plain c \<longleftrightarrow> c \<notin> set (map hd spaces)"

lemma space_prefix_plain: "plain c \<Longrightarrow> space_prefix spaces (c # s) = 0"
proof -
  assume c: "plain c"
  have "take (length sp) (c # s) \<noteq> sp" if "sp \<in> set spaces" for sp
  proof -
    have "sp \<noteq> []" using that by (auto simp: spaces_def)
    then show ?thesis using c that by (cases sp) (force simp: plain_def)+
  qed
  then show "space_prefix spaces (c # s) = 0" by (simp add: space_prefix_def cong: filter_cong)
qed

lemma space_prefix_blank: "space_prefix spaces (CHR 0x20 # s) = 1"
  by (simp add: space_prefix_def spaces_def)

lemma fields_from_plain: "list_all plain s \<Longrightarrow> fields_from cur (s @ t) = fields_from (rev s @ cur) t"
proof (induction s arbitrary: cur)
  case (Cons c s)
  then show ?case using space_prefix_plain [of c "s @ t"] by (subst fields_from.simps) simp
qed simp

lemma Fields_pair:
  assumes "list_all plain s" "s \<noteq> []" "list_all plain t" "t \<noteq> []" shows "Fields (s @ CHR 0x20 # t) = [s, t]"
proof -
  have blank: "fields_from cur (CHR 0x20 # u) = (if cur = [] then [] else [rev cur]) @ fields_from [] u" for cur u
    by (subst fields_from.simps) (simp add: space_prefix_blank)
  have last: "fields_from cur [] = (if cur = [] then [] else [rev cur])" for cur by (subst fields_from.simps) simp
  have "fields_from [] (t @ []) = [t]" unfolding fields_from_plain [OF assms(3)] using assms(4) by (simp add: last)
  moreover have "fields_from [] (s @ CHR 0x20 # t) = s # fields_from [] t"
    unfolding fields_from_plain [OF assms(1)] blank using assms(2) by simp
  ultimately show ?thesis by (simp add: Fields_def)
qed

lemma plain_digit: "is_digit c \<Longrightarrow> plain c"
  by (auto simp: plain_def spaces_def is_digit_def)

lemma plain_prefix: "list_all plain bucket_prefix" "plain CHR 0x22" "plain CHR ''}''"
  by (simp_all add: plain_def spaces_def bucket_prefix_def)

lemma ParseUint_show_nat: "n < 2 ^ 64 \<Longrightarrow> ParseUint (show_nat n) = Some (of_nat n)"
  using show_nat_digits [of n] by (simp add: ParseUint_def read_show_nat)

lemma scrape_bucket_line:
  assumes "ParseFloat le = Some b" "list_all plain le" "CHR 0x22 \<notin> set le" "n < 2 ^ 64"
  shows "scrape_line (bucket_line le n) values = Inr (hist_set values b (of_nat n))"
proof -
  have digits: "list_all plain (show_nat n)" "show_nat n \<noteq> []"
    using show_nat_digits [of n] plain_digit by (auto simp: list_all_iff)
  have "bucket_line le n = (bucket_prefix @ le @ [CHR 0x22, CHR ''}'']) @ CHR 0x20 # show_nat n"
    by (simp add: bucket_line_def)
  moreover have "list_all plain (bucket_prefix @ le @ [CHR 0x22, CHR ''}''])" using plain_prefix assms(2) by simp
  ultimately have fields: "Fields (bucket_line le n) = [bucket_prefix @ le @ [CHR 0x22, CHR ''}''], show_nat n]"
    using Fields_pair digits by (metis append_is_Nil_conv list.distinct(1))
  have start: "take (length bucket_prefix) (bucket_line le n) = bucket_prefix"
    and rest: "drop (length bucket_prefix) (bucket_line le n) = le @ CHR 0x22 # ''} '' @ show_nat n"
    unfolding bucket_line_def by simp_all
  have "takeWhile (\<lambda>c. c \<noteq> CHR 0x22) (le @ CHR 0x22 # ''} '' @ show_nat n) = le"
    using assms(3) by (subst takeWhile_append2) auto
  then show ?thesis
    unfolding scrape_line_def Let_def start rest fields using assms(1) ParseUint_show_nat [OF assms(4)] by simp
qed

lemma scrape_other_line: "take (length bucket_prefix) line \<noteq> bucket_prefix \<Longrightarrow> scrape_line line values = Inr values"
  by (simp add: scrape_line_def)

lemma scrape_lines_append:
  "scrape_lines (xs @ ys) values = (case scrape_lines xs values of Inl err \<Rightarrow> Inl err | Inr values' \<Rightarrow> scrape_lines ys values')"
  by (induction xs arbitrary: "values") (auto split: sum.splits)

lemma scrape_other_lines:
  "\<forall>line \<in> set lines. take (length bucket_prefix) line \<noteq> bucket_prefix \<Longrightarrow> scrape_lines lines values = Inr values"
  by (induction lines) (simp_all add: scrape_other_line)

text \<open>A bucket with its bound as a text, its value and its count.\<close>

definition bucket_ok :: "string \<times> float64 \<times> nat \<Rightarrow> bool" where
  "bucket_ok e \<longleftrightarrow> (case e of (le, b, n) \<Rightarrow>
     ParseFloat le = Some b \<and> list_all plain le \<and> CHR 0x22 \<notin> set le \<and> n < 2 ^ 64)"

lemma scrape_buckets:
  assumes "\<forall>e \<in> set es. bucket_ok e" "ascending (map fst values @ map (fst \<circ> snd) es)"
  shows "scrape_lines (map (\<lambda>(le, b, n). bucket_line le n) es) values = Inr (values @ map (\<lambda>(le, b, n). (b, of_nat n)) es)"
  using assms
proof (induction es arbitrary: "values")
  case (Cons e es)
  obtain le b n where e: "e = (le, b, n)" by (cases e)
  have ok: "ParseFloat le = Some b" "list_all plain le" "CHR 0x22 \<notin> set le" "n < 2 ^ 64"
    using Cons.prems(1) by (simp_all add: e bucket_ok_def)
  have "\<forall>x \<in> set values. flt (fst x) b" using Cons.prems(2) by (simp add: e ascending_def sorted_wrt_append)
  then have "hist_set values b (of_nat n) = values @ [(b, of_nat n)]" by (intro hist_set_new) (auto simp: feq_def flt_def)
  then show ?case using Cons.IH [of "values @ [(b, of_nat n)]"] Cons.prems scrape_bucket_line [OF ok, of "values"] by (simp add: e)
qed simp

text \<open>
  The harness reads back what the metrics endpoint exposes: from a response that holds the buckets of the
  pipeline histogram in ascending order, between any lines of other metrics, it scrapes exactly these buckets.
\<close>

theorem scrape_reads_back:
  assumes "\<forall>e \<in> set es. bucket_ok e" "ascending (map (fst \<circ> snd) es)" "es \<noteq> []"
    and "\<forall>line \<in> set pre \<union> set post. take (length bucket_prefix) line \<noteq> bucket_prefix"
  shows "scrapeHistogram (Inr (pre @ map (\<lambda>(le, b, n). bucket_line le n) es @ post, None)) = Inr (map (\<lambda>(le, b, n). (b, of_nat n)) es)"
  using assms scrape_buckets [of es "[]"]
  by (simp add: scrapeHistogram_def scrape_lines_append scrape_other_lines)

text \<open>The buckets 1 and +Inf with a number of samples in each.\<close>

definition two_buckets :: "nat \<Rightarrow> nat \<Rightarrow> (string \<times> float64 \<times> nat) list" where
  "two_buckets m n = [(''1'', F64 0x3FF0000000000000, m), (''+Inf'', Inf, n)]"

lemma two_buckets_ok:
  assumes "m < 2 ^ 64" "n < 2 ^ 64"
  shows "\<forall>e \<in> set (two_buckets m n). bucket_ok e" "ascending (map (fst \<circ> snd) (two_buckets m n))" "two_buckets m n \<noteq> []"
proof -
  have "ParseFloat ''1'' = Some (F64 0x3FF0000000000000)" by (simp add: parse_eval go_eval float_eval)
  moreover have "ParseFloat ''+Inf'' = Some Inf" by (simp add: parse_eval go_eval float_eval char_of_def bit_0)
  moreover have "list_all plain ''1''" "list_all plain ''+Inf''" by (simp_all add: plain_def spaces_def)
  ultimately show "\<forall>e \<in> set (two_buckets m n). bucket_ok e" using assms by (simp add: two_buckets_def bucket_ok_def)
  show "ascending (map (fst \<circ> snd) (two_buckets m n))" "two_buckets m n \<noteq> []"
    by (simp_all add: two_buckets_def ascending_def flt_def float_eval)
qed

definition two_lines :: "nat \<Rightarrow> nat \<Rightarrow> string list" where
  "two_lines m n = map (\<lambda>(le, b, n). bucket_line le n) (two_buckets m n)"

theorem scrape_reads_back_witness:
  "scrapeHistogram (Inr ([''# TYPE go_goroutines gauge''] @ two_lines 2 3 @ [''go_goroutines 8''], None))
    = Inr [(F64 0x3FF0000000000000, 2), (Inf, 3)]"
  using scrape_reads_back [OF two_buckets_ok, of 2 3 "[''# TYPE go_goroutines gauge'']" "[''go_goroutines 8'']"]
  by (simp add: two_lines_def two_buckets_def bucket_prefix_def)

section \<open>A load without events\<close>

text \<open>A tenth of a second at one event per second: the number of events is rounded to zero.\<close>

definition short_config :: bench_config where
  "short_config = bench_default\<lparr>bc_duration := 100000000, bc_loads := [1]\<rparr>"

definition quiet_env :: stage_env where
  "quiet_env = \<lparr>ge_before = Inr (two_lines 3 5, None), ge_sender = calm_sender, ge_polls = [Inr (two_lines 3 5, None)]\<rparr>"

lemma short_load: "load_total conv 1 100000000 = 0"
proof -
  have "Seconds 100000000 = F64 0x3FB999999999999A"
    by (simp add: Seconds_def signed_modulo_int_def signed_divide_int_def Let_def) (simp add: float_eval)
  moreover have "fmul (float_of_int 1) (F64 0x3FB999999999999A) = F64 0x3FB999999999999A" by (simp add: float_eval)
  moreover have "math_Round (F64 0x3FB999999999999A) = fzero" by (simp add: float_eval)
  moreover have "float_to_int64 conv fzero = 0" by (simp add: float_to_int64_def ftrunc_def float_eval)
  ultimately show ?thesis by (simp add: load_total_def)
qed

lemma two_lines_read:
  "m < 2 ^ 64 \<Longrightarrow> n < 2 ^ 64 \<Longrightarrow>
   scrapeHistogram (Inr (two_lines m n, None)) = Inr [(F64 0x3FF0000000000000, of_nat m), (Inf, of_nat n)]"
  using scrape_buckets [OF two_buckets_ok(1), of m n "[]"] two_buckets_ok(2) [of m n]
  by (simp add: scrapeHistogram_def two_lines_def two_buckets_def)

lemma quantile_of_nothing:
  "histogramQuantile [(F64 0x3FF0000000000000, 0), (Inf, 0)] q95 = NaN"
  "histogramQuantile [(F64 0x3FF0000000000000, 0), (Inf, 0)] q99 = NaN"
  by (simp_all add: histogramQuantile_def hist_get_def sort_bounds_def q95_def q99_def float_eval)

lemma short_config: "bench_parseConfig (\<lambda>(cfg, _). (cfg\<lparr>bc_duration := 100000000\<rparr>, ''1'')) = Inr short_config"
  by (simp add: short_config_def bench_default_def bench_parseConfig_def parse_eval strconv_eval trim_left.simps)

lemma empty_stage: "bench_stage conv short_config 1 quiet_env = Inr \<lparr>br_name = ''1'', br_p95 = conv NaN, br_p99 = conv NaN\<rparr>"
proof -
  have "dial_all (\<lambda>_. None) is = None" for "is" by (induction "is") simp_all
  then have sent: "fst (sendPipelineLoad conv calm_sender 1 100000000 ''load'') = (0, None)"
    by (simp add: sendPipelineLoad_def short_load calm_sender_def)
  have nan: "float_to_int64 conv (fmul NaN (float_of_int 1000000000)) = conv NaN"
    by (simp add: float_to_int64_def fmul_def) (simp add: float_eval)
  have delta: "subtractHistogram [(F64 0x3FF0000000000000, 3), (Inf, 5)] [(F64 0x3FF0000000000000, 3), (Inf, 5)]
      = Inr [(F64 0x3FF0000000000000, 0), (Inf, 0)]"
    by (simp add: subtractHistogram_def hist_get_def float_eval)
  have "hist_get [(F64 0x3FF0000000000000, c), (Inf, d)] Inf = d" for c d by (simp add: hist_get_def float_eval)
  then show ?thesis
    using sent nan delta by (simp add: bench_stage_def quiet_env_def short_config_def two_lines_read quantile_of_nothing Itoa_def show_nat_eval)
qed


end
