(* ===== verification/Bench_Transport.thy ===== *)
theory Bench_Transport
  imports Bench_Pipeline
begin

text \<open>
  The two transport benchmarks (\<open>benchmark/main.go\<close>, \<open>benchmarkHTTP\<close> and \<open>benchmarkGRPC\<close>): the request each of
  them sends, and what a successful run leaves in the aggregator. The locale \<open>billing_send\<close> states what a
  request promises; both requests keep it with the aggregator at the other end of a network, and the
  pool makes each request once, so that a run bills exactly one unit per request.
\<close>

section \<open>Requests\<close>

text \<open>The readings of the clock: the production time of a request and its latency.\<close>

record bench_clock =
  bk_now :: "string \<Rightarrow> int64"
  bk_took :: "string \<Rightarrow> duration"

definition bench_distance :: "bench_clock \<Rightarrow> string \<Rightarrow> Distance" where
  "bench_distance ck eventID =
     \<lparr>d_EventID = eventID, d_ProducedAtUnixNano = bk_now ck eventID, d_Value = float_of_int 1, d_OBUID = 1\<rparr>"

definition bench_request :: "bench_clock \<Rightarrow> string \<Rightarrow> AggregateRequest" where
  "bench_request ck eventID =
     \<lparr>ar_ObuID = 1, ar_Value = float_of_int 1, ar_ProducedAtUnixNano = bk_now ck eventID, ar_EventID = eventID\<rparr>"

definition http_send :: "'n http_lib \<Rightarrow> bench_clock \<Rightarrow> 'n send" where
  "http_send lib ck eventID w =
     (let body = (case encode_Distance (bench_distance ck eventID) of None \<Rightarrow> no_body | Some doc \<Rightarrow> marshalled lib doc);
          (err, w') =
            (case hl_NewRequest lib ''POST'' ''http://127.0.0.1:4000/agg'' body of
               Inl e \<Rightarrow> (Some e, w)
             | Inr req \<Rightarrow>
                 (case hl_Do lib 5000000000 req w of
                    (Inl e, w1) \<Rightarrow> (Some e, w1)
                  | (Inr resp, w1) \<Rightarrow>
                      (if rs_Status resp \<noteq> 202 then Some (''HTTP status '' @ show_nat (rs_Status resp)) else None, w1)))
      in ((err, bk_took ck eventID), w'))"

text \<open>\<open>msg\<close> is the text of a status error.\<close>

definition grpc_send :: "'n grpc_lib \<Rightarrow> (grpc_code \<Rightarrow> string) \<Rightarrow> bench_clock \<Rightarrow> 'n send" where
  "grpc_send lib msg ck eventID w =
     (let (code, w') = gl_Aggregate lib 5000000000 (bench_request ck eventID) w
      in ((if code \<noteq> OK then Some (msg code) else None, bk_took ck eventID), w'))"

section \<open>The benchmarks\<close>

definition benchmarkHTTP :: "(float64 \<Rightarrow> int64) \<Rightarrow> bench_config \<Rightarrow> 'n http_lib \<Rightarrow> bench_clock \<Rightarrow> int64 \<Rightarrow> bench_action list \<Rightarrow>
    'n \<Rightarrow> ((bench_error + bench_result) \<times> 'n) option" where
  "benchmarkHTTP conv cfg lib ck runID schedule w =
     map_option (map_prod id (hl_CloseIdleConnections lib))
       (benchmarkTransport conv ''HTTP'' cfg (http_send lib ck) runID schedule w)"

definition benchmarkGRPC :: "(float64 \<Rightarrow> int64) \<Rightarrow> bench_config \<Rightarrow> 'n grpc_lib \<Rightarrow> (grpc_code \<Rightarrow> string) \<Rightarrow> bench_clock \<Rightarrow> int64 \<Rightarrow>
    bench_action list \<Rightarrow> 'n \<Rightarrow> ((bench_error + bench_result) \<times> 'n) option" where
  "benchmarkGRPC conv cfg lib msg ck runID schedule w =
     (case gl_NewClient lib ''127.0.0.1:3001'' of
        Some err \<Rightarrow> Some (Inl (TransportFailed '''' err), w)
      | None \<Rightarrow>
          map_option (map_prod id (\<lambda>w'. snd (gl_Close lib w')))
            (benchmarkTransport conv ''gRPC'' cfg (grpc_send lib msg ck) runID schedule w))"

lemmas transport_eval [go_eval] =
  bench_distance_def bench_request_def http_send_def grpc_send_def benchmarkHTTP_def benchmarkGRPC_def

section \<open>What a request promises\<close>

text \<open>
  \<open>state S L w\<close>: the aggregator's ledger is \<open>L\<close>, and \<open>S\<close> holds every distance that was sent to it. A request that
  succeeds is in the ledger.
\<close>

locale billing_send =
  fixes send :: "'s send"
    and dist :: "string \<Rightarrow> Distance"
    and state :: "Distance set \<Rightarrow> ledger \<Rightarrow> 's \<Rightarrow> bool"
  assumes dist_id: "d_EventID (dist eventID) = eventID"
    and state_billed: "state S L w \<Longrightarrow> billed S L"
    and send_bills: "state S L w \<Longrightarrow> utf8 eventID \<Longrightarrow> send eventID w = ((err, took), w') \<Longrightarrow>
      \<exists>M. state (insert (dist eventID) S) (L @ M) w'
        \<and> (err = None \<longrightarrow> valid_distance (dist eventID) \<and> eventID \<in> set (ids (L @ M)))"
begin

lemma sends_billed:
  assumes "state S L w" "\<forall>eventID \<in> set eventIDs. utf8 eventID" "sends send eventIDs w = (outs, w')"
    and "list_all (\<lambda>out. fst out = None) outs"
  shows "\<exists>M. state (S \<union> dist ` set eventIDs) (L @ M) w' \<and> set eventIDs \<subseteq> set (ids (L @ M))"
  using assms
proof (induction eventIDs arbitrary: S L w outs)
  case Nil
  then show ?case by (intro exI [of _ "[]"]) simp
next
  case (Cons eventID eventIDs)
  obtain took w1 os where s: "send eventID w = ((None, took), w1)" "sends send eventIDs w1 = (os, w')" "outs = (None, took) # os"
    using Cons.prems(3,4) by (auto split: prod.splits)
  obtain M where M: "state (insert (dist eventID) S) (L @ M) w1" "eventID \<in> set (ids (L @ M))"
    using send_bills [OF Cons.prems(1) _ s(1)] Cons.prems(2) by auto
  obtain N where "state (insert (dist eventID) S \<union> dist ` set eventIDs) ((L @ M) @ N) w'" "set eventIDs \<subseteq> set (ids ((L @ M) @ N))"
    using Cons.IH [OF M(1) _ s(2)] Cons.prems(2,4) s(3) by auto
  then show ?case using M(2) by (intro exI [of _ "M @ N"]) auto
qed

text \<open>From an empty ledger: what was sent is what was billed, each request once.\<close>

lemma sends_ledger:
  assumes "state {} [] w" "\<forall>eventID \<in> set eventIDs. utf8 eventID \<and> eventID \<noteq> ''''" "distinct eventIDs"
    and "sends send eventIDs w = (outs, w')" "list_all (\<lambda>out. fst out = None) outs"
  shows "\<exists>L S. state S L w' \<and> mset L = mset (map dist eventIDs)"
proof -
  obtain L where L: "state (dist ` set eventIDs) L w'" "set eventIDs \<subseteq> set (ids L)"
    using sends_billed [OF assms(1) _ assms(4,5)] assms(2) by auto
  have b: "set L \<subseteq> dist ` set eventIDs" "distinct (ids L)" using state_billed [OF L(1)] by (simp_all add: billed_def)
  have "\<forall>d \<in> set L. d_EventID d \<noteq> ''''" using b(1) assms(2) dist_id by auto
  then have "ids L = map d_EventID L" by (simp add: ids_def)
  then have dL: "distinct (map d_EventID L)" "set eventIDs \<subseteq> d_EventID ` set L" using b(2) L(2) by simp_all
  have dD: "distinct (map dist eventIDs)"
    using assms(3) dist_id by (metis distinct_map inj_on_def)
  have "dist ` set eventIDs \<subseteq> set L"
  proof
    fix d assume "d \<in> dist ` set eventIDs"
    then obtain i where i: "i \<in> set eventIDs" "d = dist i" by blast
    then obtain e where e: "e \<in> set L" "d_EventID e = i" using dL(2) by blast
    then obtain j where "e = dist j" using b(1) by blast
    then have "e = d" using e(2) i(2) dist_id by auto
    then show "d \<in> set L" using e(1) by simp
  qed
  then have "set L = set (map dist eventIDs)" using b(1) by auto
  then have "mset L = mset (map dist eventIDs)"
    using dL(1) dD by (metis distinct_map set_eq_iff_mset_eq_distinct)
  then show ?thesis using L(1) by blast
qed

end

section \<open>Both requests keep the promise\<close>

lemma bench_request_distance: "request_distance (bench_request ck eventID) = bench_distance ck eventID"
  by (simp add: request_distance_def bench_request_def bench_distance_def of_int32_def)

lemma state_net:
  "ct_net w = ct_net v \<Longrightarrow> grpc_state rel S L w = grpc_state rel S L v"
  "ct_net w' = ct_net v' \<Longrightarrow> http_state rel S L w' = http_state rel S L v'"
  by (simp_all add: grpc_state_def http_state_def)

lemma ct_net_new [simp]: "ct_net (new_client_state nw) = nw"
  by (simp add: new_client_state_def)

interpretation grpc_bench: billing_send "grpc_send (deployed_grpc aggregator_svc) msg ck" "bench_distance ck"
    "\<lambda>S L nw. grpc_state svc_rel S L (new_client_state nw)"
  for msg ck
proof
  fix S L w eventID err took w'
  show "d_EventID (bench_distance ck eventID) = eventID" by (simp add: bench_distance_def)
  assume st: "grpc_state svc_rel S L (new_client_state w)"
  then show "billed S L" by (simp add: grpc_state_def)
  assume s: "grpc_send (deployed_grpc aggregator_svc) msg ck eventID w = ((err, took), w')"
  define g where "g = \<lparr>gc_Endpoint = ''127.0.0.1:3001'', gc_timeout = 5000000000\<rparr>"
  obtain err' v where a: "GrpcClient_Aggregate (deployed_grpc aggregator_svc) g (bench_request ck eventID) (new_client_state w) = (err', v)"
    by fastforce
  have v: "ct_net v = w'" "err = None \<longleftrightarrow> err' = None"
    using s a by (auto simp: grpc_send_def GrpcClient_Aggregate_def g_def Let_def split: prod.splits if_splits)
  show "\<exists>M. grpc_state svc_rel (insert (bench_distance ck eventID) S) (L @ M) (new_client_state w')
      \<and> (err = None \<longrightarrow> valid_distance (bench_distance ck eventID) \<and> eventID \<in> set (ids (L @ M)))"
    using svc.grpc_aggregate [OF st a] v state_net(1) [of "new_client_state w'" v]
    unfolding bench_request_distance by (simp add: bench_request_def)
qed

text \<open>The endpoint of the benchmark; its URL parses as the client means it.\<close>

definition bench_http_client :: HttpClient where
  "bench_http_client = \<lparr>hc_Endpoint = ''http://127.0.0.1:4000'', hc_Timeout = 5000000000\<rparr>"

interpretation bench_endpoint: http_endpoint aggregator_svc svc_rel plain_url bench_http_client jsize prom
  for jsize prom
  by unfold_locales (simp_all add: bench_http_client_def plain_url_def split_at_def)

lemma bench_distance_encodes: "encode_Distance (bench_distance ck eventID) \<noteq> None"
proof -
  have "isFinite (float_of_int 1)" by (rule fl_one)
  then show ?thesis using float_lit_None [of "float_of_int 1"] by (auto simp: encode_Distance_def bench_distance_def)
qed

interpretation http_bench: billing_send "http_send (deployed_http plain_url jsize prom aggregator_svc) ck" "bench_distance ck"
    "\<lambda>S L nw. http_state svc_rel S L (new_client_state nw)"
  for jsize prom ck
proof
  fix S L w eventID err took w'
  let ?lib = "deployed_http plain_url jsize prom aggregator_svc"
  show "d_EventID (bench_distance ck eventID) = eventID" by (simp add: bench_distance_def)
  assume st: "http_state svc_rel S L (new_client_state w)"
  then show "billed S L" by (simp add: http_state_def)
  assume utf8: "utf8 eventID" and s: "http_send ?lib ck eventID w = ((err, took), w')"
  obtain doc where doc: "encode_Distance (bench_distance ck eventID) = Some doc" using bench_distance_encodes by blast
  obtain err' v where a: "HttpClient_Aggregate ?lib bench_http_client (bench_request ck eventID) (new_client_state w) = (err', v)"
    by fastforce
  have v: "ct_net v = w'" "err = None \<longleftrightarrow> err' = None"
    using s a doc
    by (auto simp: http_send_def HttpClient_Aggregate_def bench_http_client_def bench_request_distance Let_def
        split: prod.splits if_splits sum.splits)
  have "utf8 (ar_EventID (bench_request ck eventID))" using utf8 by (simp add: bench_request_def)
  from bench_endpoint.http_aggregate [OF st this a]
  show "\<exists>M. http_state svc_rel (insert (bench_distance ck eventID) S) (L @ M) (new_client_state w')
      \<and> (err = None \<longrightarrow> valid_distance (bench_distance ck eventID) \<and> eventID \<in> set (ids (L @ M)))"
    using v state_net(2) [of "new_client_state w'" v] unfolding bench_request_distance by (simp add: bench_request_def)
qed

section \<open>The bill of a run\<close>

lemma fl_of_nat: "n < 2 ^ 53 \<Longrightarrow> fl (float_of_int (int n)) = real n"
  using float_of_nat [of n] by (simp add: fl_def)

lemma fadd_one:
  assumes "k + 1 < 2 ^ 53" shows "fadd (float_of_int (int k)) (float_of_int 1) = float_of_int (int (k + 1))"
proof -
  have k: "k < 2 ^ 53" using assms by simp
  have sum: "fl (float_of_int (int k)) + fl (float_of_int 1) = real (k + 1)"
    using fl_of_nat [OF k] fl_of_nat [of 1] by simp
  obtain m e s where m: "real m * 2 powi e = \<bar>real (k + 1)\<bar>" "m \<noteq> 0 \<Longrightarrow> s \<longleftrightarrow> real (k + 1) < 0"
    and f: "fadd (float_of_int (int k)) (float_of_int 1) = mkf s (round_mag m e)"
    using fadd_finite [OF float_of_nat(1) [OF k] fl_one(1)] unfolding sum by metis
  have "m \<noteq> 0" using m(1) by (cases m) simp_all
  then have "\<not> s" using m(2) by simp
  note exact = round_mag_dyadic [OF assms, of 0, simplified]
  have "round_mag m e = round_mag (k + 1) 0"
    using m(1) exact by (intro round_mag_exact) simp_all
  then show ?thesis using f \<open>\<not> s\<close> by (simp add: float_of_int_def nat_add_distrib)
qed

lemma sum_of_ones:
  "n < 2 ^ 53 \<Longrightarrow> foldl fadd fzero (replicate n (float_of_int 1)) = float_of_int (int n)"
proof (induction n)
  case 0
  then show ?case by (simp add: float_of_int_def mkf_def fzero_def)
next
  case (Suc n)
  have "replicate (Suc n) (float_of_int 1) = replicate n (float_of_int 1) @ [float_of_int 1]"
    by (simp add: replicate_append_same)
  then show ?case using Suc fadd_one [of n] by simp
qed

lemma bench_ledger_invoice:
  assumes "mset L = mset (map (bench_distance ck) eventIDs)" "eventIDs \<noteq> []" "length eventIDs < 2 ^ 53"
  shows "invoice_of L 1 = Inr \<lparr>i_OBUID = 1, i_TotalDist = float_of_int (int (length eventIDs)),
    i_Amount = fmul (float_of_int (int (length eventIDs))) basePrice\<rparr>"
proof -
  have all: "\<forall>d \<in> set L. d_OBUID d = 1 \<and> d_Value d = float_of_int 1"
    using mset_eq_setD [OF assms(1)] by (auto simp: bench_distance_def)
  then have "filter (\<lambda>d. d_OBUID d = 1) L = L" by simp
  moreover have "map d_Value L = map (\<lambda>_. float_of_int 1) L" using all by (intro map_cong refl) simp
  then have "map d_Value L = replicate (length L) (float_of_int 1)" by (simp only: map_replicate_const)
  moreover have "length L = length eventIDs" using mset_eq_length [OF assms(1)] by simp
  ultimately have "values_of L 1 = replicate (length eventIDs) (float_of_int 1)" by (simp add: values_of_def)
  then show ?thesis using assms(2,3) sum_of_ones by (simp add: invoice_of_def balance_def)
qed

lemma image_disjoint: "(\<And>i j. f i \<noteq> g j) \<Longrightarrow> f ` A \<inter> g ` B = {}"
  by auto

lemma request_ids:
  assumes "mset order = mset [0..<n]" "list_all (byte_in 0 0x7F) name"
    and e: "eventIDs = map (request_id ''warm'' name runID) [0..<100] @ map (request_id ''bench'' name runID) order"
  shows "distinct eventIDs" "\<forall>eventID \<in> set eventIDs. utf8 eventID \<and> eventID \<noteq> ''''" "length eventIDs = 100 + n"
proof -
  have inj: "inj_on (request_id kind name runID) A" for kind A
  proof (rule inj_onI)
    fix i j assume "request_id kind name runID i = request_id kind name runID j"
    then have "show_nat i = show_nat j" by (simp only: request_id_def same_append_eq)
    then show "i = j" by (metis read_show_nat)
  qed
  have disj: "request_id ''warm'' name runID i \<noteq> request_id ''bench'' name runID j" for i j by (simp add: request_id_def)
  have "distinct order" using assms(1) mset_eq_imp_distinct_iff distinct_upt by metis
  then show "distinct eventIDs"
    unfolding e distinct_append distinct_map set_map using inj image_disjoint [OF disj] by (intro conjI distinct_upt)
  have "utf8 (request_id kind name runID i)" if "list_all (byte_in 0 0x7F) kind" for kind i
    unfolding request_id_def using that assms(2) ascii_show_nat ascii_Itoa by (intro utf8_ascii) (simp add: byte_in_def)
  moreover have "request_id kind name runID i \<noteq> ''''" for kind i by (simp add: request_id_def)
  moreover have "list_all (byte_in 0 0x7F) ''warm''" "list_all (byte_in 0 0x7F) ''bench''" by (simp_all add: byte_in_def)
  ultimately show "\<forall>eventID \<in> set eventIDs. utf8 eventID \<and> eventID \<noteq> ''''"
    unfolding e set_append set_map by (simp only: ball_Un ball_simps simp_thms) blast
  show "length eventIDs = 100 + n" using mset_eq_length [OF assms(1)] by (simp add: e del: upt_Suc upt_rec_numeral)
qed

lemma grpc_run_bills:
  assumes cfg: "bench_parseConfig parse = Inr cfg" "sint (bc_requests cfg) \<le> 2 ^ 40"
    and run: "benchmarkGRPC conv cfg (deployed_grpc aggregator_svc) msg ck runID schedule (fresh_net ops) = Some (Inr res, nw)"
  shows "\<exists>L. svc_rel L (sv_svc (nt_server nw)) \<and> invoice_of L 1 = Inr
    \<lparr>i_OBUID = 1, i_TotalDist = float_of_int (sint (bc_requests cfg) + 100),
     i_Amount = fmul (float_of_int (sint (bc_requests cfg) + 100)) basePrice\<rparr>"
proof -
  let ?send = "grpc_send (deployed_grpc aggregator_svc) msg ck" and ?n = "nat (sint (bc_requests cfg))"
  have t: "benchmarkTransport conv ''gRPC'' cfg ?send runID schedule (fresh_net ops) = Some (Inr res, nw)"
    using run by (auto simp: benchmarkGRPC_def deployed_grpc_def)
  obtain order outs where o: "mset order = mset [0..<?n]"
    "sends ?send (map (request_id ''warm'' ''gRPC'' runID) [0..<100] @ map (request_id ''bench'' ''gRPC'' runID) order) (fresh_net ops) = (outs, nw)"
    "list_all (\<lambda>out. fst out = None) outs"
    using transport_run [OF cfg t] by blast
  define eventIDs where "eventIDs = map (request_id ''warm'' ''gRPC'' runID) [0..<100] @ map (request_id ''bench'' ''gRPC'' runID) order"
  have ascii: "list_all (byte_in 0 0x7F) ''gRPC''" by (simp add: byte_in_def)
  note e = request_ids [OF o(1) ascii eventIDs_def]
  obtain L S where L: "grpc_state svc_rel S L (new_client_state nw)" "mset L = mset (map (bench_distance ck) eventIDs)"
    using grpc_bench.sends_ledger [OF grpc_state_fresh e(2,1) o(2) [folded eventIDs_def] o(3)] by blast
  have pos: "0 \<le> sint (bc_requests cfg)" using bench_parseConfig_facts(1) [OF cfg(1)] by simp
  have n: "length eventIDs < 2 ^ 53" "eventIDs \<noteq> []" using e(3) cfg(2) by auto
  have len: "int (length eventIDs) = sint (bc_requests cfg) + 100" using e(3) pos by simp
  show ?thesis
    using L(1) bench_ledger_invoice [OF L(2) n(2,1)] unfolding len by (auto simp: grpc_state_def)
qed

lemma http_run_bills:
  assumes cfg: "bench_parseConfig parse = Inr cfg" "sint (bc_requests cfg) \<le> 2 ^ 40"
    and run: "benchmarkHTTP conv cfg (deployed_http plain_url jsize prom aggregator_svc) ck runID schedule (fresh_net ops) = Some (Inr res, nw)"
  shows "\<exists>L. svc_rel L (sv_svc (nt_server nw)) \<and> invoice_of L 1 = Inr
    \<lparr>i_OBUID = 1, i_TotalDist = float_of_int (sint (bc_requests cfg) + 100),
     i_Amount = fmul (float_of_int (sint (bc_requests cfg) + 100)) basePrice\<rparr>"
proof -
  let ?send = "http_send (deployed_http plain_url jsize prom aggregator_svc) ck" and ?n = "nat (sint (bc_requests cfg))"
  have t: "benchmarkTransport conv ''HTTP'' cfg ?send runID schedule (fresh_net ops) = Some (Inr res, nw)"
    using run by (auto simp: benchmarkHTTP_def deployed_http_def)
  obtain order outs where o: "mset order = mset [0..<?n]"
    "sends ?send (map (request_id ''warm'' ''HTTP'' runID) [0..<100] @ map (request_id ''bench'' ''HTTP'' runID) order) (fresh_net ops) = (outs, nw)"
    "list_all (\<lambda>out. fst out = None) outs"
    using transport_run [OF cfg t] by blast
  define eventIDs where "eventIDs = map (request_id ''warm'' ''HTTP'' runID) [0..<100] @ map (request_id ''bench'' ''HTTP'' runID) order"
  have ascii: "list_all (byte_in 0 0x7F) ''HTTP''" by (simp add: byte_in_def)
  note e = request_ids [OF o(1) ascii eventIDs_def]
  obtain L S where L: "http_state svc_rel S L (new_client_state nw)" "mset L = mset (map (bench_distance ck) eventIDs)"
    using http_bench.sends_ledger [OF http_state_fresh e(2,1) o(2) [folded eventIDs_def] o(3)] by blast
  have pos: "0 \<le> sint (bc_requests cfg)" using bench_parseConfig_facts(1) [OF cfg(1)] by simp
  have n: "length eventIDs < 2 ^ 53" "eventIDs \<noteq> []" using e(3) cfg(2) by auto
  have len: "int (length eventIDs) = sint (bc_requests cfg) + 100" using e(3) pos by simp
  show ?thesis
    using L(1) bench_ledger_invoice [OF L(2) n(2,1)] unfolding len by (auto simp: http_state_def)
qed

text \<open>
  C24: A successful transport benchmark bills exactly one unit per request to OBU 1: over either transport,
  under any schedule of the workers and with any late or repeated delivery by the network, a fresh
  aggregator's invoice for it afterwards is the number of requests and the 100 warm-up requests, to the bit.
\<close>

theorem benchmark_bills_once:
  assumes cfg: "bench_parseConfig parse = Inr cfg" "sint (bc_requests cfg) \<le> 2 ^ 40"
    and run: "benchmarkGRPC conv cfg (deployed_grpc aggregator_svc) msg ck runID schedule (fresh_net ops) = Some (Inr res, nw)
      \<and> server = nt_server nw
      \<or> benchmarkHTTP conv cfg (deployed_http plain_url jsize prom aggregator_svc) ck runID schedule (fresh_net ops') = Some (Inr res, nw')
      \<and> server = nt_server nw'"
  shows "fst (ag_CalculateInvoice aggregator_svc (sv_svc server) 1) = Inr
    \<lparr>i_OBUID = 1, i_TotalDist = float_of_int (sint (bc_requests cfg) + 100),
     i_Amount = fmul (float_of_int (sint (bc_requests cfg) + 100)) basePrice\<rparr>"
proof -
  obtain L where "svc_rel L (sv_svc server)" "invoice_of L 1 = Inr
    \<lparr>i_OBUID = 1, i_TotalDist = float_of_int (sint (bc_requests cfg) + 100),
     i_Amount = fmul (float_of_int (sint (bc_requests cfg) + 100)) basePrice\<rparr>"
    using run grpc_run_bills [OF cfg] http_run_bills [OF cfg] by blast
  then show ?thesis using svc.invoices by (metis fst_conv)
qed

section \<open>A network that delivers\<close>

lemma bench_distance_valid:
  assumes "0 < sint (bk_now ck eventID)" "eventID \<noteq> ''''" shows "valid_distance (bench_distance ck eventID)"
  using assms by (simp add: valid_distance_def bench_distance_def float_eval)

lemma grpc_delivered:
  assumes "grpc_state svc_rel S L (new_client_state nw)" "nt_script nw = map Deliver ts" "length eventIDs \<le> length ts"
    and "\<forall>eventID \<in> set eventIDs. utf8 eventID \<and> eventID \<noteq> ''''" "\<forall>eventID. 0 < sint (bk_now ck eventID)"
  shows "list_all (\<lambda>out. fst out = None) (fst (sends (grpc_send (deployed_grpc aggregator_svc) msg ck) eventIDs nw))"
  using assms(1-4)
proof (induction eventIDs arbitrary: S L nw ts)
  case (Cons eventID eventIDs)
  let ?send = "grpc_send (deployed_grpc aggregator_svc) msg ck" and ?req = "bench_request ck eventID"
  obtain t us where ts: "ts = t # us" using Cons.prems(3) by (cases ts) auto
  have id: "utf8 eventID" "eventID \<noteq> ''''" using Cons.prems(4) by simp_all
  have rel: "svc_rel L (sv_svc (nt_server nw))" using Cons.prems(1) by (simp add: grpc_state_def)
  have valid: "valid_distance (request_distance ?req)"
    using bench_distance_valid [of ck eventID] assms(5) id(2) by (simp add: bench_request_distance)
  obtain took w1 where s: "?send eventID nw = ((None, took), w1)" and w1: "nt_script w1 = map Deliver us"
    using svc.grpc_request [OF rel, of t ?req] valid id(1) Cons.prems(2) ts
    by (auto simp: grpc_send_def deployed_grpc_def call_Deliver bench_request_def split_beta)
  obtain M where "grpc_state svc_rel (insert (bench_distance ck eventID) S) (L @ M) (new_client_state w1)"
    using grpc_bench.send_bills [OF Cons.prems(1) id(1) s] by blast
  from Cons.IH [OF this w1] show ?case using s ts Cons.prems(3,4) by (simp add: split_beta)
qed simp

lemma grpc_benchmark_run:
  assumes cfg: "bench_parseConfig parse = Inr cfg" "sint (bc_requests cfg) \<le> 2 ^ 40"
    and net: "sint (bc_requests cfg) + 100 \<le> int (length ts)" and clock: "\<forall>eventID. 0 < sint (bk_now ck eventID)"
  shows "\<exists>schedule res nw. benchmarkGRPC conv cfg (deployed_grpc aggregator_svc) msg ck runID schedule (fresh_net (map Deliver ts))
    = Some (Inr res, nw)"
proof -
  have ascii: "list_all (byte_in 0 0x7F) ''gRPC''" by (simp add: byte_in_def)
  have "\<exists>schedule res nw. benchmarkTransport conv ''gRPC'' cfg (grpc_send (deployed_grpc aggregator_svc) msg ck) runID schedule
      (fresh_net (map Deliver ts)) = Some (Inr res, nw)"
  proof (rule transport_succeeds [OF cfg])
    fix order assume o: "mset order = mset [0..<nat (sint (bc_requests cfg))]"
    note e = request_ids [OF o ascii refl, of runID]
    have "100 + nat (sint (bc_requests cfg)) \<le> length ts" using net bench_parseConfig_facts(1) [OF cfg(1)] by linarith
    with e(3) have len: "length (map (request_id ''warm'' ''gRPC'' runID) [0..<100] @ map (request_id ''bench'' ''gRPC'' runID) order) \<le> length ts"
      by (simp only:)
    show "list_all (\<lambda>out. fst out = None) (fst (sends (grpc_send (deployed_grpc aggregator_svc) msg ck)
        (map (request_id ''warm'' ''gRPC'' runID) [0..<100] @ map (request_id ''bench'' ''gRPC'' runID) order) (fresh_net (map Deliver ts))))"
      by (rule grpc_delivered [OF grpc_state_fresh _ len e(2) clock]) (simp add: fresh_net_def)
  qed
  then show ?thesis by (fastforce simp: benchmarkGRPC_def deployed_grpc_def)
qed

text \<open>
  C25: The gRPC benchmark can always be completed when the network delivers its calls: with as many deliveries
  as requests and a clock after 1970, there is a schedule of the workers after which it reports its
  percentiles.
\<close>

theorem grpc_benchmark_completes:
  assumes cfg: "bench_parseConfig parse = Inr cfg" "sint (bc_requests cfg) \<le> 2 ^ 40"
    and net: "sint (bc_requests cfg) + 100 \<le> int (length ts)" and clock: "\<forall>eventID. 0 < sint (bk_now ck eventID)"
  shows "\<exists>schedule res nw. benchmarkGRPC conv cfg (deployed_grpc aggregator_svc) msg ck runID schedule (fresh_net (map Deliver ts))
    = Some (Inr res, nw)"
  by (rule grpc_benchmark_run [OF assms])

definition bench_ticks :: bench_clock where
  "bench_ticks = \<lparr>bk_now = (\<lambda>_. 5), bk_took = (\<lambda>_. 7)\<rparr>"

lemma default_requests: "sint (bc_requests bench_default) = 5000"
  by (simp add: bench_default_def)

theorem grpc_benchmark_completes_witness:
  "\<exists>schedule res nw. benchmarkGRPC (\<lambda>_. 0) bench_default (deployed_grpc aggregator_svc) (\<lambda>_. ''failed'') bench_ticks 7 schedule
     (fresh_net (map Deliver (replicate 5100 1))) = Some (Inr res, nw)"
  by (rule grpc_benchmark_completes [OF bench_default]) (simp_all add: default_requests bench_ticks_def)

lemma default_grpc_run:
  "\<exists>schedule res nw. benchmarkGRPC (\<lambda>_. 0) bench_default (deployed_grpc aggregator_svc) (\<lambda>_. ''failed'') bench_ticks 7 schedule
     (fresh_net (map Deliver (replicate 5100 1))) = Some (Inr res, nw)"
  by (rule grpc_benchmark_run [OF bench_default]) (simp_all add: default_requests bench_ticks_def)

theorem benchmark_bills_once_witness:
  "\<exists>schedule res nw. benchmarkGRPC (\<lambda>_. 0) bench_default (deployed_grpc aggregator_svc) (\<lambda>_. ''failed'') bench_ticks 7 schedule
      (fresh_net (map Deliver (replicate 5100 1))) = Some (Inr res, nw)
    \<and> fst (ag_CalculateInvoice aggregator_svc (sv_svc (nt_server nw)) 1) = Inr
        \<lparr>i_OBUID = 1, i_TotalDist = float_of_int 5100, i_Amount = fmul (float_of_int 5100) basePrice\<rparr>"
proof -
  obtain schedule res nw where run: "benchmarkGRPC (\<lambda>_. 0) bench_default (deployed_grpc aggregator_svc) (\<lambda>_. ''failed'') bench_ticks 7 schedule
      (fresh_net (map Deliver (replicate 5100 1))) = Some (Inr res, nw)"
    using default_grpc_run by blast
  have "sint (bc_requests bench_default) \<le> 2 ^ 40" by (simp add: default_requests)
  from benchmark_bills_once [OF bench_default this disjI1 [OF conjI [OF run refl]]] run
  show ?thesis unfolding default_requests by auto
qed

end
