(* ===== verification/Bench_Main.thy ===== *)
theory Bench_Main
  imports Bench_Transport
begin

text \<open>
  The rest of the benchmark harness (\<open>benchmark/main.go\<close>): waiting for the aggregator, the order of the three
  benchmarks, and the report with its times in milliseconds. The lemmas show that a printed time is the
  measured one, rounded to the nearest microsecond, and that a report is written exactly if everything before
  it succeeded.
\<close>

section \<open>Times with three decimals\<close>

text \<open>
  \<open>%.3f\<close>: the exact value of a number is rounded to thousandths, halves to even. \<open>thousandths\<close> works on a
  magnitude.
\<close>

definition thousandths :: "nat \<Rightarrow> nat" where
  "thousandths n =
     (let m = sig_of n; e = exp_of n
      in if 0 \<le> e then 1000 * m * 2 ^ nat e else rdiv (1000 * m) (2 ^ nat (- e)))"

definition pad3 :: "nat \<Rightarrow> string" where
  "pad3 n = [digit (n div 100 mod 10), digit (n div 10 mod 10), digit (n mod 10)]"

definition decimal3 :: "nat \<Rightarrow> string" where
  "decimal3 t = show_nat (t div 1000) @ ''.'' @ pad3 (t mod 1000)"

definition format_f3 :: "float64 \<Rightarrow> string" where
  "format_f3 x =
     (if isNaN x then ''NaN''
      else if isInf x then (if neg x then ''-Inf'' else ''+Inf'')
      else (if neg x then ''-'' else '''') @ decimal3 (thousandths (mag x)))"

section \<open>The report\<close>

definition duration_ms :: "duration \<Rightarrow> float64" where
  "duration_ms d = fdiv (float_of_int (sint d)) (float_of_int 1000000)"

definition report_row :: "bench_result \<Rightarrow> string" where
  "report_row r =
     ''| '' @ br_name r @ '' | '' @ format_f3 (duration_ms (br_p95 r)) @ '' | '' @ format_f3 (duration_ms (br_p99 r)) @ '' |'' @ [CHR 0x0A]"

definition formatReport :: "bench_result list \<Rightarrow> bench_result list \<Rightarrow> string" where
  "formatReport transports loads =
     ''| protocol | p95_ms | p99_ms |'' @ [CHR 0x0A] @ ''|---|---:|---:|'' @ [CHR 0x0A] @ concat (map report_row transports)
     @ [CHR 0x0A] @ ''| load_eps | p95_ms | p99_ms |'' @ [CHR 0x0A] @ ''|---:|---:|---:|'' @ [CHR 0x0A] @ concat (map report_row loads)"

section \<open>The process\<close>

text \<open>The answers of the metrics endpoint before the deadline: an error or a status.\<close>

fun waitForMetrics :: "(string + nat) list \<Rightarrow> string option" where
  "waitForMetrics [] = Some ''aggregator did not become ready''"
| "waitForMetrics (resp # resps) =
     (case resp of Inr status \<Rightarrow> if status = 200 then None else waitForMetrics resps | Inl _ \<Rightarrow> waitForMetrics resps)"

datatype bench_fatal = ConfigFailed bench_error | NotReady string | TransportFatal bench_error | PipelineFatal pipe_error | ReportFailed string

text \<open>
  \<open>main\<close>: what goes to standard error with status 1, or the report that was written and printed. The results of
  the three benchmarks are given as functions of the configuration, and \<open>writeFile\<close> is the error of
  writing a file.
\<close>

definition bench_main :: "(bench_config \<times> string \<Rightarrow> bench_config \<times> string) \<Rightarrow> (string + nat) list \<Rightarrow>
    (bench_config \<Rightarrow> bench_error + bench_result) \<Rightarrow> (bench_config \<Rightarrow> bench_error + bench_result) \<Rightarrow>
    (bench_config \<Rightarrow> pipe_error + bench_result list) \<Rightarrow> (string \<Rightarrow> string \<Rightarrow> string option) \<Rightarrow> bench_fatal + string" where
  "bench_main parse polls http grpc pipe writeFile =
     (case bench_parseConfig parse of
        Inl err \<Rightarrow> Inl (ConfigFailed err)
      | Inr cfg \<Rightarrow>
          (case waitForMetrics polls of
             Some err \<Rightarrow> Inl (NotReady err)
           | None \<Rightarrow>
               (case http cfg of
                  Inl err \<Rightarrow> Inl (TransportFatal err)
                | Inr httpResult \<Rightarrow>
                    (case grpc cfg of
                       Inl err \<Rightarrow> Inl (TransportFatal err)
                     | Inr grpcResult \<Rightarrow>
                         (case pipe cfg of
                            Inl err \<Rightarrow> Inl (PipelineFatal err)
                          | Inr loads \<Rightarrow>
                              let report = formatReport [httpResult, grpcResult] loads
                              in (case writeFile (bc_report cfg) report of
                                    Some err \<Rightarrow> Inl (ReportFailed err)
                                  | None \<Rightarrow> Inr report))))))"

lemmas bench_main_eval [go_eval] =
  thousandths_def pad3_def decimal3_def format_f3_def duration_ms_def report_row_def formatReport_def bench_main_def

section \<open>Printed times\<close>

lemma thousandths_half: "\<bar>real (thousandths n) - 1000 * mval n\<bar> \<le> 1 / 2"
proof (cases "0 \<le> exp_of n")
  case True
  then show ?thesis by (simp add: thousandths_def Let_def mval_nonneg_exp)
next
  case False
  then have e: "exp_of n < 0" by simp
  have "\<bar>real (rdiv (1000 * sig_of n) (2 ^ nat (- exp_of n))) - real (1000 * sig_of n) / real (2 ^ nat (- exp_of n))\<bar> \<le> 1 / 2"
    by (rule rdiv_half) simp
  then show ?thesis using False by (simp add: thousandths_def Let_def mval_negative_exp [OF e])
qed

text \<open>A quotient is within one step of any grid of representable numbers around it.\<close>

lemma fdiv_grid:
  assumes x: "isFinite x" "\<not> neg x" "0 < mag x" and y: "isFinite y" "\<not> neg y" "0 < mag y"
    and j: "real j * 2 powi (- 20) \<le> mval (mag x) / mval (mag y)" "mval (mag x) / mval (mag y) \<le> real (j + 1) * 2 powi (- 20)"
      "j + 1 < 2 ^ 53"
  shows "isFinite (fdiv x y) \<and> \<not> neg (fdiv x y) \<and> \<bar>mval (mag (fdiv x y)) - mval (mag x) / mval (mag y)\<bar> \<le> 2 powi (- 20)"
proof -
  let ?q = "mval (mag x) / mval (mag y)" and ?r = "mval (mag (fdiv x y))"
  have j1: "j < 2 ^ 53" using j(3) by simp
  have low: "mval (round_mag j (- 20)) = real j * 2 powi (- 20)" by (rule round_mag_dyadic [OF j1]) simp_all
  have up: "mval (round_mag (j + 1) (- 20)) = real (j + 1) * 2 powi (- 20)" "round_mag (j + 1) (- 20) < inf_mag"
    by (rule round_mag_dyadic [OF j(3)]; simp)+
  note f = fdiv_between [OF x y j(1) [folded low] j(2) [folded up(1)] up(2)]
  from f(3,4) have "real j * 2 powi (- 20) \<le> ?r" "?r \<le> real (j + 1) * 2 powi (- 20)"
    by (simp_all only: mval_le_iff flip: low up(1))
  moreover have "real (j + 1) * 2 powi (- 20) = real j * 2 powi (- 20) + 2 powi (- 20)" by (simp add: distrib_right)
  ultimately have "\<bar>?r - ?q\<bar> \<le> 2 powi (- 20)" using j(1,2) by linarith
  then show ?thesis using f(1,2) by blast
qed

lemma duration_ms_close:
  assumes "0 < sint d" "sint d \<le> 2 ^ 52"
  shows "isFinite (duration_ms d) \<and> \<not> neg (duration_ms d)
    \<and> \<bar>mval (mag (duration_ms d)) - real_of_int (sint d) / 1000000\<bar> \<le> 2 powi (- 20)"
proof -
  define n where "n = nat (sint d)"
  have n: "sint d = int n" "0 < n" "n \<le> 2 ^ 52" using assms by (simp_all add: n_def nat_le_iff)
  have "n < 2 ^ 53" using n(3) by simp
  note x = float_of_nat [OF this]
  have "(1000000 :: nat) < 2 ^ 53" by simp
  note y = float_of_nat [OF this, simplified]
  define j where "j = n * 2 ^ 20 div 1000000"
  have "n * 2 ^ 20 \<le> 2 ^ 52 * 2 ^ 20" using n(3) by (intro mult_right_mono) simp_all
  then have "j \<le> 2 ^ 52 * 2 ^ 20 div 1000000" unfolding j_def by (rule div_le_mono)
  also have "\<dots> < 2 ^ 53 - 1" by simp
  finally have j3: "j + 1 < 2 ^ 53" by simp
  have "j * 1000000 \<le> n * 2 ^ 20" "n * 2 ^ 20 \<le> (j + 1) * 1000000" by (simp_all add: j_def)
  then have "real (j * 1000000) \<le> real (n * 2 ^ 20)" "real (n * 2 ^ 20) \<le> real ((j + 1) * 1000000)" by (simp_all only: of_nat_le_iff)
  then have grid: "real j * 2 powi (- 20) \<le> real n / 1000000" "real n / 1000000 \<le> real (j + 1) * 2 powi (- 20)"
    by (simp_all add: power_int_minus field_simps)
  have pos: "0 < mag (float_of_int (int n))" "0 < mag (float_of_int 1000000)"
    using x(3) y(3) n(2) by (metis gr0I mval_0 of_nat_0_less_iff less_irrefl, metis gr0I mval_0 zero_neq_numeral)
  from fdiv_grid [OF x(1) _ pos(1) y(1) _ pos(2)] x(2,3) y(2,3) grid j3
  show ?thesis by (simp add: duration_ms_def n(1))
qed

lemma printed_nearest:
  assumes "0 \<le> sint d" "sint d \<le> 2 ^ 52"
  shows "\<exists>t. format_f3 (duration_ms d) = decimal3 t \<and> \<bar>1000 * int t - sint d\<bar> \<le> 500"
proof (cases "sint d = 0")
  case True
  then have "d = 0" by (metis sint_0 signed_word_eqI)
  then have "duration_ms d = fzero" by (simp add: duration_ms_def float_eval)
  moreover have "format_f3 fzero = decimal3 0" by (simp add: format_f3_def thousandths_def float_eval)
  ultimately show ?thesis using True by (intro exI [of _ 0]) simp
next
  case False
  define v t where "v = mval (mag (duration_ms d))" and "t = thousandths (mag (duration_ms d))"
  have c: "isFinite (duration_ms d)" "\<not> neg (duration_ms d)" "\<bar>v - real_of_int (sint d) / 1000000\<bar> \<le> 2 powi (- 20)"
    using duration_ms_close [of d] assms False by (simp_all add: v_def)
  have "\<bar>real t - 1000 * v\<bar> \<le> 1 / 2" unfolding t_def v_def by (rule thousandths_half)
  then have "\<bar>1000 * real t - 1000000 * v\<bar> \<le> 500" by linarith
  moreover have "(2 :: real) powi (- 20) = 1 / 1048576" by (simp add: power_int_minus)
  with c(3) have "\<bar>1000000 * v - real_of_int (sint d)\<bar> \<le> 1000000 / 1048576" by linarith
  ultimately have "\<bar>1000 * real t - real_of_int (sint d)\<bar> < 501" by linarith
  then have "\<bar>1000 * int t - sint d\<bar> < 501" by linarith
  moreover have "format_f3 (duration_ms d) = decimal3 t"
    using c(1,2) isFinite_not by (simp add: format_f3_def t_def)
  ultimately show ?thesis by (intro exI [of _ t]) simp
qed

text \<open>The digits of a printed time are the number of its microseconds.\<close>

lemma read_nat_append: "read_nat (s @ t) = read_nat s * 10 ^ length t + read_nat t"
proof (induction t rule: rev_induct)
  case (snoc c t)
  have step: "read_nat (u @ [c]) = 10 * read_nat u + digit_val c" for u by (simp add: read_nat_def)
  show ?case unfolding append_assoc [symmetric] step snoc by simp
qed (simp add: read_nat_def)

lemma digit_val_digit: "n < 10 \<Longrightarrow> digit_val (digit n) = n"
  by (simp add: digit_val_def of_char_digit)

lemma decimal3_digits: "read_nat (filter is_digit (decimal3 t)) = t"
proof -
  have "filter is_digit (show_nat n) = show_nat n" for n using show_nat_digits [of n] by (simp add: list_all_iff)
  moreover have "filter is_digit (pad3 n) = pad3 n" for n
  proof -
    have "is_digit (digit (k mod 10))" for k by (simp add: is_digit_def of_char_digit less_Suc_eq_le [symmetric])
    then show ?thesis by (simp add: pad3_def)
  qed
  moreover have "\<not> is_digit CHR ''.''" by (simp add: is_digit_def)
  ultimately have "filter is_digit (decimal3 t) = show_nat (t div 1000) @ pad3 (t mod 1000)" by (simp add: decimal3_def)
  moreover have "read_nat (pad3 n) = n" if "n < 1000" for n
  proof -
    have "read_nat (pad3 n) = 100 * (n div 100 mod 10) + 10 * (n div 10 mod 10) + n mod 10"
      by (simp add: pad3_def read_nat_def digit_val_digit)
    moreover have "n div 100 mod 10 = n div 100" using that by simp
    moreover have "n div 100 = n div 10 div 10" by (simp add: div_mult2_eq [symmetric])
    moreover have "10 * (n div 10) + n mod 10 = n" "10 * (n div 10 div 10) + n div 10 mod 10 = n div 10" by (rule mult_div_mod_eq)+
    ultimately show ?thesis by linarith
  qed
  ultimately show ?thesis by (simp add: read_nat_append read_show_nat pad3_def)
qed

lemma bench_stages_names: "bench_stages conv cfg stages = Inr rs \<Longrightarrow> map br_name rs = map (Itoa \<circ> fst) stages"
proof (induction stages arbitrary: rs)
  case (Cons s stages)
  obtain load env where s: "s = (load, env)" by (cases s)
  from Cons.prems obtain r rs' where r: "bench_stage conv cfg load env = Inr r" "bench_stages conv cfg stages = Inr rs'" "rs = r # rs'"
    by (auto simp: s split: sum.splits)
  have "br_name r = Itoa load" using r(1) by (auto simp: bench_stage_def Let_def split: sum.splits prod.splits option.splits if_splits)
  then show ?case using Cons.IH [OF r(2)] r(3) by (simp add: s)
qed simp

section \<open>Properties of the report\<close>

text \<open>
  C26: The report shows every percentile to the nearest microsecond: a latency of up to 2^52 ns is printed with
  three decimals of a millisecond whose digits are a number of microseconds at most half a microsecond away,
  although it went through a floating-point division.
\<close>

theorem report_nearest_microsecond:
  assumes "0 \<le> sint (br_p95 r)" "sint (br_p95 r) \<le> 2 ^ 52" "0 \<le> sint (br_p99 r)" "sint (br_p99 r) \<le> 2 ^ 52"
  shows "\<exists>s t. report_row r = ''| '' @ br_name r @ '' | '' @ s @ '' | '' @ t @ '' |'' @ [CHR 0x0A]
    \<and> \<bar>1000 * int (read_nat (filter is_digit s)) - sint (br_p95 r)\<bar> \<le> 500
    \<and> \<bar>1000 * int (read_nat (filter is_digit t)) - sint (br_p99 r)\<bar> \<le> 500"
proof -
  obtain t u where "format_f3 (duration_ms (br_p95 r)) = decimal3 t" "\<bar>1000 * int t - sint (br_p95 r)\<bar> \<le> 500"
    "format_f3 (duration_ms (br_p99 r)) = decimal3 u" "\<bar>1000 * int u - sint (br_p99 r)\<bar> \<le> 500"
    using printed_nearest [OF assms(1,2)] printed_nearest [OF assms(3,4)] by blast
  then show ?thesis by (intro exI [of _ "decimal3 t"] exI [of _ "decimal3 u"]) (simp add: report_row_def decimal3_digits)
qed

theorem report_nearest_microsecond_witness:
  "\<exists>s t. report_row \<lparr>br_name = ''HTTP'', br_p95 = 1234567, br_p99 = 2500\<rparr> = ''| HTTP | '' @ s @ '' | '' @ t @ '' |'' @ [CHR 0x0A]
    \<and> \<bar>1000 * int (read_nat (filter is_digit s)) - 1234567\<bar> \<le> 500 \<and> \<bar>1000 * int (read_nat (filter is_digit t)) - 2500\<bar> \<le> 500"
  using report_nearest_microsecond [of "\<lparr>br_name = ''HTTP'', br_p95 = 1234567, br_p99 = 2500\<rparr>"] by simp

text \<open>
  The harness writes a report only if the settings were accepted, the aggregator became ready and all
  benchmarks succeeded; the report then has a row for each transport and one for every configured load, in
  their order, and is what was written to the configured file.
\<close>

theorem bench_main_report:
  assumes "bench_main parse polls http grpc (\<lambda>cfg. benchmarkPipeline conv cfg warm envs) writeFile = Inr report"
  shows "\<exists>cfg h g rs. bench_parseConfig parse = Inr cfg \<and> Inr 200 \<in> set polls \<and> http cfg = Inr h \<and> grpc cfg = Inr g
    \<and> map br_name rs = map Itoa (bc_loads cfg) \<and> report = formatReport [h, g] rs \<and> writeFile (bc_report cfg) report = None"
proof -
  obtain cfg h g rs where ok: "bench_parseConfig parse = Inr cfg" "waitForMetrics polls = None" "http cfg = Inr h" "grpc cfg = Inr g"
    and rs: "benchmarkPipeline conv cfg warm envs = Inr rs" "report = formatReport [h, g] rs" "writeFile (bc_report cfg) report = None"
    using assms by (auto simp: bench_main_def Let_def split: sum.splits option.splits)
  have "waitForMetrics polls = None \<Longrightarrow> Inr 200 \<in> set polls"
    by (induction polls) (auto split: sum.splits if_splits)
  moreover have "bench_stages conv cfg (zip (bc_loads cfg) (map envs [0..<length (bc_loads cfg)])) = Inr rs"
    using rs(1) by (auto simp: benchmarkPipeline_def split: sum.splits prod.splits option.splits)
  from bench_stages_names [OF this] have "map br_name rs = map Itoa (bc_loads cfg)"
    by (simp flip: map_map)
  ultimately show ?thesis using ok rs(2,3) by blast
qed

definition good_sender :: sender_env where
  "good_sender = calm_sender\<lparr>se_write := (\<lambda>_. None)\<rparr>"

definition warm_env :: stage_env where
  "warm_env = \<lparr>ge_before = Inr (two_lines 3 5, None), ge_sender = good_sender, ge_polls = [Inr (two_lines 3 105, None)]\<rparr>"

lemma good_sender_sends: "fst (send_frames good_sender label is conns) = None"
  by (induction "is" arbitrary: conns) (simp_all add: good_sender_def)

lemma warm_env_pipeline:
  "benchmarkPipeline conv short_config warm_env (\<lambda>_. quiet_env) = Inr [\<lparr>br_name = ''1'', br_p95 = conv NaN, br_p99 = conv NaN\<rparr>]"
proof -
  have dial: "dial_all (se_dial good_sender) is = None" for "is" by (induction "is") (simp_all add: good_sender_def calm_sender_def)
  obtain conns where frames: "send_frames good_sender ''warm'' [0..<nat (sint (100 :: go_int))] (replicate 10 []) = (None, conns)"
    using good_sender_sends by (metis prod.exhaust_sel)
  have sent: "fst (sendPipelineLoad conv good_sender 50 2000000000 ''warm'') = (100, None)"
    unfolding sendPipelineLoad_def dial warm_load Let_def option.case frames prod.case fst_conv
    by (simp add: good_sender_def calm_sender_def)
  have inf: "hist_get [(F64 0x3FF0000000000000, c), (Inf, d)] Inf = d" for c d by (simp add: hist_get_def float_eval)
  have stages: "zip (bc_loads short_config) (map (\<lambda>_. quiet_env) [0..<length (bc_loads short_config)]) = [(1, quiet_env)]"
    by (simp add: short_config_def)
  show ?thesis
    unfolding benchmarkPipeline_def stages using sent empty_stage [of conv] inf two_lines_read [of 3 5] two_lines_read [of 3 105]
    by (simp add: warm_env_def)
qed

theorem bench_main_report_witness:
  "\<exists>(cfg :: bench_config) report. bench_main (\<lambda>(cfg, _). (cfg\<lparr>bc_duration := 100000000\<rparr>, ''1'')) [Inl ''refused'', Inr 503, Inr 200]
       (\<lambda>_. Inr \<lparr>br_name = ''HTTP'', br_p95 = 5, br_p99 = 6\<rparr>) (\<lambda>_. Inr \<lparr>br_name = ''gRPC'', br_p95 = 3, br_p99 = 4\<rparr>)
       (\<lambda>cfg. benchmarkPipeline (\<lambda>_. 0) cfg warm_env (\<lambda>_. quiet_env)) (\<lambda>_ _. None) = Inr report
     \<and> (\<exists>rs. map br_name rs = map Itoa (bc_loads cfg)
         \<and> report = formatReport [\<lparr>br_name = ''HTTP'', br_p95 = 5, br_p99 = 6\<rparr>, \<lparr>br_name = ''gRPC'', br_p95 = 3, br_p99 = 4\<rparr>] rs)"
proof -
  let ?main = "bench_main (\<lambda>(cfg, _). (cfg\<lparr>bc_duration := 100000000\<rparr>, ''1'')) [Inl ''refused'', Inr 503, Inr 200]
       (\<lambda>_. Inr \<lparr>br_name = ''HTTP'', br_p95 = 5, br_p99 = 6\<rparr>) (\<lambda>_. Inr \<lparr>br_name = ''gRPC'', br_p95 = 3, br_p99 = 4\<rparr>)
       (\<lambda>cfg. benchmarkPipeline (\<lambda>_. 0) cfg warm_env (\<lambda>_. quiet_env)) (\<lambda>_ _. None)"
  have ready: "waitForMetrics [Inl ''refused'', Inr 503, Inr 200] = None" by simp
  obtain report where run: "?main = Inr report"
    unfolding bench_main_def short_config sum.case warm_env_pipeline Let_def ready option.case by blast
  let ?h = "\<lparr>br_name = ''HTTP'', br_p95 = 5, br_p99 = 6\<rparr> :: bench_result" and ?g = "\<lparr>br_name = ''gRPC'', br_p95 = 3, br_p99 = 4\<rparr> :: bench_result"
  from bench_main_report [OF run] obtain cfg :: bench_config and h g rs where rows: "Inr ?h = (Inr h :: bench_error + bench_result)" "Inr ?g = (Inr g :: bench_error + bench_result)"
    "map br_name rs = map Itoa (bc_loads cfg)" "report = formatReport [h, g] rs"
    by (elim exE conjE) (rule that)
  have "report = formatReport [?h, ?g] rs" unfolding rows(1) [unfolded sum.inject(2)] rows(2) [unfolded sum.inject(2)] by (rule rows(4))
  with run rows(3) show ?thesis by (intro exI [of _ cfg] exI [of _ report] conjI exI [of _ rs])
qed

end
