(* ===== verification/Spec2Isabelle.thy ===== *)
theory Spec2Isabelle
  imports Gateway Agg_Main Calc_Main Load_Main Load_Pipeline Bench_Main
begin

text \<open>
  A verification development for toll-calc (Tollify), a toll-billing pipeline of Go services.

  The program. On-board units (OBUs) of vehicles report positions over WebSockets to the data receiver
  (\<open>data_receiver/\<close>), which validates them and publishes them to Kafka under the key of their OBU. The
  distance calculator (\<open>dist-calc/\<close>) consumes the topic, computes the distance from the previous
  position of the OBU and sends it to the aggregator (\<open>aggregator/\<close>) over HTTP or gRPC through one of two
  clients (\<open>aggregator/client/\<close>); it commits a Kafka offset only after the aggregator has accepted the
  distance. The aggregator sums up distances per OBU in memory, ignores an event identifier it has
  seen, and serves invoices and a reconciliation summary (a count and two hashes of all event
  identifiers). The gateway (\<open>gateway/\<close>) is the public front of the invoices. The OBU load generator
  (\<open>obu/\<close>) drives the pipeline and prints its own count and hashes, for comparison with the
  aggregator's. The benchmark harness (\<open>benchmark/\<close>) measures latencies of the transports and of the whole
  pipeline. \<open>types/\<close> has the shared records and the fingerprint of an identifier.

  \<^bold>\<open>Theories, in the order of their imports.\<close>

  \<^item> \<open>Toll_Prelude\<close>: machine integers, the collection \<open>go_eval\<close> of evaluation rules, shared lemmas.
    \<open>Float64\<close>: Go's \<open>float64\<close> as an executable model of IEEE 754 binary64, with the correctness of
    the rounding. \<open>Go_Strings\<close>, \<open>Go_Time\<close>, \<open>Go_Parse\<close>: what the services use of \<open>strconv\<close>, \<open>strings\<close>,
    \<open>time\<close> and UTF-8. \<open>Json\<close>: \<open>encoding/json\<close> on the types of the services.
  \<^item> \<open>Toll_Types\<close>: \<open>types/types.go\<close>, the protocol buffer message, \<open>EventIDFingerprint\<close>.
  \<^item> \<open>Ledger\<close>: the abstract specification of billing. \<open>Store\<close>: \<open>aggregator/store.go\<close>, with the locale
    \<open>storer\<close> interpreted by \<open>MemoryStore\<close>. \<open>Service\<close>: \<open>aggregator/service.go\<close> and \<open>middleware.go\<close>, with
    the locale \<open>aggregator\<close>, interpreted by the service that \<open>aggregator/main.go\<close> puts together.
    \<open>Agg_Server\<close>: the HTTP and gRPC transports (\<open>aggregator/http.go\<close>, \<open>aggregator/grpc.go\<close>).
    \<open>Agg_Main\<close>: \<open>aggregator/main.go\<close>, both transports at once and their shutdown.
  \<^item> \<open>Network\<close>: a network that loses, delays and repeats calls. \<open>Agg_Client\<close>: \<open>aggregator/client/\<close>, with
    the locale \<open>client\<close>, interpreted by both clients with the aggregator's server at the other end.
  \<^item> \<open>Calc_Service\<close>: \<open>dist-calc/service.go\<close> and \<open>middleware.go\<close>, with the locale \<open>calculator\<close>.
    \<open>Distance_Bounds\<close>: bounds of the distances. \<open>Consumer\<close>: \<open>dist-calc/consumer.go\<close>, with the locale
    \<open>pipeline\<close> over any calculator and client that keep their contracts. \<open>Kafka_Log\<close>: progress on a
    Kafka that keeps its log. \<open>Calc_Main\<close>: \<open>dist-calc/main.go\<close>, the settings, the client they choose, the
    run, its end after a signal and its log.
  \<^item> \<open>Receiver\<close>: \<open>data_receiver/\<close>, with the locale of the interface \<open>DataProducer\<close>. \<open>Receiver_Server\<close>: any
    number of concurrent handlers, and the process with its shutdown. \<open>Gateway\<close>: \<open>gateway/main.go\<close>, the
    handler and the process.
  \<^item> \<open>Load_Config\<close>, \<open>Load_Generator\<close>, \<open>Load_Main\<close>: \<open>obu/main.go\<close>, its settings, its goroutines and its main
    function with the summary. \<open>Load_Pipeline\<close>: the generator's frames in the receiver and the calculator.
  \<^item> \<open>Go_Math\<close>: \<open>math.Ceil\<close>, \<open>math.Round\<close>, exact ranks and bounds of quotients. \<open>Benchmark\<close>, \<open>Bench_Pipeline\<close>,
    \<open>Bench_Transport\<close>, \<open>Bench_Main\<close>: \<open>benchmark/main.go\<close>, the worker pool with its percentiles, the pipeline
    benchmark with its histograms, the requests of both transports (with the locale \<open>billing_send\<close>,
    interpreted by both), and the report with the main function.
  \<^item> This theory: the composition of generator, receiver, Kafka, calculator, clients, network and
    aggregator, and calculator processes that run one after the other (\<open>incarnations\<close>).

  \<^bold>\<open>How code became definitions.\<close> A struct is a record, an interface value a record of operations on a
  state of its own, a decorator a function from one such record to another. A method takes the state
  and its arguments and returns its results and the new state; an error is \<open>Inl\<close> or an option, and every
  early return is a branch. Integers have the width of the code: \<open>int\<close>, \<open>int64\<close> and \<open>uint64\<close> are 64-bit
  words, \<open>int32\<close> is a 32-bit word, conversions truncate. Metrics are part of the state: a counter is the
  number of its increments. Names are those of the code, with the type in front of a method
  (\<open>MemoryStore_Insert\<close>) and a prefix where two packages use one name (\<open>CalcLog_\<close>, \<open>ProduceLog_\<close>,
  \<open>gateway_\<close>). Libraries that are not part of the repository are records of functions about which
  nothing is assumed (\<open>kafka_lib\<close>, the WebSocket connection, \<open>dialer\<close>), unless a theorem names its
  assumption; readings of the clock, random numbers, the branch a select takes and the environment are
  arguments.

  \<^bold>\<open>Loops.\<close> \<open>Start n\<close> and \<open>wsReceiveLoop n\<close> run at most n iterations of loops that run until they are
  stopped; the safety theorems hold for every n, and the progress theorem states an n that is enough:
  one iteration per message and per network operation. A network script lists what happens to calls
  one after the other; a call on an empty script times out. The load generator is a transition system:
  \<open>load_act\<close> is one atomic step of one goroutine, \<open>load_run\<close> executes a schedule of steps, and
  \<open>load_reach\<close> is what any schedule can reach; the receiver's handlers (\<open>receiver_run\<close>) and the workers of
  the benchmark (\<open>bench_steps\<close>) are schedules of steps as well. Every other recursion is total.

  \<^bold>\<open>What is shown.\<close> The store, the middleware and both transports refine the ledger: each identifier
  counts once, replays change nothing, invoices never decrease, the reconciliation is independent of
  the order. The calculator refines the track: an answer depends on the event and on what was seen of its OBU, a
  replay gets its old answer, and distances of moderate coordinates are finite and not negative. The
  consumer commits or seeks after every message that it reads. Together: exactly-once billing over both
  transports under any behaviour of Kafka and the network, and draining of the log when the network
  lets enough calls through. The generator's counters and hashes are those of the frames it wrote under
  any interleaving, its identifiers are unique, and the events of an OBU stay in order. Composed with
  the pipeline: the aggregator's reconciliation is the generator's summary. Round trips of the JSON
  types and of ramp schedules, error branches and bounds complete the picture. Some theorems record
  where the code does less than it means to: OBU numbers beyond 32 bits, an empty response with
  status 200, rates that are not finite, a benchmark load without events. The processes: the aggregator
  serves both transports as one ledger, the receiver hands everything valid to Kafka before it ends, the
  calculator ends after a signal, says when a rewind failed, and its restarts bill nothing twice; every
  answer of the gateway is the truth at its moment; the generator prints its summary exactly if the rate is
  finite. The benchmark's worker pool ends, its percentiles are exact nearest ranks and are printed to the
  nearest microsecond, and a successful benchmark has billed each of its requests once.

  \<^bold>\<open>Not modelled.\<close> Listening sockets and the delivery of signals (what \<open>Serve\<close>, \<open>ListenAndServe\<close> and
  \<open>Shutdown\<close> do inside: their results are arguments); generated protocol buffer code; the text level of JSON
  and HTTP; log output other than that of the main functions; values of durations that are only observed;
  connection pooling; the moment at which a paced event is sent and write deadlines (the outcome of a write
  and the time of a run are arguments); names and bucket bounds in the registration of metrics.
\<close>

section \<open>The whole pipeline\<close>

text \<open>A distance calculator that has just started, connected to a new aggregator over a network.\<close>

definition pipeline_start :: "'k kafka_lib \<Rightarrow> KafkaConsumerConfig \<Rightarrow> net_op list \<Rightarrow>
    kafka_error \<times> 'k option + (calc_state, ('r, svc_state agg_server) network client_state, 'k) KafkaConsumer" where
  "pipeline_start lib cfg ops = NewKafkaConsumerWithConfig lib cfg calc_start (new_client_state (fresh_net ops))"

lemma pipeline_start_fields:
  assumes "pipeline_start lib cfg ops = Inr st"
  shows "kc_calls st = []" "kc_calcService st = calc_start" "kc_aggClient st = new_client_state (fresh_net ops)"
  using assms
  by (auto simp: pipeline_start_def NewKafkaConsumerWithConfig_def split: sum.splits prod.splits option.splits)

lemma consumer_start_inv:
  assumes "NewKafkaConsumerWithConfig lib cfg calc_start w = Inr st" "state S L w"
  shows "pipeline_inv calc_svc_rel state S L st"
proof -
  have "kc_calls st = []" "kc_calcService st = calc_start" "kc_aggClient st = w"
    using assms(1) by (auto simp: NewKafkaConsumerWithConfig_def split: sum.splits prod.splits option.splits)
  then show ?thesis using assms(2) calc_svc_rel_start by (auto simp: pipeline_inv_def Let_def track_of_def)
qed

lemma pipeline_inv_start:
  assumes "pipeline_start lib cfg ops = Inr st" "state {} [] (new_client_state (fresh_net ops))"
  shows "pipeline_inv calc_svc_rel state {} [] st"
  using consumer_start_inv [where state = state, OF assms(1) [unfolded pipeline_start_def] assms(2)] .

text \<open>What the aggregator's state says about a run of the consumer, in terms of the messages.\<close>

definition billed_exactly_once :: "kafka_call list \<Rightarrow> ledger \<Rightarrow> bool" where
  "billed_exactly_once cs L \<longleftrightarrow>
     distinct (ids L)
     \<and> (\<forall>d \<in> set L. valid_distance d \<and> (\<exists>e \<in> set (events_read cs). d = bill (track_of cs) e))
     \<and> (\<forall>m e. Commit m \<in> set cs \<longrightarrow> event_of m = Some e \<longrightarrow>
          (\<exists>d \<in> set L. d_EventID d = od_EventID e \<and> d_Value d = answer (track_of cs) e))"

lemma pipeline_inv_billed:
  assumes inv: "pipeline_inv crel state {} L st" and billed: "\<And>S L w. state S L w \<Longrightarrow> billed S L"
  shows "billed_exactly_once (kc_calls st) L"
proof -
  let ?cs = "kc_calls st" and ?T = "track_of (kc_calls st)"
  obtain S where S: "billed S L" "S \<subseteq> bill ?T ` set (events_read ?cs)"
    using inv billed by (auto simp: pipeline_inv_def Let_def)
  have sent: "\<exists>e \<in> set (events_read ?cs). d = bill ?T e" if "d \<in> set L" for d
    using S that by (auto simp: billed_def)
  have "\<exists>d \<in> set L. d_EventID d = od_EventID e \<and> d_Value d = answer ?T e"
    if "Commit m \<in> set ?cs" "event_of m = Some e" for m e
  proof -
    have "od_EventID e \<in> set (ids L)" using inv that by (auto simp: pipeline_inv_def Let_def)
    then obtain d where d: "d \<in> set L" "d_EventID d = od_EventID e" by (auto simp: ids_def)
    then obtain e' where "e' \<in> set (events_read ?cs)" "d = bill ?T e'" using sent by blast
    then have "od_EventID e' = od_EventID e" "answers ?T (od_EventID e) \<noteq> None" "d_Value d = answer ?T e'"
      using d read_in_track [of e' ?cs] by (auto simp: mem_track_ids)
    then have "d_Value d = answer ?T e" by (auto simp: answer_def)
    then show ?thesis using d by blast
  qed
  then show ?thesis using S sent by (auto simp: billed_exactly_once_def billed_def)
qed

lemma draining_start:
  assumes "pipeline_start (log_kafka ms) cfg ops = Inr st" "length (log_events ms) \<le> deliveries ops"
  shows "draining ms 0 st"
proof -
  have "kc_consumer st = \<lparr>lg_log = ms, lg_position = 0, lg_committed = 0\<rparr>"
    using assms(1) by (auto simp: pipeline_start_def NewKafkaConsumerWithConfig_def log_kafka_def)
  moreover have "pipeline_inv calc_svc_rel (grpc_state svc_rel) {} [] st"
    using pipeline_inv_start [OF assms(1), of "grpc_state svc_rel"] grpc_state_fresh by blast
  ultimately show ?thesis
    using pipeline_start_fields [OF assms(1)] assms(2)
    by (auto simp: draining_def track_of_def log_track_def log_events_def new_client_state_def fresh_net_def)
qed

lemma log_event_id: "e \<in> set (log_events ms) \<Longrightarrow> od_EventID e \<noteq> ''''"
  using event_of_good by (fastforce simp: log_events_def events_read_mem valid_event_def)

lemma log_track_ids: "track_ids (log_track ms) \<subseteq> od_EventID ` set (log_events ms)"
proof -
  have "track_ids (foldl visit T es) \<subseteq> track_ids T \<union> od_EventID ` set es" for T es
  proof (induction es arbitrary: T)
    case (Cons e es)
    show ?case using Cons.IH [of "visit T e"] by (auto simp: track_ids_extend split: if_splits)
  qed simp
  from this [of "[]"] show ?thesis by (simp add: log_track_def)
qed

lemma drained_ledger:
  assumes "wf_log ms" "acceptable ms" "length (log_events ms) \<le> deliveries ops"
    and start: "pipeline_start (log_kafka ms) cfg ops = Inr st" and "length ms + length ops \<le> n"
  shows "\<exists>st' L. Start (log_kafka ms) calc_svc (grpcClient (deployed_grpc aggregator_svc) g) n st = (None, st')
    \<and> lg_committed (kc_consumer st') = length ms
    \<and> svc_rel L (sv_svc (nt_server (ct_net (kc_aggClient st'))))
    \<and> distinct (ids L) \<and> set (ids L) = od_EventID ` set (log_events ms)
    \<and> (\<forall>e \<in> set (log_events ms). \<exists>d \<in> set L. d_EventID d = od_EventID e \<and> d_Value d = answer (log_track ms) e)"
proof -
  obtain st' where run: "Start (log_kafka ms) calc_svc (grpcClient (deployed_grpc aggregator_svc) g) n st = (None, st')"
    and d: "draining ms (length ms) st'"
    using draining_loop [OF draining_start [OF start assms(3)] assms(1,2), of n g] assms(5)
      pipeline_start_fields(3) [OF start] by (auto simp: new_client_state_def fresh_net_def)
  then obtain L where inv: "pipeline_inv calc_svc_rel (grpc_state svc_rel) {} L st'"
    and track: "track_of (kc_calls st') = log_track ms" by (auto simp: draining_def)
  have rel: "svc_rel L (sv_svc (nt_server (ct_net (kc_aggClient st'))))"
    using inv by (auto simp: pipeline_inv_def Let_def grpc_state_def)
  have billed: "billed_exactly_once (kc_calls st') L"
    using pipeline_inv_billed [OF inv] by (auto simp: grpc_state_def)
  have every: "\<exists>d \<in> set L. d_EventID d = od_EventID e \<and> d_Value d = answer (log_track ms) e"
    if e: "e \<in> set (log_events ms)" for e
  proof -
    obtain m where "m \<in> set ms" "event_of m = Some e"
      using e by (auto simp: log_events_def events_read_mem)
    then obtain k where "k < length ms" "event_of (ms ! k) = Some e" by (auto simp: in_set_conv_nth)
    then show ?thesis using d billed track by (auto simp: draining_def billed_exactly_once_def)
  qed
  moreover have "od_EventID e \<in> set (ids L)" if "e \<in> set (log_events ms)" for e
    using every [OF that] log_event_id [OF that] by (force simp: ids_def)
  moreover have "set (ids L) \<subseteq> od_EventID ` set (log_events ms)"
    using billed read_in_track [of _ "kc_calls st'"] log_track_ids [of ms] track
    by (fastforce simp: billed_exactly_once_def ids_def)
  ultimately show ?thesis
    using run d rel billed by (intro exI [of _ st'] exI [of _ L]) (auto simp: draining_def billed_exactly_once_def)
qed

lemma ids_summary:
  assumes "mset (ids L) = mset (map od_EventID ds)"
  shows "summary L = \<lparr>r_Count = of_nat (length ds),
    r_XOR = foldr (XOR) (map (\<lambda>d. EventIDFingerprint (od_EventID d)) ds) 0,
    r_Sum = sum_list (map (\<lambda>d. EventIDFingerprint (od_EventID d)) ds)\<rparr>"
proof -
  have prints: "mset (map EventIDFingerprint (ids L)) = mset (map (\<lambda>d. EventIDFingerprint (od_EventID d)) ds)"
    using assms by (simp add: multiset.map_comp comp_def)
  then have "foldr (XOR) (map EventIDFingerprint (ids L)) 0 = foldr (XOR) (map (\<lambda>d. EventIDFingerprint (od_EventID d)) ds) 0"
    "sum_list (map EventIDFingerprint (ids L)) = sum_list (map (\<lambda>d. EventIDFingerprint (od_EventID d)) ds)"
    by (rule foldr_xor_mset) (metis prints sum_mset_sum_list)
  moreover have "length (ids L) = length ds" using mset_eq_length [OF assms] by simp
  ultimately show ?thesis by (simp add: summary_def)
qed

lemma grpc_run_billed:
  assumes "pipeline_start lib cfg ops = Inr st"
    and "snd (Start lib calc_svc (grpcClient (deployed_grpc aggregator_svc) g) n st) = st'"
  shows "\<exists>L. billed_exactly_once (kc_calls st') L
    \<and> (\<forall>i. fst (ag_CalculateInvoice aggregator_svc (sv_svc (nt_server (ct_net (kc_aggClient st')))) i) = invoice_of L i)"
proof -
  have "pipeline_inv calc_svc_rel (grpc_state svc_rel) {} [] st"
    using pipeline_inv_start [OF assms(1), of "grpc_state svc_rel"] grpc_state_fresh by blast
  from grpc_pipeline.Start_inv [OF this, of lib g n] assms(2)
  obtain L where inv: "pipeline_inv calc_svc_rel (grpc_state svc_rel) {} L st'" by auto
  then have "svc_rel L (sv_svc (nt_server (ct_net (kc_aggClient st'))))"
    by (auto simp: pipeline_inv_def Let_def grpc_state_def)
  from svc.invoices [OF this] have "\<forall>i. fst (ag_CalculateInvoice aggregator_svc
      (sv_svc (nt_server (ct_net (kc_aggClient st')))) i) = invoice_of L i"
    by (metis fst_conv)
  then show ?thesis using pipeline_inv_billed [OF inv] by (auto simp: grpc_state_def)
qed

section \<open>Restarts\<close>

text \<open>
  A sequence of calculator processes, one after the other, each with its own Kafka client, configuration
  and number of iterations until it is stopped or killed. A new process has an empty calculator and new
  metrics; the network with its stray requests and the aggregator go on. The result has the Kafka calls of every
  process that could be started. A process that is killed in the middle of an iteration leaves the
  network as the whole iteration or the one before does, since Kafka is not part of it.
\<close>

fun incarnations :: "GrpcClient \<Rightarrow> ('k kafka_lib \<times> KafkaConsumerConfig \<times> nat) list \<Rightarrow>
    (AggregateRequest, svc_state agg_server) network \<Rightarrow>
    kafka_call list list \<times> (AggregateRequest, svc_state agg_server) network" where
  "incarnations g [] nw = ([], nw)"
| "incarnations g ((lib, cfg, n) # rs) nw =
     (case NewKafkaConsumerWithConfig lib cfg calc_start (new_client_state nw) of
        Inl err \<Rightarrow> incarnations g rs nw
      | Inr consumer \<Rightarrow>
          (let st = snd (Start lib calc_svc (grpcClient (deployed_grpc aggregator_svc) g) n consumer);
               (css, nw') = incarnations g rs (ct_net (kc_aggClient st))
           in (kc_calls st # css, nw')))"

lemma grpc_state_client: "grpc_state svc_rel S L (new_client_state nw) \<longleftrightarrow> grpc_state svc_rel S L w" if "ct_net w = nw"
  using that by (simp add: grpc_state_def new_client_state_def)

lemma pipeline_inv_restart:
  assumes inv: "pipeline_inv calc_svc_rel (grpc_state svc_rel) S0 L st"
  shows "\<exists>S. grpc_state svc_rel S L (new_client_state (ct_net (kc_aggClient st)))
      \<and> S \<subseteq> S0 \<union> bill (track_of (kc_calls st)) ` set (events_read (kc_calls st))"
    and "Commit m \<in> set (kc_calls st) \<Longrightarrow> event_of m = Some e \<Longrightarrow> od_EventID e \<in> set (ids L)"
  using inv grpc_state_client by (auto simp: pipeline_inv_def Let_def)

definition bills_of :: "kafka_call list list \<Rightarrow> Distance set" where
  "bills_of css = (\<Union>cs \<in> set css. bill (track_of cs) ` set (events_read cs))"

lemma incarnations_billed:
  assumes "incarnations g rs nw = (css, nw')" "grpc_state svc_rel S L (new_client_state nw)"
  shows "\<exists>S' M. grpc_state svc_rel S' (L @ M) (new_client_state nw') \<and> S' \<subseteq> S \<union> bills_of css
    \<and> (\<forall>cs \<in> set css. \<forall>m e. Commit m \<in> set cs \<longrightarrow> event_of m = Some e \<longrightarrow> od_EventID e \<in> set (ids (L @ M)))"
  using assms
proof (induction rs arbitrary: nw css S L)
  case Nil
  then show ?case by (intro exI [of _ S] exI [of _ "[]"]) auto
next
  case (Cons r rs)
  obtain lib cfg n where r: "r = (lib, cfg, n)" by (cases r) auto
  show ?case
  proof (cases "NewKafkaConsumerWithConfig lib cfg calc_start (new_client_state nw)")
    case (Inl err)
    then show ?thesis using Cons r by simp
  next
    case (Inr consumer)
    define st where "st = snd (Start lib calc_svc (grpcClient (deployed_grpc aggregator_svc) g) n consumer)"
    obtain css1 where rest: "incarnations g rs (ct_net (kc_aggClient st)) = (css1, nw')" and css: "css = kc_calls st # css1"
      using Cons.prems(1) r Inr by (auto simp: st_def Let_def split: prod.splits)
    obtain M where inv: "pipeline_inv calc_svc_rel (grpc_state svc_rel) S (L @ M) st"
      using grpc_pipeline.Start_inv [OF consumer_start_inv [where state = "grpc_state svc_rel", OF Inr Cons.prems(2)], of lib g n]
      by (auto simp: st_def)
    obtain S1 where S1: "grpc_state svc_rel S1 (L @ M) (new_client_state (ct_net (kc_aggClient st)))"
      "S1 \<subseteq> S \<union> bill (track_of (kc_calls st)) ` set (events_read (kc_calls st))"
      using pipeline_inv_restart(1) [OF inv] by blast
    from Cons.IH [OF rest S1(1)] obtain S' M' where "grpc_state svc_rel S' (L @ M @ M') (new_client_state nw')"
      "S' \<subseteq> S1 \<union> bills_of css1"
      "\<forall>cs \<in> set css1. \<forall>m e. Commit m \<in> set cs \<longrightarrow> event_of m = Some e \<longrightarrow> od_EventID e \<in> set (ids (L @ M @ M'))"
      by auto
    moreover have "\<forall>m e. Commit m \<in> set (kc_calls st) \<longrightarrow> event_of m = Some e \<longrightarrow> od_EventID e \<in> set (ids (L @ M @ M'))"
      using pipeline_inv_restart(2) [OF inv] by fastforce
    ultimately show ?thesis
      using S1(2) css by (intro exI [of _ S'] exI [of _ "M @ M'"]) (auto simp: bills_of_def)
  qed
qed

section \<open>An example\<close>

text \<open>The two fixes of \<open>design/07-event-lifecycle.md\<close>, from (0, 0) to (3, 4), as Kafka messages.\<close>

definition message_of :: "nat \<Rightarrow> OBUData \<Rightarrow> kafka_message" where
  "message_of k e = \<lparr>m_Topic = Some ''obudata'', m_Partition = 0, m_Offset = of_nat k, m_Value = encode_OBUData e\<rparr>"

definition demo_log :: "kafka_message list" where
  "demo_log = [message_of 0 fix_a, message_of 1 fix_b]"

definition demo_config :: KafkaConsumerConfig where
  "demo_config = \<lparr>kf_Brokers = ''localhost:9092'', kf_GroupID = ''tollify-distance-calculator'',
     kf_Topic = ''obudata'', kf_DownstreamTimeout = 2000000000, kf_PollInterval = 250000000\<rparr>"

definition demo_consumer :: "net_op list \<Rightarrow>
    (calc_state, ('r, svc_state agg_server) network client_state, kafka_log) KafkaConsumer" where
  "demo_consumer ops = projr (pipeline_start (log_kafka demo_log) demo_config ops)"

lemma demo_start: "pipeline_start (log_kafka demo_log) demo_config ops = Inr (demo_consumer ops)"
  by (simp add: demo_consumer_def pipeline_start_def NewKafkaConsumerWithConfig_def log_kafka_def)

lemma event_of_message: "good_event e \<Longrightarrow> event_of (message_of k e) = Some e"
  using encode_good_event [of e] by (auto simp: event_of_def message_of_def)

lemma good_fixes: "good_event fix_a" "good_event fix_b"
proof -
  have "utf8 ''event-1''" "utf8 ''event-2''" "utf8 ''''"
    by (rule utf8_ascii, simp add: byte_in_def)+
  then show "good_event fix_a" "good_event fix_b"
    by (simp_all add: good_event_def valid_event_def fix_a_def fix_b_def float_eval)
qed

lemma demo_events: "log_events demo_log = [fix_a, fix_b]"
  using event_of_message [OF good_fixes(1)] event_of_message [OF good_fixes(2)]
  by (simp add: demo_log_def log_events_Cons) (simp add: log_events_def)

lemma calcDist_3_4: "calcDist fzero fzero (F64 0x4008000000000000) (F64 0x4010000000000000) = F64 0x4014000000000000"
  by (simp add: calcDist_def float_eval)

lemma demo_track: "log_track demo_log = [fix_a, fix_b]"
  by (simp add: log_track_def demo_events visit_def track_ids_def) (simp add: fix_a_def fix_b_def)

lemma demo_answers: "answer [fix_a, fix_b] fix_a = fzero" "answer [fix_a, fix_b] fix_b = F64 0x4014000000000000"
  using calcDist_3_4
  by (simp_all add: answer_def answers_def leg_def last_point_def) (simp_all add: fix_a_def fix_b_def)

lemma demo_acceptable: "wf_log demo_log" "acceptable demo_log"
proof -
  show "wf_log demo_log" by (auto simp: wf_log_def demo_log_def message_of_def less_Suc_eq)
  have "valid_distance (bill [fix_a, fix_b] fix_a)" "valid_distance (bill [fix_a, fix_b] fix_b)"
    by (simp_all add: valid_distance_def demo_answers)
      (simp_all add: fix_a_def fix_b_def of_int32_def to_int32_def float_eval)
  then show "acceptable demo_log" by (simp add: acceptable_def demo_events demo_track)
qed

section \<open>End-to-end properties\<close>

text \<open>
  C2: Exactly-once billing over gRPC. Whatever Kafka returns (repeated, reordered or failing
  deliveries, failing commits and seeks), whatever the network loses, delays or repeats, and however
  long the calculator runs: the aggregator's ledger has every event identifier at most once; each
  entry is the bill of an event that was read, with the distance the calculator computed for its
  first reading; every event whose message was committed is in the ledger; and the invoice of every
  OBU is the sum over this ledger.
\<close>

theorem grpc_pipeline_exactly_once:
  assumes "pipeline_start lib cfg ops = Inr st"
    and "snd (Start lib calc_svc (grpcClient (deployed_grpc aggregator_svc) g) n st) = st'"
  shows "\<exists>L. billed_exactly_once (kc_calls st') L
    \<and> (\<forall>i. fst (ag_CalculateInvoice aggregator_svc (sv_svc (nt_server (ct_net (kc_aggClient st')))) i) = invoice_of L i)"
  using grpc_run_billed [OF assms] .

theorem grpc_pipeline_exactly_once_witness:
  "\<exists>st L. pipeline_start (log_kafka demo_log) demo_config [LoseReply 1, LoseRequest, Deliver 2] = Inr st
     \<and> billed_exactly_once (kc_calls (snd (Start (log_kafka demo_log) calc_svc
         (grpcClient (deployed_grpc aggregator_svc) grpc_local) 9 st))) L"
  using grpc_pipeline_exactly_once [OF demo_start refl] demo_start by blast

text \<open>
  C5: The calculator as it is deployed: whatever the environment says of brokers, group, topic,
  endpoint and timeout, a process that talks gRPC bills exactly once, also after it has closed its
  consumer and its client.
\<close>

theorem calculator_main_bills:
  assumes "calculator_main tbl getenv hlib (deployed_grpc aggregator_svc) klib msg serve n (new_client_state (fresh_net ops)) =
      Inr (r, logs, st')"
    and "protocol tbl getenv = ''grpc''"
  shows "\<exists>L. billed_exactly_once (kc_calls st') L
    \<and> (\<forall>i. fst (ag_CalculateInvoice aggregator_svc (sv_svc (nt_server (ct_net (kc_aggClient st')))) i) = invoice_of L i)"
proof -
  from assms(1) obtain timeout ac consumer st where ac: "calculator_client tbl getenv hlib (deployed_grpc aggregator_svc) timeout = Inr ac"
    and c: "NewKafkaConsumerWithConfig klib (calculator_config getenv timeout) calc_start (new_client_state (fresh_net ops)) = Inr consumer"
    and run: "Start klib calc_svc ac n consumer = (r, st)" "st' = (if r = None then st else calculator_shutdown klib ac st)"
    by (rule calculator_mainE)
  then obtain g where g: "ac = grpcClient (deployed_grpc aggregator_svc) g"
    using assms(2) by (auto simp: calculator_client_def Let_def split: sum.splits)
  have "pipeline_start klib (calculator_config getenv timeout) ops = Inr consumer" using c by (simp add: pipeline_start_def)
  from grpc_run_billed [OF this, of g n st] run(1) g
  have "\<exists>L. billed_exactly_once (kc_calls st) L
      \<and> (\<forall>i. fst (ag_CalculateInvoice aggregator_svc (sv_svc (nt_server (ct_net (kc_aggClient st)))) i) = invoice_of L i)"
    by simp
  moreover have "kc_calls st' = kc_calls st \<and> ct_net (kc_aggClient st') = ct_net (kc_aggClient st)"
    using run(2) by (simp add: g calculator_shutdown_keeps grpcClient_def GrpcClient_Close_def deployed_grpc_def)
  ultimately show ?thesis by simp
qed

theorem calculator_main_bills_witness:
  "\<exists>r logs st' L. calculator_main (\<lambda>s. s) (\<lambda>_. '''') quiet_http (deployed_grpc aggregator_svc) (log_kafka demo_log) (\<lambda>_. '''') (\<lambda>_. None) 9
       (new_client_state (fresh_net [LoseReply 1, Deliver 2])) = Inr (r, logs, st')
     \<and> billed_exactly_once (kc_calls st') L"
proof -
  let ?m = "calculator_main (\<lambda>s. s) (\<lambda>_. '''') quiet_http (deployed_grpc aggregator_svc) (log_kafka demo_log) (\<lambda>_. '''') (\<lambda>_. None) 9
    (new_client_state (fresh_net [LoseReply 1, Deliver 2]))"
  note protocol = default_settings(2) [of "\<lambda>s. s"]
  have "\<exists>r logs st'. ?m = Inr (r, logs, st')"
    by (simp add: calculator_main_def calculator_client_def protocol default_settings(1) NewGrpcClientWithTimeout_def
        deployed_grpc_def NewKafkaConsumerWithConfig_def log_kafka_def split: prod.split option.split)
  then show ?thesis using calculator_main_bills [OF _ protocol] by metis
qed

text \<open>
  C6: Exactly-once billing survives restarts of the calculator. However often it is stopped, killed and
  started again, with whatever Kafka returns to each process: every identifier is in the ledger at most
  once; each entry is a bill that some process made of an event it read; every event whose message some
  process committed is in the ledger; and the invoices are the sums over this ledger.
\<close>

theorem billing_survives_restarts:
  assumes "incarnations g rs (fresh_net ops) = (css, nw)"
  shows "\<exists>L. distinct (ids L)
    \<and> (\<forall>d \<in> set L. valid_distance d \<and> (\<exists>cs \<in> set css. \<exists>e \<in> set (events_read cs). d = bill (track_of cs) e))
    \<and> (\<forall>cs \<in> set css. \<forall>m e. Commit m \<in> set cs \<longrightarrow> event_of m = Some e \<longrightarrow> od_EventID e \<in> set (ids L))
    \<and> (\<forall>i. fst (ag_CalculateInvoice aggregator_svc (sv_svc (nt_server nw)) i) = invoice_of L i)"
proof -
  obtain S L where st: "grpc_state svc_rel S L (new_client_state nw)" "S \<subseteq> bills_of css"
    and com: "\<forall>cs \<in> set css. \<forall>m e. Commit m \<in> set cs \<longrightarrow> event_of m = Some e \<longrightarrow> od_EventID e \<in> set (ids L)"
    using incarnations_billed [OF assms grpc_state_fresh] by auto
  have "billed S L" "svc_rel L (sv_svc (nt_server nw))" using st(1) by (auto simp: grpc_state_def new_client_state_def)
  moreover from svc.invoices [OF this(2)]
  have "\<forall>i. fst (ag_CalculateInvoice aggregator_svc (sv_svc (nt_server nw)) i) = invoice_of L i" by (metis fst_conv)
  ultimately show ?thesis using st(2) com unfolding billed_def bills_of_def by (intro exI [of _ L]) blast
qed

theorem billing_survives_restarts_witness:
  "\<exists>L. distinct (ids L)
    \<and> (\<forall>i. fst (ag_CalculateInvoice aggregator_svc (sv_svc (nt_server (snd (incarnations grpc_local
          [(log_kafka demo_log, demo_config, 3), (log_kafka demo_log, demo_config, 5)]
          (fresh_net [LoseReply 1, LoseRequest, Deliver 2, Late 0 3]))))) i) = invoice_of L i)"
proof -
  let ?r = "incarnations grpc_local [(log_kafka demo_log, demo_config, 3), (log_kafka demo_log, demo_config, 5)]
    (fresh_net [LoseReply 1, LoseRequest, Deliver 2, Late 0 3])"
  have "?r = (fst ?r, snd ?r)" by simp
  from billing_survives_restarts [OF this] show ?thesis by blast
qed

text \<open>C3: Exactly-once billing over HTTP, in the same sense.\<close>

theorem http_pipeline_exactly_once:
  assumes "pipeline_start lib cfg ops = Inr st"
    and "snd (Start lib calc_svc (httpClient (deployed_http plain_url jsize prom aggregator_svc)
      (NewHttpClient ''http://localhost:4000'')) n st) = st'"
  shows "\<exists>L. billed_exactly_once (kc_calls st') L
    \<and> (\<forall>i. fst (ag_CalculateInvoice aggregator_svc (sv_svc (nt_server (ct_net (kc_aggClient st')))) i) = invoice_of L i)"
proof -
  have "pipeline_inv calc_svc_rel (http_state svc_rel) {} [] st"
    using pipeline_inv_start [OF assms(1), of "http_state svc_rel"] http_state_fresh by blast
  from http_pipeline.Start_inv [OF this, of lib jsize prom n] assms(2)
  obtain L where inv: "pipeline_inv calc_svc_rel (http_state svc_rel) {} L st'" by auto
  then have "svc_rel L (sv_svc (nt_server (ct_net (kc_aggClient st'))))"
    by (auto simp: pipeline_inv_def Let_def http_state_def)
  from svc.invoices [OF this] have "\<forall>i. fst (ag_CalculateInvoice aggregator_svc
      (sv_svc (nt_server (ct_net (kc_aggClient st')))) i) = invoice_of L i"
    by (metis fst_conv)
  then show ?thesis using pipeline_inv_billed [OF inv] by (auto simp: http_state_def)
qed

theorem http_pipeline_exactly_once_witness:
  "\<exists>st L. pipeline_start (log_kafka demo_log) demo_config [LoseReply 1, Deliver 2] = Inr st
     \<and> billed_exactly_once (kc_calls (snd (Start (log_kafka demo_log) calc_svc
         (httpClient (deployed_http plain_url (\<lambda>_. 100) (\<lambda>_. writeJson 200 None) aggregator_svc)
           (NewHttpClient ''http://localhost:4000'')) 9 st))) L"
  using http_pipeline_exactly_once [OF demo_start refl] demo_start by blast

text \<open>
  C4: Progress over gRPC. On a Kafka that keeps its log, if every event of the log has a valid bill and
  the network delivers as many calls as there are events, the calculator commits the whole log after
  at most one iteration per message and per network operation, whatever else is lost, delayed or
  repeated; every event is then in the ledger once with its distance, and nothing else is.
\<close>

theorem grpc_pipeline_drains:
  assumes "wf_log ms" "acceptable ms" "length (log_events ms) \<le> deliveries ops"
    and start: "pipeline_start (log_kafka ms) cfg ops = Inr st" and "length ms + length ops \<le> n"
  shows "\<exists>st' L. Start (log_kafka ms) calc_svc (grpcClient (deployed_grpc aggregator_svc) g) n st = (None, st')
    \<and> lg_committed (kc_consumer st') = length ms
    \<and> svc_rel L (sv_svc (nt_server (ct_net (kc_aggClient st'))))
    \<and> distinct (ids L) \<and> set (ids L) = od_EventID ` set (log_events ms)
    \<and> (\<forall>e \<in> set (log_events ms). \<exists>d \<in> set L. d_EventID d = od_EventID e \<and> d_Value d = answer (log_track ms) e)"
  using drained_ledger [OF assms] .

theorem grpc_pipeline_drains_witness:
  "\<exists>st' L. Start (log_kafka demo_log) calc_svc (grpcClient (deployed_grpc aggregator_svc) grpc_local)
       7 (demo_consumer [Deliver 1, LoseReply 2, LoseRequest, Late 0 3, Deliver 4]) = (None, st')
     \<and> lg_committed (kc_consumer st') = 2 \<and> svc_rel L (sv_svc (nt_server (ct_net (kc_aggClient st'))))
     \<and> (\<exists>d \<in> set L. d_EventID d = ''event-2'' \<and> d_Value d = F64 0x4014000000000000)"
proof -
  have len: "length demo_log = 2" by (simp add: demo_log_def)
  have id: "od_EventID fix_b = ''event-2''" by (simp add: fix_b_def)
  have "length (log_events demo_log) \<le> deliveries [Deliver 1, LoseReply 2, LoseRequest, Late 0 3, Deliver 4]"
    "length demo_log + length [Deliver 1, LoseReply 2, LoseRequest, Late 0 3, Deliver 4] \<le> 7"
    by (simp_all add: demo_events len)
  from grpc_pipeline_drains [OF demo_acceptable this(1) demo_start this(2), of grpc_local]
  show ?thesis using demo_answers(2) id by (auto simp: len demo_events demo_track)
qed

text \<open>
  C1: The books close. Let a run of the load generator have ended, in either mode and under any
  interleaving of its goroutines; let the receiver, started afresh and serving any number of connections
  in turns, have read the frames of every connection; and let the Kafka topic hold what it produced, in
  any order. The calculator then works through the topic, whatever the network loses or repeats as long as it
  delivers as many calls as there are frames; and the reconciliation the aggregator serves is, to the
  bit, the summary the generator prints: as many events as were written, with the same two hashes.
\<close>

theorem load_reconciles:
  assumes "load_reach lcfg (load_start lcfg phases k runID) gen" "0 < k" "0 < sint (lc_OBUs lcfg)" "sint (lc_OBUs lcfg) < 2 ^ 31"
    and "ld_main gen = Returned" "length (ld_created gen) < 2 ^ 64"
    and "\<forall>d \<in> set (ld_created gen). 0 < sint (od_ProducedAtUnixNano d)"
    and "NewDataReceiver new getenv = Inr dr0"
    and "receiver_run (NewProduceLogMiddleware (kafkaProducer plib)) ws turns (receiver_start dr0) = Some rv"
    and "frames_read (ld_sent gen) (rv_read rv)" "topic_of (pg_next (dr_prod (rv_receiver rv))) ms" "wf_log ms"
    and "length ms \<le> deliveries ops" "pipeline_start (log_kafka ms) cfg ops = Inr st" "length ms + length ops \<le> n"
  shows "\<exists>st'. Start (log_kafka ms) calc_svc (grpcClient (deployed_grpc aggregator_svc) g) n st = (None, st')
    \<and> lg_committed (kc_consumer st') = length ms
    \<and> ag_Reconciliation aggregator_svc (sv_svc (nt_server (ct_net (kc_aggClient st')))) =
        \<lparr>r_Count = su_EventsWritten (printSummary lcfg (ld_stats gen) elapsed),
         r_XOR = su_EventIDHashXOR (printSummary lcfg (ld_stats gen) elapsed),
         r_Sum = su_EventIDHashSum (printSummary lcfg (ld_stats gen) elapsed)\<rparr>"
proof -
  have inv: "load_inv lcfg (lc_Mode lcfg \<noteq> ''max'') runID k gen" by (rule load_inv_reach [OF assms(1-3)])
  let ?ds = "concat (ld_sent gen)"
  have events: "mset (log_events ms) = mset ?ds" "length ms = length ?ds"
    using topic_frames [OF inv assms(7-11)] .
  have acc: "acceptable ms" by (rule frames_acceptable [OF inv assms(7,4) events(1)])
  have "length (log_events ms) \<le> deliveries ops" using mset_eq_length [OF events(1)] events(2) assms(13) by simp
  from drained_ledger [OF assms(12) acc this assms(14,15), of g]
  obtain st' L where run: "Start (log_kafka ms) calc_svc (grpcClient (deployed_grpc aggregator_svc) g) n st = (None, st')"
      "lg_committed (kc_consumer st') = length ms"
    and rel: "svc_rel L (sv_svc (nt_server (ct_net (kc_aggClient st'))))"
    and ids: "distinct (ids L)" "set (ids L) = od_EventID ` set (log_events ms)" by blast
  have "set (ids L) = set (map od_EventID ?ds)" using ids(2) mset_eq_setD [OF events(1)] by simp
  then have "mset (ids L) = mset (map od_EventID ?ds)"
    using ids(1) sent_distinct [OF inv assms(6)] by (simp only: set_eq_iff_mset_eq_distinct)
  from ids_summary [OF this] finished_stats [OF inv assms(5)]
  have "summary L = \<lparr>r_Count = ls_written (ld_stats gen), r_XOR = ls_hashXOR (ld_stats gen), r_Sum = ls_hashSum (ld_stats gen)\<rparr>"
    by simp
  then show ?thesis using run svc.reconciles [OF rel] by (simp add: printSummary_def)
qed

text \<open>The frames of the example run; the receiver reads those of the second connection first.\<close>

definition load_log :: "kafka_message list" where
  "load_log = [message_of 0 (ld_sent demo_end ! 1 ! 0), message_of 1 (ld_sent demo_end ! 0 ! 0)]"

definition load_turns :: "json option list receiver_op list" where
  "load_turns = [Connect 0 (Inr (map encode_OBUData (ld_sent demo_end ! 0))), Connect 1 (Inr (map encode_OBUData (ld_sent demo_end ! 1))),
     Receive 1, Receive 0]"

lemma load_demo_received:
  "\<exists>rv. receiver_run (NewProduceLogMiddleware (kafkaProducer calm_producer)) list_ws load_turns (receiver_start calm_receiver) = Some rv
     \<and> frames_read (ld_sent demo_end) (rv_read rv) \<and> topic_of (pg_next (dr_prod (rv_receiver rv))) load_log"
proof -
  obtain a b where sent: "ld_sent demo_end = [[a], [b]]" using demo_run(4) by (auto simp: map_eq_Cons_conv)
  have inv: "load_inv demo_cfg True 7 2 demo_end"
    using load_inv_reach [OF demo_reach] by (simp add: demo_cfg_def)
  have "good_event a" "good_event b" using sent_good(1) [OF inv demo_clock] sent by simp_all
  then obtain v w where "encode_OBUData a = Some v" "payload_event (Some v) = Some a"
    "encode_OBUData b = Some w" "payload_event (Some w) = Some b"
    using encode_good_event by metis
  then show ?thesis
    by (simp add: load_turns_def sent receiver_start_def ws_connect_def ws_receive_def wsReceive_step_event list_ws_def
        split_beta Let_def frames_read_def topic_of_def load_log_def message_of_def NewProduceLogMiddleware_def
        ProduceLog_ProduceData_def kafkaProducer_def KafkaProducer_ProduceData_def calm_producer_def newKafkaMessage_def
        calm_receiver_def NewDataReceiver_def NewKafkaProducer_def NewDataReceiverWithProducer_def ws_opened_def)
qed

theorem load_reconciles_witness:
  "\<exists>st'. Start (log_kafka load_log) calc_svc (grpcClient (deployed_grpc aggregator_svc) grpc_local) 7
       (projr (pipeline_start (log_kafka load_log) demo_config [Deliver 1, LoseReply 2, LoseRequest, Late 0 3, Deliver 4])) = (None, st')
     \<and> lg_committed (kc_consumer st') = 2
     \<and> r_Count (ag_Reconciliation aggregator_svc (sv_svc (nt_server (ct_net (kc_aggClient st'))))) = ls_written (ld_stats demo_end)"
proof -
  let ?ops = "[Deliver 1, LoseReply 2, LoseRequest, Late 0 3, Deliver 4] :: net_op list"
  have len: "length load_log = 2" "wf_log load_log"
    by (auto simp: wf_log_def load_log_def message_of_def less_Suc_eq)
  have new: "NewDataReceiver (\<lambda>_. Inr ()) (\<lambda>_. '''') = Inr calm_receiver"
    by (simp add: calm_receiver_def NewDataReceiver_def NewKafkaProducer_def)
  obtain rv where rv: "receiver_run (NewProduceLogMiddleware (kafkaProducer calm_producer)) list_ws load_turns
      (receiver_start calm_receiver) = Some rv"
    "frames_read (ld_sent demo_end) (rv_read rv)" "topic_of (pg_next (dr_prod (rv_receiver rv))) load_log"
    using load_demo_received by blast
  have start: "pipeline_start (log_kafka load_log) demo_config ?ops = Inr (projr (pipeline_start (log_kafka load_log) demo_config ?ops))"
    by (simp add: pipeline_start_def NewKafkaConsumerWithConfig_def log_kafka_def)
  have cfg: "(0::nat) < 2" "0 < sint (lc_OBUs demo_cfg)" "sint (lc_OBUs demo_cfg) < 2 ^ 31" "length (ld_created demo_end) < 2 ^ 64"
    "length load_log \<le> deliveries ?ops" "length load_log + length ?ops \<le> 7"
    using demo_run(3) len by (simp_all add: demo_cfg_def)
  from load_reconciles [OF demo_reach cfg(1-3) demo_run(2) cfg(4) demo_clock new rv len(2) cfg(5) start cfg(6),
      of grpc_local 1000000000]
  show ?thesis unfolding len(1) by (auto simp: printSummary_def)
qed

text \<open>
  C36: A message whose OBU number is not positive after the conversion to 32 bits, as 2147483648 is, is
  never committed, although the consumer accepts it as valid: however long the calculator runs and
  whatever Kafka and the network do, it can only fail and be read again.
\<close>

theorem truncated_obu_never_committed:
  assumes "pipeline_start lib cfg ops = Inr st" "event_of m = Some e"
    and "sint (of_int32 (to_int32 (od_OBUID e))) \<le> 0"
  shows "Commit m \<notin> set (kc_calls (snd (Start lib calc_svc (grpcClient (deployed_grpc aggregator_svc) g) n st)))"
proof
  let ?st = "snd (Start lib calc_svc (grpcClient (deployed_grpc aggregator_svc) g) n st)"
  assume committed: "Commit m \<in> set (kc_calls ?st)"
  have "pipeline_inv calc_svc_rel (grpc_state svc_rel) {} [] st"
    using pipeline_inv_start [OF assms(1), of "grpc_state svc_rel"] grpc_state_fresh by blast
  from grpc_pipeline.Start_inv [OF this, of lib g n]
  have "valid_distance (bill (track_of (kc_calls ?st)) e)"
    using committed assms(2) by (auto simp: pipeline_inv_def Let_def)
  then show False using assms(3) by (simp add: valid_distance_def)
qed

definition poison :: OBUData where
  "poison = fix_b\<lparr>od_OBUID := 2147483648\<rparr>"

theorem truncated_obu_never_committed_witness:
  "valid_event poison \<and> Commit (message_of 0 poison) \<notin> set (kc_calls (snd (Start (log_kafka [message_of 0 poison]) calc_svc
     (grpcClient (deployed_grpc aggregator_svc) grpc_local) 100
     (projr (pipeline_start (log_kafka [message_of 0 poison]) demo_config [Deliver 1, Deliver 2])))))"
proof -
  have good: "good_event poison"
    using good_fixes(2) by (simp add: good_event_def poison_def valid_event_def fix_b_def)
  moreover have "sint (of_int32 (to_int32 (od_OBUID poison))) \<le> 0"
    by (simp add: poison_def of_int32_def to_int32_def)
  moreover have "pipeline_start (log_kafka [message_of 0 poison]) demo_config ops =
      Inr (projr (pipeline_start (log_kafka [message_of 0 poison]) demo_config ops))" for ops
    by (simp add: pipeline_start_def NewKafkaConsumerWithConfig_def log_kafka_def)
  ultimately show ?thesis
    using truncated_obu_never_committed [OF _ event_of_message [OF good]] by (metis good_event_def)
qed

end
